(* ===== verification/Go_Prelude.thy ===== *)
theory Go_Prelude
  imports Main "HOL-Library.Char_ord"
begin

text \<open>
  Prelude of the georoute development: the Go values that every component shares.
  It holds Go errors (a chain of sentinels for \<open>errors.Is\<close> and a message for
  \<open>Error()\<close>), and the part of the packages \<open>strings\<close>, \<open>strconv\<close> and \<open>fmt\<close>
  that the source uses. A Go string is a sequence of bytes, so it is a \<open>char list\<close>
  here, one \<open>char\<close> per byte.
  The collection \<open>go_simps\<close> gathers the equations that evaluate these helpers.
\<close>

named_theorems go_simps \<open>equations of the Go helpers used by every component\<close>

section \<open>Errors\<close>

text \<open>
  The package-level \<open>errors.New\<close> values of the source, and the values of the
  standard library that the code tests with \<open>errors.Is\<close>.
\<close>

datatype sentinel =
    ErrBadStatus | ErrHTTP | ErrBeginMissing | ErrEndMissing | ErrLocked
  | ErrUnsupportedTarget | ErrUnsupportedTargetMode | ErrApplyPrefixLimit | ErrIOSXEApplyConfig
  | ErrIOSXEApplyRejected | ErrIOSXEPostcheckFailed | ErrIOSXESaveRejected
  | ErrExtrasFamilyMismatch | ErrExtrasInvalidPrefix | ErrExtrasTooLarge | ErrExtrasLineTooLong
  | ErrCacheMissing | ErrCacheStale
  | ErrLastSuccessMissing | ErrLastSuccessStale
  | ErrInvalidLogFormat | ErrInvalidLogLevel
  | FsErrNotExist | ErrWouldBlock | ErrServerClosed

fun sentinel_text :: "sentinel \<Rightarrow> string" where
  "sentinel_text ErrBadStatus = ''RIPE Stat status not ok''"
| "sentinel_text ErrHTTP = ''RIPE Stat HTTP error''"
| "sentinel_text ErrBeginMissing = ''begin marker not found in FRR config''"
| "sentinel_text ErrEndMissing = ''end marker not found or misplaced in FRR config''"
| "sentinel_text ErrLocked = ''another georoute run holds the lock''"
| "sentinel_text ErrUnsupportedTarget = ''unsupported target''"
| "sentinel_text ErrUnsupportedTargetMode = ''unsupported target mode''"
| "sentinel_text ErrApplyPrefixLimit = ''iosxe apply prefix limit exceeded''"
| "sentinel_text ErrIOSXEApplyConfig = ''iosxe apply configuration incomplete''"
| "sentinel_text ErrIOSXEApplyRejected = ''iosxe apply rejected''"
| "sentinel_text ErrIOSXEPostcheckFailed = ''iosxe postcheck failed''"
| "sentinel_text ErrIOSXESaveRejected = ''iosxe save rejected''"
| "sentinel_text ErrExtrasFamilyMismatch = ''extras prefix family does not match flag''"
| "sentinel_text ErrExtrasInvalidPrefix = ''extras prefix invalid''"
| "sentinel_text ErrExtrasTooLarge = ''extras file exceeds maximum size''"
| "sentinel_text ErrExtrasLineTooLong = ''extras line exceeds maximum length''"
| "sentinel_text ErrCacheMissing = ''cache file does not exist''"
| "sentinel_text ErrCacheStale = ''cache file exceeds max age''"
| "sentinel_text ErrLastSuccessMissing = ''last-success file missing''"
| "sentinel_text ErrLastSuccessStale = ''last-success older than max age''"
| "sentinel_text ErrInvalidLogFormat = ''invalid log format''"
| "sentinel_text ErrInvalidLogLevel = ''invalid log level''"
| "sentinel_text FsErrNotExist = ''file does not exist''"
| "sentinel_text ErrWouldBlock = ''resource temporarily unavailable''"
| "sentinel_text ErrServerClosed = ''http: Server closed''"

text \<open>
  An \<open>error\<close> value: the sentinels in its \<open>%w\<close> chain and its text.
  \<open>fmt.Errorf\<close> with one \<open>%w\<close> is \<open>wrapf\<close>, with two is \<open>wrapf2\<close>.
\<close>

datatype go_error = GoErr (err_chain: "sentinel list") (err_msg: string)

type_synonym 'a res = "go_error + 'a"

definition errors_is :: "go_error \<Rightarrow> sentinel \<Rightarrow> bool" where
  "errors_is e s = List.member (err_chain e) s"

definition errors_new :: "sentinel \<Rightarrow> go_error" where
  "errors_new s = GoErr [s] (sentinel_text s)"

definition wrapf :: "string \<Rightarrow> go_error \<Rightarrow> string \<Rightarrow> go_error" where
  "wrapf pre e post = GoErr (err_chain e) (pre @ err_msg e @ post)"

definition wrapf2 :: "string \<Rightarrow> go_error \<Rightarrow> string \<Rightarrow> go_error \<Rightarrow> string \<Rightarrow> go_error" where
  "wrapf2 pre e1 mid e2 post =
     GoErr (err_chain e1 @ err_chain e2) (pre @ err_msg e1 @ mid @ err_msg e2 @ post)"

definition errors_join :: "go_error \<Rightarrow> go_error \<Rightarrow> go_error" where
  "errors_join e1 e2 = GoErr (err_chain e1 @ err_chain e2) (err_msg e1 @ [CHR 0x0A] @ err_msg e2)"

lemma errors_is_simps [simp, go_simps]:
  "errors_is (errors_new s) t \<longleftrightarrow> s = t"
  "errors_is (wrapf pre e post) t \<longleftrightarrow> errors_is e t"
  "errors_is (wrapf2 pre e1 mid e2 post) t \<longleftrightarrow> errors_is e1 t \<or> errors_is e2 t"
  "errors_is (errors_join e1 e2) t \<longleftrightarrow> errors_is e1 t \<or> errors_is e2 t"
  by (auto simp: errors_is_def errors_new_def wrapf_def wrapf2_def errors_join_def)

lemma err_msg_simps [simp, go_simps]:
  "err_msg (errors_new s) = sentinel_text s"
  "err_msg (wrapf pre e post) = pre @ err_msg e @ post"
  by (simp_all add: errors_new_def wrapf_def)

section \<open>Package strings\<close>

abbreviation nl :: char where "nl \<equiv> CHR 0x0A"

definition has_prefix :: "string \<Rightarrow> string \<Rightarrow> bool" where
  "has_prefix s p = (take (length p) s = p)"

definition has_suffix :: "string \<Rightarrow> string \<Rightarrow> bool" where
  "has_suffix s p = has_prefix (rev s) (rev p)"

text \<open>\<open>strings.Index\<close>: the first position where \<open>sub\<close> occurs, \<open>None\<close> for -1.\<close>

fun str_index :: "string \<Rightarrow> string \<Rightarrow> nat option" where
  "str_index [] sub = (if sub = [] then Some 0 else None)"
| "str_index (c # s) sub =
     (if has_prefix (c # s) sub then Some 0 else map_option Suc (str_index s sub))"

definition str_contains :: "string \<Rightarrow> string \<Rightarrow> bool" where
  "str_contains s sub = (str_index s sub \<noteq> None)"

text \<open>\<open>strings.Split\<close> for a one-byte separator; never returns an empty slice.\<close>

fun split_on :: "char \<Rightarrow> string \<Rightarrow> string list" where
  "split_on c [] = [[]]"
| "split_on c (x # xs) =
     (if x = c then [] # split_on c xs
      else (case split_on c xs of [] \<Rightarrow> [[x]] | y # ys \<Rightarrow> (x # y) # ys))"

fun str_join :: "string \<Rightarrow> string list \<Rightarrow> string" where
  "str_join sep [] = []"
| "str_join sep [x] = x"
| "str_join sep (x # y # ys) = x @ sep @ str_join sep (y # ys)"

text \<open>\<open>strings.TrimRight(s, "\n")\<close>.\<close>

definition trim_right_nl :: "string \<Rightarrow> string" where
  "trim_right_nl s = rev (dropWhile (\<lambda>c. c = nl) (rev s))"

text \<open>
  \<open>strings.TrimSpace\<close> removes leading and trailing characters with the Unicode
  property White\_Space. On bytes these are the one-byte ASCII blanks and the UTF-8
  encodings below; no other byte sequence decodes to a white-space rune.
\<close>

definition space_runes :: "string list" where
  "space_runes =
     [[CHR 0x09], [CHR 0x0A], [CHR 0x0B], [CHR 0x0C], [CHR 0x0D], [CHR 0x20],
      [CHR 0xC2, CHR 0x85], [CHR 0xC2, CHR 0xA0], [CHR 0xE1, CHR 0x9A, CHR 0x80],
      [CHR 0xE2, CHR 0x80, CHR 0x80], [CHR 0xE2, CHR 0x80, CHR 0x81],
      [CHR 0xE2, CHR 0x80, CHR 0x82], [CHR 0xE2, CHR 0x80, CHR 0x83],
      [CHR 0xE2, CHR 0x80, CHR 0x84], [CHR 0xE2, CHR 0x80, CHR 0x85],
      [CHR 0xE2, CHR 0x80, CHR 0x86], [CHR 0xE2, CHR 0x80, CHR 0x87],
      [CHR 0xE2, CHR 0x80, CHR 0x88], [CHR 0xE2, CHR 0x80, CHR 0x89],
      [CHR 0xE2, CHR 0x80, CHR 0x8A], [CHR 0xE2, CHR 0x80, CHR 0xA8],
      [CHR 0xE2, CHR 0x80, CHR 0xA9], [CHR 0xE2, CHR 0x80, CHR 0xAF],
      [CHR 0xE2, CHR 0x81, CHR 0x9F], [CHR 0xE3, CHR 0x80, CHR 0x80]]"

definition space_width :: "string list \<Rightarrow> string \<Rightarrow> nat" where
  "space_width rs s = (case List.find (has_prefix s) rs of None \<Rightarrow> 0 | Some r \<Rightarrow> length r)"

function trim_left_runes :: "string list \<Rightarrow> string \<Rightarrow> string" where
  "trim_left_runes rs s =
     (if 0 < space_width rs s \<and> s \<noteq> [] then trim_left_runes rs (drop (space_width rs s) s) else s)"
  by pat_completeness auto
termination
  by (relation "measure (\<lambda>(rs, s). length s)") auto

declare trim_left_runes.simps [simp del]

definition trim_space :: "string \<Rightarrow> string" where
  "trim_space s =
     rev (trim_left_runes (map rev space_runes) (rev (trim_left_runes space_runes s)))"

text \<open>\<open>strings.ToUpper\<close> and \<open>ToLower\<close> on ASCII, which country codes are.\<close>

definition char_upper :: "char \<Rightarrow> char" where
  "char_upper c = (let n = of_char c :: nat in
     if 97 \<le> n \<and> n \<le> 122 then char_of (n - 32) else c)"

definition char_lower :: "char \<Rightarrow> char" where
  "char_lower c = (let n = of_char c :: nat in
     if 65 \<le> n \<and> n \<le> 90 then char_of (n + 32) else c)"

definition str_upper :: "string \<Rightarrow> string" where "str_upper = map char_upper"

definition str_lower :: "string \<Rightarrow> string" where "str_lower = map char_lower"

section \<open>Packages strconv and fmt\<close>

definition digit_char :: "nat \<Rightarrow> char" where "digit_char d = char_of (48 + d)"

fun nat_str :: "nat \<Rightarrow> string" where
  "nat_str n = (if n < 10 then [digit_char n] else nat_str (n div 10) @ [digit_char (n mod 10)])"

declare nat_str.simps [simp del]

definition is_digit :: "char \<Rightarrow> bool" where
  "is_digit c = (CHR ''0'' \<le> c \<and> c \<le> CHR ''9'')"

definition digit_val :: "char \<Rightarrow> nat" where "digit_val c = of_char c - 48"

text \<open>\<open>%d\<close> of an \<open>int\<close>.\<close>

definition int_str :: "int \<Rightarrow> string" where
  "int_str i = (if i < 0 then CHR ''-'' # nat_str (nat (- i)) else nat_str (nat i))"

text \<open>\<open>%q\<close>, that is \<open>strconv.Quote\<close>, for byte strings: bytes outside printable ASCII are escaped.\<close>

definition hex_digit :: "nat \<Rightarrow> char" where
  "hex_digit d = (if d < 10 then char_of (48 + d) else char_of (87 + d))"

definition hex_val :: "char \<Rightarrow> nat option" where
  "hex_val c =
     (if is_digit c then Some (digit_val c)
      else if CHR ''a'' \<le> c \<and> c \<le> CHR ''f'' then Some (of_char c - 97 + 10)
      else if CHR ''A'' \<le> c \<and> c \<le> CHR ''F'' then Some (of_char c - 65 + 10)
      else None)"

definition quote_char :: "char \<Rightarrow> string" where
  "quote_char c = (let n = of_char c :: nat in
     if n = 0x22 \<or> n = 0x5C then [CHR 0x5C, c]
     else if 32 \<le> n \<and> n \<le> 126 then [c]
     else if n = 7 then [CHR 0x5C, CHR ''a''] else if n = 8 then [CHR 0x5C, CHR ''b'']
     else if n = 9 then [CHR 0x5C, CHR ''t''] else if n = 10 then [CHR 0x5C, CHR ''n'']
     else if n = 11 then [CHR 0x5C, CHR ''v''] else if n = 12 then [CHR 0x5C, CHR ''f'']
     else if n = 13 then [CHR 0x5C, CHR ''r'']
     else [CHR 0x5C, CHR ''x'', hex_digit (n div 16), hex_digit (n mod 16)])"

definition go_quote :: "string \<Rightarrow> string" where
  "go_quote s = CHR 0x22 # concat (map quote_char s) @ [CHR 0x22]"

section \<open>Lines of a text\<close>

lemma split_on_ne [simp]: "split_on c s \<noteq> []"
  by (induction s) (auto split: list.split)

lemma split_on_skip:
  "split_on c s = takeWhile (\<lambda>d. d \<noteq> c) s #
     (if c \<in> set s then split_on c (tl (dropWhile (\<lambda>d. d \<noteq> c) s)) else [])"
  by (induction s) (auto split: list.split)

lemma split_on_append: "nl \<notin> set l \<Longrightarrow> split_on nl (l @ nl # s) = l # split_on nl s"
  by (induction l) auto

lemma split_on_free: "nl \<notin> set l \<Longrightarrow> split_on nl l = [l]"
  by (induction l) auto

lemma split_on_lines:
  assumes "\<forall>l \<in> set ls. nl \<notin> set l"
  shows "split_on nl (concat (map (\<lambda>l. l @ [nl]) ls) @ s) = ls @ split_on nl s"
  using assms by (induction ls) (simp_all add: split_on_append)

lemma trim_right_nl_append: "s \<noteq> [] \<Longrightarrow> last s \<noteq> nl \<Longrightarrow> trim_right_nl (t @ s @ [nl]) = t @ s"
  by (cases s rule: rev_cases) (simp_all add: trim_right_nl_def)

text \<open>Lines printed with a newline each, the last newline trimmed, are these lines.\<close>

lemma split_on_trimmed:
  assumes "\<forall>l \<in> set ls. nl \<notin> set l" "ls \<noteq> []" "last ls \<noteq> []"
  shows "split_on nl (trim_right_nl (concat (map (\<lambda>l. l @ [nl]) ls))) = ls"
proof -
  obtain ks l where ls: "ls = ks @ [l]" using assms(2) by (cases ls rule: rev_cases) auto
  then have l: "l \<noteq> []" "nl \<notin> set l" using assms by auto
  then have "last l \<noteq> nl" using last_in_set by metis
  with l(1) have "trim_right_nl (concat (map (\<lambda>l. l @ [nl]) ls)) = concat (map (\<lambda>l. l @ [nl]) ks) @ l"
    using trim_right_nl_append [of l "concat (map (\<lambda>l. l @ [nl]) ks)"] unfolding ls by simp
  then show ?thesis
    using split_on_lines [of ks l] assms(1) l by (simp add: ls split_on_free)
qed

lemma split_on_join:
  assumes "\<forall>l \<in> set ls. nl \<notin> set l" "ls \<noteq> []"
  shows "split_on nl (str_join [nl] ls) = ls"
  using assms by (induction "[nl]" ls rule: str_join.induct) (simp_all add: split_on_append split_on_free)

section \<open>Decimal numbers\<close>

lemma is_digit_iff: "is_digit c \<longleftrightarrow> 48 \<le> (of_char c :: nat) \<and> (of_char c :: nat) \<le> 57"
  by (simp add: is_digit_def less_eq_char_def)

lemma digit_char_props:
  assumes "d < 10"
  shows "is_digit (digit_char d)" and "digit_val (digit_char d) = d"
  using assms by (simp_all add: is_digit_iff digit_val_def digit_char_def take_bit_nat_eq_self)

lemma nat_str_digits: "list_all is_digit (nat_str n)"
  by (induction n rule: nat_str.induct)
    (simp add: nat_str.simps digit_char_props)

lemma nat_str_nonempty [simp]: "nat_str n \<noteq> []"
  by (simp add: nat_str.simps [of n])

lemma is_digit_not:
  assumes "is_digit c"
  shows "c \<noteq> CHR ''.''" "c \<noteq> CHR '':''" "c \<noteq> CHR ''%''" "c \<noteq> CHR ''/''" "c \<noteq> CHR ''-''"
    "c \<noteq> CHR ''+''" "c \<noteq> CHR '' ''" "c \<noteq> nl" "c \<noteq> CHR 0x0D" "c \<noteq> CHR ''#''"
  using assms by (auto simp: is_digit_def)

lemma nat_str_digit: "d < 10 \<Longrightarrow> nat_str d = [digit_char d]"
  by (simp add: nat_str.simps)

lemma nat_str_step: "e < 10 \<Longrightarrow> m \<noteq> 0 \<Longrightarrow> nat_str (m * 10 + e) = nat_str m @ [digit_char e]"
  by (simp add: nat_str.simps [of "m * 10 + e"])

lemma last_nat_str: "is_digit (last (nat_str n))"
  using nat_str_digits [of n] by (simp add: list_all_iff)

lemma hex_val_digit: "d < 16 \<Longrightarrow> hex_val (hex_digit d) = Some d"
proof -
  assume d: "d < 16"
  show ?thesis
  proof (cases "d < 10")
    case True
    then have "hex_digit d = digit_char d" by (simp add: hex_digit_def digit_char_def)
    then show ?thesis using digit_char_props [OF True] by (simp add: hex_val_def)
  next
    case False
    then consider "d = 10" | "d = 11" | "d = 12" | "d = 13" | "d = 14" | "d = 15" using d by linarith
    then show ?thesis
      by cases (simp_all add: hex_digit_def hex_val_def is_digit_def less_eq_char_def bit_Suc_0_iff char_of_def)
  qed
qed

lemma hex_val_bound: "hex_val c = Some v \<Longrightarrow> v < 16"
  by (auto simp: hex_val_def is_digit_iff digit_val_def less_eq_char_def split: if_splits)

lemma length_nat_str: "n < 10 ^ Suc k \<Longrightarrow> length (nat_str n) \<le> Suc k"
proof (induction k arbitrary: n)
  case 0
  then show ?case by (simp add: nat_str_digit)
next
  case (Suc k)
  have "n div 10 < 10 ^ Suc k" using Suc.prems by auto
  then show ?case using Suc.IH [of "n div 10"] by (simp add: nat_str.simps [of n])
qed

section \<open>Durations\<close>

text \<open>The range of \<open>int\<close> and \<open>time.Duration\<close>.\<close>

definition int64 :: "int \<Rightarrow> bool" where "int64 i \<longleftrightarrow> - (2 ^ 63) \<le> i \<and> i < 2 ^ 63"

text \<open>
  \<open>time.Duration\<close> counts nanoseconds. \<open>String\<close> prints the largest unit first and
  drops the trailing zeros of the fraction; below a second it picks a smaller unit.
\<close>

definition pad_digits :: "nat \<Rightarrow> nat \<Rightarrow> string" where
  "pad_digits k n = (let s = nat_str n in replicate (k - length s) (CHR ''0'') @ s)"

definition frac_digits :: "nat \<Rightarrow> nat \<Rightarrow> string" where
  "frac_digits k v =
     (let ds = rev (dropWhile (\<lambda>c. c = CHR ''0'') (rev (pad_digits k (v mod 10 ^ k))))
      in if ds = [] then [] else CHR ''.'' # ds)"

definition duration_string :: "int \<Rightarrow> string" where
  "duration_string d =
     (let u = nat \<bar>d\<bar>;
          body =
            (if u = 0 then ''0s''
             else if u < 10 ^ 3 then nat_str u @ ''ns''
             else if u < 10 ^ 6 then nat_str (u div 10 ^ 3) @ frac_digits 3 u @ [CHR 0xC2, CHR 0xB5, CHR ''s'']
             else if u < 10 ^ 9 then nat_str (u div 10 ^ 6) @ frac_digits 6 u @ ''ms''
             else let s = u div 10 ^ 9; m = s div 60; h = m div 60;
                      secs = nat_str (s mod 60) @ frac_digits 9 u @ ''s''
                  in if m = 0 then secs
                     else if h = 0 then nat_str m @ ''m'' @ secs
                     else nat_str h @ ''h'' @ nat_str (m mod 60) @ ''m'' @ secs)
      in if d < 0 then CHR ''-'' # body else body)"

text \<open>\<open>Duration.Round\<close>: to the nearest multiple, halves away from zero.\<close>

definition duration_round :: "int \<Rightarrow> int \<Rightarrow> int" where
  "duration_round d m =
     (let r = \<bar>d\<bar> mod m;
          x = (if r + r < m then \<bar>d\<bar> - r else \<bar>d\<bar> - r + m)
      in if m \<le> 0 then d else if d < 0 then - x else x)"

section \<open>Limits the components share\<close>

definition limit_error_body :: nat where "limit_error_body = 4096"

end
