(* ===== verification/Netip.thy ===== *)
theory Netip
  imports Go_Prelude "HOL-Library.Word" "HOL-Library.List_Lexorder"
begin

text \<open>
  The part of Go's \<open>net/netip\<close> the program computes with: \<open>Addr\<close>, \<open>Prefix\<close> and
  their operations, in the representation of the standard library (a 128-bit value and a
  family tag, IPv4 stored as \<open>::ffff:a.b.c.d\<close>), and the address block a prefix covers.
  The second half moves every operation from words to natural numbers: \<open>Masked\<close>,
  \<open>Contains\<close> and the last address of a block become \<open>div\<close> and \<open>mod\<close> by a
  power of two, which is what the proofs about ranges and aggregation use.
\<close>

unbundle bit_operations_syntax

section \<open>Addresses and prefixes\<close>

text \<open>\<open>Addr.z\<close>: \<open>z0\<close> (the zero value), \<open>z4\<close>, or IPv6 with its zone (\<open>z6noz\<close> is the empty zone).\<close>

datatype family = Z0 | Z4 | Z6 (zone: string)

datatype addr = Addr (addr128: "128 word") (addrz: family)

text \<open>\<open>netip.Prefix\<close>: the address, not masked, and \<open>Bits()\<close>, which is -1 in an invalid prefix.\<close>

datatype nprefix = Prefix (paddr: addr) (pbits: int)

definition is4 :: "addr \<Rightarrow> bool" where "is4 a = (addrz a = Z4)"

definition is6 :: "addr \<Rightarrow> bool" where
  "is6 a = (case addrz a of Z6 _ \<Rightarrow> True | _ \<Rightarrow> False)"

definition is4in6 :: "addr \<Rightarrow> bool" where
  "is4in6 a = (is6 a \<and> drop_bit 32 (addr128 a) = 0xFFFF)"

definition addr_valid :: "addr \<Rightarrow> bool" where "addr_valid a = (addrz a \<noteq> Z0)"

definition has_zone :: "addr \<Rightarrow> bool" where
  "has_zone a = (case addrz a of Z6 z \<Rightarrow> z \<noteq> [] | _ \<Rightarrow> False)"

definition without_zone :: "addr \<Rightarrow> addr" where
  "without_zone a = (case addrz a of Z6 z \<Rightarrow> Addr (addr128 a) (Z6 []) | _ \<Rightarrow> a)"

definition bit_len :: "addr \<Rightarrow> nat" where
  "bit_len a = (case addrz a of Z0 \<Rightarrow> 0 | Z4 \<Rightarrow> 32 | Z6 _ \<Rightarrow> 128)"

definition addr_zero :: addr where "addr_zero = Addr 0 Z0"

definition addr_from4 :: "32 word \<Rightarrow> addr" where
  "addr_from4 w = Addr (0xFFFF00000000 OR ucast w) Z4"

text \<open>\<open>Addr.Unmap\<close>: an IPv4-mapped IPv6 address becomes an IPv4 address.\<close>

definition unmap :: "addr \<Rightarrow> addr" where
  "unmap a = (if is4in6 a then Addr (addr128 a) Z4 else a)"

text \<open>\<open>Addr.Compare\<close>: by family width, then by value, then by zone.\<close>

definition addr_compare :: "addr \<Rightarrow> addr \<Rightarrow> int" where
  "addr_compare a b =
     (if bit_len a < bit_len b then -1
      else if bit_len a > bit_len b then 1
      else if addr128 a < addr128 b then -1
      else if addr128 a > addr128 b then 1
      else if is6 a \<and> is6 b then
        (if zone (addrz a) < zone (addrz b) then -1
         else if zone (addrz a) > zone (addrz b) then 1 else 0)
      else 0)"

text \<open>\<open>Addr.Next\<close>: the zero \<open>Addr\<close> when there is no next address.\<close>

definition addr_next :: "addr \<Rightarrow> addr" where
  "addr_next a =
     (let w = addr128 a + 1 in
      if is4 a then (if take_bit 32 w = 0 then addr_zero else Addr w (addrz a))
      else if w = 0 then addr_zero else Addr w (addrz a))"

text \<open>\<open>mask6 n\<close>: the 128-bit value with the top \<open>n\<close> bits set.\<close>

definition mask6 :: "nat \<Rightarrow> 128 word" where
  "mask6 n = NOT (mask (128 - n))"

definition prefix_from :: "addr \<Rightarrow> int \<Rightarrow> nprefix" where
  "prefix_from a b =
     (if addr_valid a \<and> 0 \<le> b \<and> b \<le> int (bit_len a) then Prefix (without_zone a) b
      else Prefix (without_zone a) (-1))"

definition prefix_zero :: nprefix where "prefix_zero = Prefix addr_zero (-1)"

text \<open>The prefix length counted in the 128-bit value: 96 more for IPv4.\<close>

definition eff_bits :: "nprefix \<Rightarrow> nat" where
  "eff_bits p = nat (pbits p) + (if is4 (paddr p) then 96 else 0)"

definition masked :: "nprefix \<Rightarrow> nprefix" where
  "masked p =
     (if pbits p < 0 \<or> \<not> addr_valid (paddr p) \<or> int (bit_len (paddr p)) < pbits p then prefix_zero
      else prefix_from (Addr (addr128 (paddr p) AND mask6 (eff_bits p)) (addrz (paddr p))) (pbits p))"

definition prefix_valid :: "nprefix \<Rightarrow> bool" where "prefix_valid p = (0 \<le> pbits p)"

text \<open>
  \<open>Prefix.Contains\<close>: for IPv4 the difference is shifted and truncated to 32 bits, for
  IPv6 it is masked.
\<close>

definition contains :: "nprefix \<Rightarrow> addr \<Rightarrow> bool" where
  "contains p a =
     (if \<not> prefix_valid p \<or> has_zone a then False
      else if bit_len (paddr p) = 0 \<or> bit_len a = 0 \<or> bit_len (paddr p) \<noteq> bit_len a then False
      else if is4 a then
        take_bit 32 (drop_bit (nat (32 - pbits p)) (addr128 a XOR addr128 (paddr p))) = 0
      else (addr128 a XOR addr128 (paddr p)) AND mask6 (nat (pbits p)) = 0)"

section \<open>Well-formed values\<close>

text \<open>
  What every \<open>Addr\<close> and \<open>Prefix\<close> built by the package satisfies: an IPv4 value lies in
  \<open>::ffff:0:0/96\<close>, the zero \<open>Addr\<close> is all zero, a prefix has no zone and its length fits
  its family. \<open>canonical\<close> prefixes are valid and masked, which is all the program keeps.
\<close>

definition addr_wf :: "addr \<Rightarrow> bool" where
  "addr_wf a = (case addrz a of Z0 \<Rightarrow> addr128 a = 0 | Z4 \<Rightarrow> drop_bit 32 (addr128 a) = 0xFFFF | Z6 _ \<Rightarrow> True)"

definition prefix_wf :: "nprefix \<Rightarrow> bool" where
  "prefix_wf p = (addr_wf (paddr p) \<and> addr_valid (paddr p) \<and> \<not> has_zone (paddr p)
     \<and> 0 \<le> pbits p \<and> pbits p \<le> int (bit_len (paddr p)))"

definition canonical :: "nprefix \<Rightarrow> bool" where
  "canonical p = (prefix_wf p \<and> masked p = p)"

text \<open>The addresses a prefix covers.\<close>

definition block :: "nprefix \<Rightarrow> addr set" where
  "block p = {a. addr_wf a \<and> contains p a}"

definition covered :: "nprefix list \<Rightarrow> addr set" where
  "covered ps = (\<Union>p \<in> set ps. block p)"

section \<open>From words to natural numbers\<close>

text \<open>
  Clearing or setting the low \<open>k\<close> bits of a word, and comparing words after shifting
  them out, is division by \<open>2 ^ k\<close> on the numbers they stand for.
\<close>

lemma unat_and_not_mask: "unat (w AND NOT (mask k) :: 'a::len word) = unat w div 2 ^ k * 2 ^ k"
proof -
  have "unat (w AND NOT (mask k)) = push_bit k (drop_bit k (unat w))"
    by (rule bit_eqI) (auto simp: bit_simps dest: bit_imp_le_length)
  then show ?thesis by (simp add: push_bit_eq_mult drop_bit_eq_div)
qed

lemma xor_eq_0: "((v::'a::len word) XOR w = 0) = (v = w)"
  by (auto simp: bit_eq_iff bit_simps)

lemma and_not_mask_eq_0: "((w::'a::len word) AND NOT (mask k) = 0) = (drop_bit k w = 0)"
proof -
  have "w AND NOT (mask k) = push_bit k (drop_bit k w)"
    by (rule bit_word_eqI) (auto simp: bit_simps)
  moreover have "drop_bit k w = drop_bit k (w AND NOT (mask k))"
    by (rule bit_word_eqI) (auto simp: bit_simps dest: bit_imp_le_length)
  ultimately show ?thesis by (metis drop_bit_of_0 push_bit_of_0)
qed

lemma unat_drop: "unat (drop_bit k (w::'a::len word)) = unat w div 2 ^ k"
  by (simp only: unat_drop_bit_eq drop_bit_eq_div [where 'a = nat])

lemma drop_bit_eq_iff_div:
  "drop_bit k (v::'a::len word) = drop_bit k w \<longleftrightarrow> unat v div 2 ^ k = unat w div 2 ^ k"
  by (simp only: word_unat_eq_iff unat_drop)
lemma xor_masked: "((v::'a::len word) XOR w) AND NOT (mask k) = 0 \<longleftrightarrow> unat v div 2 ^ k = unat w div 2 ^ k"
  by (simp only: and_not_mask_eq_0 drop_bit_xor xor_eq_0 drop_bit_eq_iff_div)

lemma unat_or_mask: "unat (w OR mask k :: 'a::len word) = unat w div 2 ^ k * 2 ^ k + 2 ^ k - 1" if "k \<le> LENGTH('a)"
proof -
  have "w OR mask k = (w AND NOT (mask k)) OR mask k" by (auto simp: bit_eq_iff bit_simps)
  have "unat (w OR mask k) = push_bit k (drop_bit k (unat w)) OR mask k"
    using that by (intro bit_eqI) (auto simp: bit_simps dest: bit_imp_le_length)
  also have "\<dots> = push_bit k (drop_bit k (unat w)) + mask k"
    by (rule disjunctive_add [symmetric])  (auto simp: bit_eq_iff bit_simps)
  finally show ?thesis by (simp add: push_bit_eq_mult drop_bit_eq_div mask_eq_exp_minus_1)
qed

lemma v4_split: "drop_bit 32 (w::128 word) = 0xFFFF \<longleftrightarrow> unat w div 2^32 = 0xFFFF"
proof -
  have "drop_bit 32 w = 0xFFFF \<longleftrightarrow> unat (drop_bit 32 w) = unat (0xFFFF::128 word)"
    by (rule word_unat_eq_iff)
  also have "unat (drop_bit 32 w) = unat w div 2^32" by (rule unat_drop)
  finally show ?thesis by simp
qed

lemma v4_contains:
  assumes "drop_bit 32 (v::128 word) = 0xFFFF" "drop_bit 32 (w::128 word) = 0xFFFF" "k \<le> 32"
  shows "take_bit 32 (drop_bit k (v XOR w)) = 0 \<longleftrightarrow> unat v div 2 ^ k = unat w div 2 ^ k"
proof -
  have z: "drop_bit 32 (v XOR w) = 0" using assms by (simp only: drop_bit_xor xor_self_eq)
  have high: "\<not> bit (v XOR w) n" if "32 \<le> n" for n
  proof -
    have "bit (v XOR w) n = bit (drop_bit 32 (v XOR w)) (n - 32)"
      using that by (simp only: bit_drop_bit_eq comp_apply le_add_diff_inverse)
    then show ?thesis by (simp only: z bit_0_eq bot_apply bot_bool_def simp_thms)
  qed
  have "take_bit 32 (drop_bit k (v XOR w)) = drop_bit k (v XOR w)"
  proof (rule bit_eqI)
    fix n
    show "bit (take_bit 32 (drop_bit k (v XOR w))) n = bit (drop_bit k (v XOR w)) n"
      using high [of "k + n"] assms(3)
      by (cases "n < 32") (simp_all only: bit_take_bit_iff bit_drop_bit_eq comp_apply, auto)
  qed
  then show ?thesis
    by (simp only: drop_bit_xor xor_eq_0 drop_bit_eq_iff_div)
qed

end
