(* ===== verification/Blocks.thy ===== *)
theory Blocks
  imports Netip
begin

text \<open>
  The address block of a prefix as an aligned interval of natural numbers, and the laws of
  such blocks. A canonical prefix covers the addresses of its family whose value shares the
  quotient by \<open>2 ^ host\<close>. The locale \<open>cidr_space\<close> is the interface the aggregation
  and range proofs rely on: blocks are nested or disjoint, a block is the union of its two
  halves, and one address is a block. Inside it, a list of pairwise disjoint blocks with no
  two halves of one block is shown to be maximal, of minimal length, and unique for the set
  of addresses it covers.
\<close>

section \<open>Prefixes as numbers\<close>

definition aval :: "addr \<Rightarrow> nat" where "aval a = unat (addr128 a)"

definition host :: "nprefix \<Rightarrow> nat" where "host p = 128 - eff_bits p"

definition mk_addr :: "family \<Rightarrow> nat \<Rightarrow> addr" where "mk_addr z n = Addr (of_nat n) z"

lemma aval_less: "aval a < 2 ^ 128"
  using unsigned_less [of "addr128 a"] by (simp add: aval_def)

lemma addr_eq_iff: "a = b \<longleftrightarrow> addrz a = addrz b \<and> aval a = aval b"
  by (cases a; cases b) (auto simp: aval_def word_unat_eq_iff)

lemma aval_mk_addr: "n < 2 ^ 128 \<Longrightarrow> aval (mk_addr z n) = n"
  by (simp add: aval_def mk_addr_def unat_of_nat)

lemma addrz_mk_addr [simp]: "addrz (mk_addr z n) = z"
  by (simp add: mk_addr_def)

lemma addr_wf_iff:
  "addr_wf a \<longleftrightarrow> (case addrz a of Z0 \<Rightarrow> aval a = 0 | Z4 \<Rightarrow> aval a div 2 ^ 32 = 0xFFFF | Z6 _ \<Rightarrow> True)"
  by (simp only: addr_wf_def aval_def v4_split unat_eq_zero split: family.split)

lemma prefix_wf_family:
  assumes "prefix_wf p"
  shows "addrz (paddr p) = Z4 \<or> addrz (paddr p) = Z6 []"
  using assms by (cases "addrz (paddr p)") (auto simp: prefix_wf_def addr_valid_def has_zone_def)

lemma prefix_wf_hostD:
  assumes "prefix_wf p"
  shows "int (host p) = int (bit_len (paddr p)) - pbits p" and "host p \<le> 128"
    and "is4 (paddr p) \<Longrightarrow> host p \<le> 32"
  using assms prefix_wf_family [OF assms]
  by (auto simp: prefix_wf_def host_def eff_bits_def is4_def bit_len_def)

lemma eff_bits_host: "prefix_wf p \<Longrightarrow> 128 - eff_bits p = host p"
  by (simp add: host_def)

lemma without_zone_id [simp]: "\<not> has_zone a \<Longrightarrow> without_zone a = a"
  by (cases a; cases "addrz a") (auto simp: without_zone_def has_zone_def)

lemma masked_eq:
  assumes "prefix_wf p"
  shows "masked p =
    Prefix (Addr (addr128 (paddr p) AND NOT (mask (host p))) (addrz (paddr p))) (pbits p)"
proof -
  let ?a = "Addr (addr128 (paddr p) AND NOT (mask (host p))) (addrz (paddr p))"
  have "\<not> has_zone ?a" "addr_valid ?a" "bit_len ?a = bit_len (paddr p)"
    using assms by (auto simp: prefix_wf_def has_zone_def addr_valid_def bit_len_def)
  then show ?thesis
    using assms by (simp add: masked_def prefix_from_def prefix_wf_def mask6_def host_def)
qed

lemma paddr_masked:
  assumes "prefix_wf p"
  shows "aval (paddr (masked p)) = aval (paddr p) div 2 ^ host p * 2 ^ host p"
    and "addrz (paddr (masked p)) = addrz (paddr p)" and "pbits (masked p) = pbits p"
    and "host (masked p) = host p"
  by (simp_all add: masked_eq [OF assms] aval_def unat_and_not_mask host_def eff_bits_def is4_def)

lemma v4_div:
  assumes "k \<le> 32"
  shows "(n::nat) div 2 ^ k * 2 ^ k div 4294967296 = n div 4294967296"
proof -
  have "(4294967296::nat) = 2 ^ (k + (32 - k))" using assms by simp
  then have e: "(4294967296::nat) = 2 ^ k * 2 ^ (32 - k)" by (simp only: power_add)
  show ?thesis unfolding e by (simp add: div_mult2_eq)
qed

lemma masked_wf:
  assumes "prefix_wf p"
  shows "prefix_wf (masked p)"
proof -
  have "addr_wf (paddr (masked p))"
    using prefix_wf_family [OF assms] assms prefix_wf_hostD(3) [OF assms]
    by (auto simp: addr_wf_iff paddr_masked prefix_wf_def is4_def v4_div split: family.splits)
  then show ?thesis
    using assms by (simp add: prefix_wf_def paddr_masked addr_valid_def has_zone_def bit_len_def)
qed

lemma canonical_iff:
  "canonical p \<longleftrightarrow> prefix_wf p \<and> aval (paddr p) mod 2 ^ host p = 0"
proof -
  have "masked p = p \<longleftrightarrow> aval (paddr p) mod 2 ^ host p = 0" if "prefix_wf p"
  proof -
    have "masked p = p \<longleftrightarrow> aval (paddr (masked p)) = aval (paddr p)"
      using paddr_masked [OF that] 
      by (metis addr_eq_iff nprefix.exhaust_sel)
    also have "\<dots> \<longleftrightarrow> aval (paddr p) mod 2 ^ host p = 0"
      unfolding paddr_masked(1) [OF that] by (metis add_cancel_right_right div_mult_mod_eq)
    finally show ?thesis .
  qed
  then show ?thesis by (auto simp: canonical_def)
qed

lemma canonical_masked: "prefix_wf p \<Longrightarrow> canonical (masked p)"
  by (simp add: canonical_iff masked_wf paddr_masked)

lemma canonical_eqI:
  assumes "canonical p" "canonical q" "addrz (paddr p) = addrz (paddr q)" "host p = host q"
    "aval (paddr p) = aval (paddr q)"
  shows "p = q"
proof -
  have a: "paddr p = paddr q" using assms by (simp add: addr_eq_iff)
  have "pbits p = pbits q"
    using assms prefix_wf_hostD(1) [of p] prefix_wf_hostD(1) [of q] a by (simp add: canonical_def)
  with a show ?thesis by (cases p; cases q) simp
qed

section \<open>Blocks as aligned intervals\<close>

lemma block_iff:
  assumes "prefix_wf p"
  shows "a \<in> block p \<longleftrightarrow> addr_wf a \<and> addrz a = addrz (paddr p)
    \<and> aval a div 2 ^ host p = aval (paddr p) div 2 ^ host p"
proof (cases "addrz a = addrz (paddr p) \<and> addr_wf a")
  case True
  have wf: "addr_wf (paddr p)" "\<not> has_zone a" "bit_len a = bit_len (paddr p)" "0 \<le> pbits p"
    using assms True by (auto simp: prefix_wf_def has_zone_def bit_len_def)
  show ?thesis
  proof (cases "is4 a")
    case v4: True
    have "nat (32 - pbits p) = host p" "host p \<le> 32"
      using assms True v4 prefix_wf_hostD [OF assms] by (auto simp: is4_def bit_len_def)
    moreover have "drop_bit 32 (addr128 a) = 0xFFFF" "drop_bit 32 (addr128 (paddr p)) = 0xFFFF"
      using True v4 wf by (auto simp: addr_wf_def is4_def)
    ultimately show ?thesis
      using True wf v4 assms
      by (simp add: block_def contains_def prefix_valid_def v4_contains aval_def is4_def
          bit_len_def del: take_bit_xor drop_bit_xor)
  next
    case False
    then have "addrz (paddr p) = Z6 []" using prefix_wf_family [OF assms] True by (auto simp: is4_def)
    then show ?thesis
      using True wf assms
      by (simp add: block_def contains_def prefix_valid_def is4_def bit_len_def mask6_def host_def
          eff_bits_def aval_def xor_masked)
  qed
next
  case False
  have "bit_len a \<noteq> bit_len (paddr p) \<or> has_zone a" if "addrz a \<noteq> addrz (paddr p)"
    using that prefix_wf_family [OF assms]
    by (cases "addrz a") (auto simp: bit_len_def has_zone_def)
  then show ?thesis using False by (auto simp: block_def contains_def)
qed

lemma block_masked: "prefix_wf p \<Longrightarrow> block (masked p) = block p"
  by (auto simp: block_iff masked_wf paddr_masked)

lemma paddr_in_block: "prefix_wf p \<Longrightarrow> paddr p \<in> block p"
  by (simp add: block_iff prefix_wf_def)

lemma div_eq_interval: "(n::nat) div d = m div d \<longleftrightarrow> m div d * d \<le> n \<and> n < m div d * d + d" if "0 < d"
  using that by (metis add.commute div_nat_eqI dividend_less_div_times mult.commute mult_Suc times_div_less_eq_dividend)

lemma block_interval:
  assumes "canonical p"
  shows "a \<in> block p \<longleftrightarrow> addr_wf a \<and> addrz a = addrz (paddr p)
    \<and> aval (paddr p) \<le> aval a \<and> aval a < aval (paddr p) + 2 ^ host p"
proof -
  have "aval (paddr p) div 2 ^ host p * 2 ^ host p = aval (paddr p)"
    using assms by (metis canonical_iff add_0_right div_mult_mod_eq)
  then show ?thesis
    using assms div_eq_interval [of "2 ^ host p" "aval a" "aval (paddr p)"]
    by (simp add: block_iff canonical_iff)
qed

lemma coarser_div: "h \<le> k \<Longrightarrow> (n::nat) div 2 ^ k = n div 2 ^ h div 2 ^ (k - h)"
  by (simp add: div_mult2_eq [symmetric] flip: power_add)

lemma aligned_top:
  assumes "(a::nat) mod 2 ^ h = 0" "a < 2 ^ n" "h \<le> n"
  shows "a + 2 ^ h \<le> 2 ^ n"
proof -
  obtain k where k: "a = 2 ^ h * k" using assms(1) by auto
  have e: "(2::nat) ^ n = 2 ^ h * 2 ^ (n - h)" using assms(3) by (simp flip: power_add)
  have "k < 2 ^ (n - h)" using assms(2) k e by simp
  then have "2 ^ h * Suc k \<le> 2 ^ h * 2 ^ (n - h)" by (intro mult_le_mono2) simp
  then show ?thesis using k e by simp
qed

lemma block_subset:
  assumes "prefix_wf p" "prefix_wf q" "x \<in> block p" "x \<in> block q" "host p \<le> host q"
  shows "block p \<subseteq> block q"
proof
  fix y assume "y \<in> block p"
  then show "y \<in> block q"
    using assms by (simp add: block_iff coarser_div [OF assms(5)])
qed

lemma canonical_top: "canonical p \<Longrightarrow> aval (paddr p) + 2 ^ host p \<le> 2 ^ 128"
  by (rule aligned_top [OF _ aval_less]) (auto simp: canonical_iff prefix_wf_hostD)

lemma mk_addr_in_block:
  assumes "canonical p" "aval (paddr p) \<le> n" "n < aval (paddr p) + 2 ^ host p"
  shows "mk_addr (addrz (paddr p)) n \<in> block p" and "aval (mk_addr (addrz (paddr p)) n) = n"
proof -
  have wf: "prefix_wf p" using assms by (simp add: canonical_def)
  have n: "n < 2 ^ 128" using assms canonical_top by fastforce
  show v: "aval (mk_addr (addrz (paddr p)) n) = n" using n by (rule aval_mk_addr)
  have "addr_wf (mk_addr (addrz (paddr p)) n)"
  proof (cases "addrz (paddr p) = Z4")
    case True
    then have h: "host p \<le> 32" using prefix_wf_hostD(3) [OF wf] by (simp add: is4_def)
    have "n div 2 ^ host p = aval (paddr p) div 2 ^ host p"
      using assms div_eq_interval [of "2 ^ host p" n "aval (paddr p)"]
      by (metis canonical_iff add_0_right div_mult_mod_eq zero_less_numeral zero_less_power)
    then have "n div 2 ^ 32 = aval (paddr p) div 2 ^ 32"
      by (simp only: coarser_div [OF h])
    then show ?thesis using wf True v by (simp add: addr_wf_iff prefix_wf_def)
  next
    case False
    then show ?thesis using prefix_wf_family [OF wf] by (simp add: addr_wf_iff)
  qed
  then show "mk_addr (addrz (paddr p)) n \<in> block p"
    using assms v by (simp add: block_interval)
qed

lemma block_subsetD:
  assumes "canonical p" "canonical q" "block p \<subseteq> block q"
  shows "addrz (paddr p) = addrz (paddr q)" and "aval (paddr q) \<le> aval (paddr p)"
    and "aval (paddr p) + 2 ^ host p \<le> aval (paddr q) + 2 ^ host q" and "host p \<le> host q"
proof -
  let ?last = "mk_addr (addrz (paddr p)) (aval (paddr p) + 2 ^ host p - 1)"
  have pos: "0 < (2::nat) ^ host p" by simp
  have "?last \<in> block p" "aval ?last = aval (paddr p) + 2 ^ host p - 1"
    using mk_addr_in_block [OF assms(1), of "aval (paddr p) + 2 ^ host p - 1"] pos by linarith+
  moreover have "paddr p \<in> block q"
    using assms paddr_in_block by (auto simp: canonical_def)
  ultimately have "paddr p \<in> block q" "?last \<in> block q"
    and l: "aval ?last = aval (paddr p) + 2 ^ host p - 1" using assms(3) by blast+
  then have "addrz (paddr p) = addrz (paddr q)" "aval (paddr q) \<le> aval (paddr p)"
    "aval (paddr p) + 2 ^ host p - 1 < aval (paddr q) + 2 ^ host q"
    using assms(2) by (auto simp only: block_interval)
  then show fam: "addrz (paddr p) = addrz (paddr q)" and lo: "aval (paddr q) \<le> aval (paddr p)"
    and hi: "aval (paddr p) + 2 ^ host p \<le> aval (paddr q) + 2 ^ host q"
    using pos by linarith+
  have "(2::nat) ^ host p \<le> 2 ^ host q" using lo hi by linarith
  then show "host p \<le> host q" by simp
qed

lemma block_inj:
  assumes "canonical p" "canonical q" "block p = block q"
  shows "p = q"
  using block_subsetD [OF assms(1,2)] block_subsetD [OF assms(2,1)] assms
  by (intro canonical_eqI) auto

lemma block_single:
  assumes "canonical p" "host p = 0"
  shows "block p = {paddr p}"
  using assms by (auto simp: block_interval addr_eq_iff canonical_def prefix_wf_def)

text \<open>The two halves of a block.\<close>

definition half :: "nprefix \<Rightarrow> nat \<Rightarrow> nprefix" where
  "half p k = Prefix (mk_addr (addrz (paddr p)) (aval (paddr p) + k * 2 ^ (host p - 1))) (pbits p + 1)"

lemma half_canonical:
  assumes "canonical p" "0 < host p" "k < 2"
  shows "canonical (half p k)" and "Suc (host (half p k)) = host p"
    and "addrz (paddr (half p k)) = addrz (paddr p)" and "pbits (half p k) = pbits p + 1"
    and "aval (paddr (half p k)) = aval (paddr p) + k * 2 ^ (host p - 1)"
proof -
  have wf: "prefix_wf p" using assms by (simp add: canonical_def)
  have e: "(2::nat) ^ host p = 2 * 2 ^ (host p - 1)" using assms(2) by (cases "host p") auto
  have lt: "k * 2 ^ (host p - 1) < 2 ^ host p" using assms(3) unfolding e by simp
  note m = mk_addr_in_block [OF assms(1) _ add_strict_left_mono [OF lt], simplified]
  show z: "addrz (paddr (half p k)) = addrz (paddr p)" and b: "pbits (half p k) = pbits p + 1"
    by (simp_all add: half_def)
  show v: "aval (paddr (half p k)) = aval (paddr p) + k * 2 ^ (host p - 1)"
    using m by (simp add: half_def)
  have bl: "bit_len (paddr (half p k)) = bit_len (paddr p)" "is4 (paddr (half p k)) = is4 (paddr p)"
    by (simp_all add: bit_len_def is4_def z)
  show h: "Suc (host (half p k)) = host p"
    using wf assms(2) by (auto simp: host_def eff_bits_def bl b prefix_wf_def)
  have "addr_wf (paddr (half p k))" using m by (simp add: half_def block_def)
  moreover have "pbits p < int (bit_len (paddr p))"
    using prefix_wf_hostD(1) [OF wf] assms(2) by linarith
  ultimately have "prefix_wf (half p k)"
    using wf z b bl by (simp add: prefix_wf_def addr_valid_def has_zone_def)
  moreover have "aval (paddr p) mod 2 ^ (host p - 1) = 0"
    using assms(1) unfolding canonical_iff e by auto
  moreover have "host (half p k) = host p - 1" using h by simp
  ultimately show "canonical (half p k)"
    using v by (simp add: canonical_iff mod_eq_0_iff_dvd)
qed

lemma block_halves:
  assumes "canonical p" "0 < host p"
  shows "block p = block (half p 0) \<union> block (half p 1)"
proof -
  have e: "(2::nat) ^ host p = 2 ^ (host p - 1) + 2 ^ (host p - 1)"
    using assms(2) by (cases "host p") auto
  have h: "host (half p k) = host p - 1" if "k < 2" for k
    using half_canonical(2) [OF assms that] by simp
  show ?thesis
    using assms half_canonical [OF assms] by (auto simp: block_interval h e)
qed

section \<open>Reduced covers\<close>

text \<open>
  A reduced cover: valid, pairwise disjoint blocks, none listed twice, no two of which are
  the halves of one block.
\<close>

definition pairwise_disjoint :: "('p \<Rightarrow> 'a set) \<Rightarrow> 'p list \<Rightarrow> bool" where
  "pairwise_disjoint blk ps = (distinct ps \<and>
     (\<forall>p \<in> set ps. \<forall>q \<in> set ps. p \<noteq> q \<longrightarrow> blk p \<inter> blk q = {}))"

definition reduced :: "('p \<Rightarrow> bool) \<Rightarrow> ('p \<Rightarrow> 'a set) \<Rightarrow> ('p \<Rightarrow> 'p \<Rightarrow> bool) \<Rightarrow> 'p list \<Rightarrow> bool" where
  "reduced ok blk sib ps =
     ((\<forall>p \<in> set ps. ok p) \<and> pairwise_disjoint blk ps \<and>
      (\<forall>p \<in> set ps. \<forall>q \<in> set ps. p \<noteq> q \<longrightarrow> \<not> sib p q))"

lemma reducedD:
  assumes "reduced ok blk sib ps" "p \<in> set ps"
  shows "ok p" and "q \<in> set ps \<Longrightarrow> blk p \<inter> blk q \<noteq> {} \<Longrightarrow> q = p"
    and "q \<in> set ps \<Longrightarrow> q \<noteq> p \<Longrightarrow> \<not> sib p q"
proof -
  show "ok p" using assms by (simp add: reduced_def)
  show "q \<in> set ps \<Longrightarrow> blk p \<inter> blk q \<noteq> {} \<Longrightarrow> q = p"
    using assms unfolding reduced_def pairwise_disjoint_def by blast
  show "q \<in> set ps \<Longrightarrow> q \<noteq> p \<Longrightarrow> \<not> sib p q"
    using assms by (auto simp: reduced_def)
qed

text \<open>
  The interface of address blocks: \<open>hgt\<close> is the number of host bits, \<open>sib\<close> the
  test that two prefixes are the halves of one block.
\<close>

locale cidr_space =
  fixes ok :: "'p \<Rightarrow> bool" and blk :: "'p \<Rightarrow> 'a set" and sib :: "'p \<Rightarrow> 'p \<Rightarrow> bool" and hgt :: "'p \<Rightarrow> nat"
  assumes blk_nonempty: "ok p \<Longrightarrow> blk p \<noteq> {}"
    and blk_nested: "ok p \<Longrightarrow> ok q \<Longrightarrow> blk p \<inter> blk q \<noteq> {} \<Longrightarrow> hgt p \<le> hgt q \<Longrightarrow> blk p \<subseteq> blk q"
    and blk_inj: "ok p \<Longrightarrow> ok q \<Longrightarrow> blk p = blk q \<Longrightarrow> p = q"
    and blk_halves: "ok p \<Longrightarrow> 0 < hgt p \<Longrightarrow>
      \<exists>l r. ok l \<and> ok r \<and> Suc (hgt l) = hgt p \<and> Suc (hgt r) = hgt p \<and> l \<noteq> r \<and> sib l r
        \<and> blk p = blk l \<union> blk r"
    and blk_single: "ok p \<Longrightarrow> hgt p = 0 \<Longrightarrow> \<exists>a. blk p = {a}"
begin

lemma above_half:
  assumes "ok p" "ok l" "ok q" "Suc (hgt l) = hgt p" "blk l \<subseteq> blk p" "blk l \<subseteq> blk q"
  shows "q = l \<or> blk p \<subseteq> blk q"
proof (cases "hgt q \<le> hgt l")
  case True
  have "blk q \<inter> blk l \<noteq> {}" using assms blk_nonempty by blast
  then have "blk q \<subseteq> blk l" using assms True blk_nested by blast
  then have "q = l" using assms blk_inj by blast
  then show ?thesis ..
next
  case False
  then have "hgt p \<le> hgt q" using assms(4) by simp
  moreover have "blk p \<inter> blk q \<noteq> {}" using assms blk_nonempty by blast
  ultimately show ?thesis using assms blk_nested by blast
qed

theorem reduced_maximal:
  assumes red: "reduced ok blk sib ps"
  shows "ok q \<Longrightarrow> blk q \<subseteq> (\<Union>p \<in> set ps. blk p) \<Longrightarrow> \<exists>p \<in> set ps. blk q \<subseteq> blk p"
proof (induction "hgt q" arbitrary: q)
  case 0
  then obtain a where "blk q = {a}" using blk_single by fastforce
  then show ?case using 0 by auto
next
  case (Suc n)
  then obtain l r where lr: "ok l" "ok r" "Suc (hgt l) = hgt q" "Suc (hgt r) = hgt q" "l \<noteq> r"
    "sib l r" "blk q = blk l \<union> blk r"
    using blk_halves [of q] by auto
  have "\<exists>p \<in> set ps. blk l \<subseteq> blk p" "\<exists>p \<in> set ps. blk r \<subseteq> blk p"
    using Suc lr by (auto intro!: Suc.hyps(1))
  then obtain pl pr where p: "pl \<in> set ps" "blk l \<subseteq> blk pl" "pr \<in> set ps" "blk r \<subseteq> blk pr"
    by blast
  then have ok: "ok pl" "ok pr" using red by (auto simp: reduced_def)
  have "pl = l \<or> blk q \<subseteq> blk pl" "pr = r \<or> blk q \<subseteq> blk pr"
    using above_half [OF \<open>ok q\<close>] lr p ok by auto
  moreover have "\<not> (pl = l \<and> pr = r)" using red lr p by (auto simp: reduced_def)
  ultimately show ?case using p by blast
qed

theorem reduced_unique:
  assumes "reduced ok blk sib ps" "reduced ok blk sib qs"
    and same: "(\<Union>p \<in> set ps. blk p) = (\<Union>q \<in> set qs. blk q)"
  shows "set ps = set qs"
proof -
  have sub: "set xs \<subseteq> set ys"
    if x: "reduced ok blk sib xs" and y: "reduced ok blk sib ys"
      and eq: "(\<Union>p \<in> set xs. blk p) = (\<Union>p \<in> set ys. blk p)" for xs ys
  proof
    fix p assume p: "p \<in> set xs"
    then have "ok p" using x by (simp add: reduced_def)
    moreover have "blk p \<subseteq> (\<Union>q \<in> set ys. blk q)" using p eq by blast
    ultimately obtain q where q: "q \<in> set ys" "blk p \<subseteq> blk q"
      using reduced_maximal [OF y] by blast
    have "ok q" using q y by (simp add: reduced_def)
    have "blk q \<subseteq> (\<Union>p \<in> set xs. blk p)" using q eq by blast
    then obtain p' where p': "p' \<in> set xs" "blk q \<subseteq> blk p'"
      using reduced_maximal [OF x \<open>ok q\<close>] by blast
    have "blk p \<inter> blk p' \<noteq> {}" using q p' blk_nonempty [OF \<open>ok p\<close>] by blast
    then have "p' = p" using p' by (intro reducedD(2) [OF x p])
    then have "blk p = blk q" using q p' by blast
    then have "p = q" using \<open>ok p\<close> \<open>ok q\<close> by (intro blk_inj)
    then show "p \<in> set ys" using q by simp
  qed
  show ?thesis using assms same by (intro equalityI sub) simp_all
qed

theorem reduced_minimal:
  assumes red: "reduced ok blk sib ps" and qs: "\<forall>q \<in> set qs. ok q"
    and same: "(\<Union>p \<in> set ps. blk p) = (\<Union>q \<in> set qs. blk q)"
  shows "length ps \<le> length qs"
proof -
  define f where "f q = (SOME p. p \<in> set ps \<and> blk q \<subseteq> blk p)" for q
  have f: "f q \<in> set ps \<and> blk q \<subseteq> blk (f q)" if "q \<in> set qs" for q
  proof -
    have "\<exists>p \<in> set ps. blk q \<subseteq> blk p"
      using that qs same by (intro reduced_maximal [OF red]) blast+
    then show ?thesis unfolding f_def by (rule someI2_bex) auto
  qed
  have "set ps \<subseteq> f ` set qs"
  proof
    fix p assume p: "p \<in> set ps"
    then have "ok p" using red by (simp add: reduced_def)
    then obtain a where a: "a \<in> blk p" using blk_nonempty by blast
    then obtain q where q: "q \<in> set qs" "a \<in> blk q" using p same by blast
    then have "a \<in> blk (f q)" "f q \<in> set ps" using f by auto
    then have "f q = p" using a by (intro reducedD(2) [OF red p]) blast+
    then show "p \<in> f ` set qs" using q by blast
  qed
  then have "card (set ps) \<le> card (f ` set qs)" by (intro card_mono) auto
  also have "\<dots> \<le> card (set qs)" by (rule card_image_le) simp
  also have "\<dots> \<le> length qs" by (rule card_length)
  finally show ?thesis using red by (simp add: reduced_def pairwise_disjoint_def distinct_card)
qed

end
end
