(* ===== verification/Aggregate.thy ===== *)
theory Aggregate
  imports Blocks
begin

text \<open>
  \<open>aggregate\<close> and \<open>canMerge\<close> of main.go: sort, drop prefixes contained in the one kept
  before them, then merge adjacent halves until a pass changes nothing. The order of
  \<open>sort.Slice\<close> becomes the \<open>linorder\<close> of addresses and prefixes. The results: the output
  covers exactly the input's addresses, is sorted and pairwise disjoint, is a shortest
  such list, and depends only on the addresses covered.
\<close>

section \<open>The order of sort.Slice\<close>

text \<open>The comparison function \<open>aggregate\<close> hands to \<open>sort.Slice\<close>.\<close>

definition prefix_less :: "nprefix \<Rightarrow> nprefix \<Rightarrow> bool" where
  "prefix_less p q =
     (let cmp = addr_compare (paddr p) (paddr q)
      in if cmp \<noteq> 0 then cmp < 0 else pbits p < pbits q)"

lemma bit_len_family:
  "bit_len a = bit_len b \<Longrightarrow> addrz a = addrz b \<or> is6 a \<and> is6 b"
  by (auto simp: bit_len_def is6_def split: family.splits)

lemma addr_compare_cases:
  "addr_compare a b = 0 \<longleftrightarrow> a = b"
  "addr_compare a b < 0 \<longleftrightarrow> addr_compare b a > 0"
  "addr_compare a b < 0 \<Longrightarrow> addr_compare b c < 0 \<Longrightarrow> addr_compare a c < 0"
proof -
  show "addr_compare a b = 0 \<longleftrightarrow> a = b"
    by (cases a; cases b)
      (auto simp: addr_compare_def bit_len_def is6_def split: family.splits)
  show "addr_compare a b < 0 \<longleftrightarrow> addr_compare b a > 0"
    by (auto simp: addr_compare_def)
  show "addr_compare a b < 0 \<Longrightarrow> addr_compare b c < 0 \<Longrightarrow> addr_compare a c < 0"
    by (auto simp: addr_compare_def is6_def bit_len_def split: if_splits family.splits)
qed

instantiation addr :: linorder
begin

definition less_addr :: "addr \<Rightarrow> addr \<Rightarrow> bool" where "less_addr a b = (addr_compare a b < 0)"

definition less_eq_addr :: "addr \<Rightarrow> addr \<Rightarrow> bool" where "less_eq_addr a b = (addr_compare a b \<le> 0)"

instance
proof
  fix a b c :: addr
  show "a < b \<longleftrightarrow> a \<le> b \<and> \<not> b \<le> a"
    using addr_compare_cases(2) [of a b] by (auto simp: less_addr_def less_eq_addr_def)
  show "a \<le> a" using addr_compare_cases(1) [of a a] by (simp add: less_eq_addr_def)
  show "a \<le> b \<Longrightarrow> b \<le> a \<Longrightarrow> a = b"
    using addr_compare_cases(1,2) [of a b] by (auto simp: less_eq_addr_def)
  show "a \<le> b \<or> b \<le> a"
    using addr_compare_cases(2) [of a b] addr_compare_cases(1) [of a b]
    by (auto simp: less_eq_addr_def)
  show "a \<le> b \<Longrightarrow> b \<le> c \<Longrightarrow> a \<le> c"
    using addr_compare_cases(3) [of a b c] addr_compare_cases(1)
    by (auto simp: less_eq_addr_def order_le_less)
qed

end

instantiation nprefix :: linorder
begin

definition less_nprefix :: "nprefix \<Rightarrow> nprefix \<Rightarrow> bool" where "less_nprefix p q = prefix_less p q"

definition less_eq_nprefix :: "nprefix \<Rightarrow> nprefix \<Rightarrow> bool" where
  "less_eq_nprefix p q = (prefix_less p q \<or> p = q)"

instance
proof
  have less: "p < q \<longleftrightarrow> paddr p < paddr q \<or> paddr p = paddr q \<and> pbits p < pbits q" for p q :: nprefix
    using addr_compare_cases(1) [of "paddr p" "paddr q"]
    by (auto simp: less_nprefix_def prefix_less_def less_addr_def Let_def)
  have le: "p \<le> q \<longleftrightarrow> p < q \<or> p = q" for p q :: nprefix
    by (simp add: less_eq_nprefix_def less_nprefix_def)
  fix p q r :: nprefix
  show "p < q \<longleftrightarrow> p \<le> q \<and> \<not> q \<le> p" by (auto simp: le less)
  show "p \<le> p" by (simp add: le)
  show "p \<le> q \<Longrightarrow> q \<le> p \<Longrightarrow> p = q" by (auto simp: le less)
  show "p \<le> q \<or> q \<le> p"
    by (cases p; cases q) (auto simp: le less)
  show "p \<le> q \<Longrightarrow> q \<le> r \<Longrightarrow> p \<le> r" by (auto simp: le less)
qed

end

section \<open>canMerge and aggregate\<close>

definition can_merge :: "nprefix \<Rightarrow> nprefix \<Rightarrow> bool" where
  "can_merge a b =
     (if pbits a \<noteq> pbits b \<or> pbits a = 0 \<or> is4 (paddr a) \<noteq> is4 (paddr b) then False
      else let parentA = masked (prefix_from (paddr a) (pbits a - 1));
               parentB = masked (prefix_from (paddr b) (pbits b - 1))
           in parentA = parentB \<and> contains parentA (paddr a) \<and> contains parentA (paddr b))"

text \<open>The deduplication loop: one step, with \<open>deduped\<close> as the accumulator.\<close>

definition dedup_step :: "nprefix list \<Rightarrow> nprefix \<Rightarrow> nprefix list" where
  "dedup_step ds p =
     (if ds \<noteq> [] \<and> pbits (last ds) \<le> pbits p \<and> contains (last ds) (paddr p) then ds else ds @ [p])"

definition dedup :: "nprefix list \<Rightarrow> nprefix list" where
  "dedup ps = foldl dedup_step [] ps"

text \<open>One pass of the merge loop: the merged list and \<open>changed\<close>.\<close>

fun merge_pass :: "nprefix list \<Rightarrow> nprefix list \<times> bool" where
  "merge_pass (a # b # ps) =
     (if can_merge a b then
        (masked (prefix_from (paddr a) (pbits a - 1)) # fst (merge_pass ps), True)
      else (a # fst (merge_pass (b # ps)), snd (merge_pass (b # ps))))"
| "merge_pass [a] = ([a], False)"
| "merge_pass [] = ([], False)"

lemma length_merge_pass:
  "length (fst (merge_pass ps)) \<le> length ps"
  "snd (merge_pass ps) \<Longrightarrow> length (fst (merge_pass ps)) < length ps"
  by (induction ps rule: merge_pass.induct) (auto simp: less_Suc_eq_le)

function merge_loop :: "nprefix list \<Rightarrow> nprefix list" where
  "merge_loop ps =
     (case merge_pass ps of (merged, changed) \<Rightarrow> if changed then merge_loop merged else merged)"
  by pat_completeness auto
termination
  by (relation "measure length") (auto dest: length_merge_pass(2) simp: prod_eq_iff)

declare merge_loop.simps [simp del]

text \<open>
  \<open>sort.Slice\<close> is not stable, but two prefixes neither of which is less are equal, so
  every sort by this order returns the list that \<open>sort\<close> does.
\<close>

definition aggregate :: "nprefix list \<Rightarrow> nprefix list" where
  "aggregate ps = (if length ps = 0 then ps else merge_loop (dedup (sort ps)))"

section \<open>Aggregated lists are sorted with room between them\<close>

text \<open>Strictly before, with room for the whole block: the order of an aggregated list.\<close>

definition before :: "nprefix \<Rightarrow> nprefix \<Rightarrow> bool" where
  "before p q =
     (bit_len (paddr p) < bit_len (paddr q) \<or>
      addrz (paddr p) = addrz (paddr q) \<and> aval (paddr p) + 2 ^ host p \<le> aval (paddr q))"

lemma before_trans: "before p q \<Longrightarrow> before q r \<Longrightarrow> before p r"
  by (auto simp: before_def bit_len_def split: family.splits)

lemma before_less:
  assumes "before p q"
  shows "p < q"
proof -
  have "addr_compare (paddr p) (paddr q) < 0"
    using assms
  proof (unfold before_def, elim disjE conjE)
    assume "addrz (paddr p) = addrz (paddr q)" "aval (paddr p) + 2 ^ host p \<le> aval (paddr q)"
    moreover have "0 < (2::nat) ^ host p" by simp
    ultimately have "addrz (paddr p) = addrz (paddr q)" "aval (paddr p) < aval (paddr q)" by linarith+
    then show ?thesis by (simp add: addr_compare_def bit_len_def aval_def word_less_nat_alt)
  qed (simp add: addr_compare_def)
  then show ?thesis by (simp add: less_nprefix_def prefix_less_def)
qed

lemma before_disjoint:
  assumes "canonical p" "canonical q" "before p q"
  shows "block p \<inter> block q = {}"
  using assms by (auto simp: before_def block_interval bit_len_def)

lemma sorted_before_disjoint:
  assumes "\<forall>p \<in> set ps. canonical p" "sorted_wrt before ps"
  shows "pairwise_disjoint block ps"
  using assms
proof (induction ps)
  case (Cons p ps)
  then have "before p q" "block p \<inter> block q = {}" "p \<noteq> q" if "q \<in> set ps" for q
    using that before_disjoint [of p q] before_less [of p q] by auto
  then show ?case using Cons by (auto simp: pairwise_disjoint_def)
qed (simp add: pairwise_disjoint_def)

lemma sorted_before_strict: "sorted_wrt before ps \<Longrightarrow> sorted_wrt (<) ps"
  by (rule sorted_wrt_mono_rel [of ps before "(<)"]) (auto intro: before_less)

lemma family_cases:
  assumes "canonical p" "canonical q"
  shows "addrz (paddr p) = addrz (paddr q) \<or> bit_len (paddr p) \<noteq> bit_len (paddr q)"
  using assms prefix_wf_family [of p] prefix_wf_family [of q]
  by (auto simp: canonical_def bit_len_def)

lemma less_imp:
  assumes "canonical p" "canonical q" "p \<le> q"
  shows "bit_len (paddr p) < bit_len (paddr q) \<or>
    addrz (paddr p) = addrz (paddr q) \<and> aval (paddr p) \<le> aval (paddr q)
    \<and> (aval (paddr p) = aval (paddr q) \<longrightarrow> pbits p \<le> pbits q)"
  using assms family_cases [OF assms(1,2)] prefix_wf_family [of p]
  by (auto simp: less_eq_nprefix_def prefix_less_def addr_compare_def Let_def canonical_def
      aval_def word_less_nat_alt split: if_splits)

lemma contains_block:
  assumes "canonical p" "canonical q"
  shows "contains p (paddr q) \<longleftrightarrow> paddr q \<in> block p"
  using assms by (simp add: block_def canonical_def prefix_wf_def)

lemma bits_host:
  assumes "canonical p" "canonical q" "addrz (paddr p) = addrz (paddr q)"
  shows "pbits p \<le> pbits q \<longleftrightarrow> host q \<le> host p" and "pbits p = pbits q \<longleftrightarrow> host p = host q"
  using assms prefix_wf_hostD(1) [of p] prefix_wf_hostD(1) [of q]
  by (auto simp: canonical_def bit_len_def)

text \<open>A prefix not absorbed by the one kept last starts after it.\<close>

lemma dedup_keep:
  assumes d: "canonical d" and p: "canonical p" and le: "d \<le> p"
    and keep: "\<not> (pbits d \<le> pbits p \<and> contains d (paddr p))"
  shows "before d p"
proof -
  have wf: "prefix_wf d" "prefix_wf p" using d p by (simp_all add: canonical_def)
  consider "bit_len (paddr d) < bit_len (paddr p)"
    | (same) "addrz (paddr d) = addrz (paddr p)" "aval (paddr d) \<le> aval (paddr p)"
      "aval (paddr d) = aval (paddr p) \<longrightarrow> pbits d \<le> pbits p"
    using less_imp [OF d p le] by blast
  then show ?thesis
  proof cases
    case same
    have "\<not> aval (paddr p) < aval (paddr d) + 2 ^ host d"
    proof
      assume "aval (paddr p) < aval (paddr d) + 2 ^ host d"
      then have inb: "paddr p \<in> block d"
        using same d wf by (simp add: block_interval prefix_wf_def)
      then have "\<not> pbits d \<le> pbits p" using keep contains_block [OF d p] by simp
      then have h: "host d \<le> host p" and ne: "aval (paddr d) \<noteq> aval (paddr p)"
        using bits_host [OF p d] same by auto
      have "block d \<subseteq> block p"
        using block_subset [OF wf inb] paddr_in_block h wf by blast
      then have "aval (paddr p) \<le> aval (paddr d)" using block_subsetD(2) [OF d p] by blast
      then show False using same ne by simp
    qed
    then show ?thesis using same by (simp add: before_def)
  qed (simp add: before_def)
qed

lemma dedup_drop:
  assumes "canonical d" "canonical p" "pbits d \<le> pbits p" "contains d (paddr p)"
  shows "block p \<subseteq> block d"
proof -
  have i: "paddr p \<in> block d" using assms contains_block by blast
  then have "addrz (paddr p) = addrz (paddr d)" using assms by (simp add: block_interval)
  then have "host p \<le> host d" using assms bits_host(1) [of d p] by simp
  then show ?thesis
    using block_subset [of p d "paddr p"] i assms paddr_in_block by (auto simp: canonical_def)
qed

lemma dedup_invariant:
  assumes "\<forall>p \<in> set (ds @ ps). canonical p" "sorted_wrt before ds" "sorted ps"
    "\<forall>p \<in> set ps. ds \<noteq> [] \<longrightarrow> last ds \<le> p"
  shows "sorted_wrt before (foldl dedup_step ds ps) \<and>
    (\<forall>p \<in> set (foldl dedup_step ds ps). canonical p) \<and>
    covered (foldl dedup_step ds ps) = covered (ds @ ps)"
  using assms
proof (induction ps arbitrary: ds)
  case (Cons p ps)
  show ?case
  proof (cases "ds \<noteq> [] \<and> pbits (last ds) \<le> pbits p \<and> contains (last ds) (paddr p)")
    case True
    then have "block p \<subseteq> block (last ds)" using Cons.prems(1) by (intro dedup_drop) auto
    then have "block p \<subseteq> covered ds" using True last_in_set [of ds] by (force simp: covered_def)
    then have "covered (ds @ p # ps) = covered (ds @ ps)" by (auto simp: covered_def)
    moreover have "dedup_step ds p = ds" using True by (simp add: dedup_step_def)
    moreover have "sorted_wrt before (foldl dedup_step ds ps) \<and>
      (\<forall>p \<in> set (foldl dedup_step ds ps). canonical p) \<and>
      covered (foldl dedup_step ds ps) = covered (ds @ ps)"
      using Cons.prems by (intro Cons.IH) simp_all
    ultimately show ?thesis by simp
  next
    case False
    have b: "before d p" if "d \<in> set ds" for d
    proof (cases "d = last ds")
      case True
      then show ?thesis using that False Cons.prems(1,4) by (intro dedup_keep) auto
    next
      case ne: False
      have "ds \<noteq> []" using that by auto
      then obtain es e where ds: "ds = es @ [e]" by (metis append_butlast_last_id)
      then have "before d e" using that ne Cons.prems(2) by (auto simp: sorted_wrt_append)
      moreover have "before e p"
        using ds False Cons.prems(1,4) by (intro dedup_keep) auto
      ultimately show ?thesis by (rule before_trans)
    qed
    moreover have "dedup_step ds p = ds @ [p]" using False by (auto simp: dedup_step_def)
    moreover have "sorted_wrt before (foldl dedup_step (ds @ [p]) ps) \<and>
      (\<forall>p \<in> set (foldl dedup_step (ds @ [p]) ps). canonical p) \<and>
      covered (foldl dedup_step (ds @ [p]) ps) = covered ((ds @ [p]) @ ps)"
      using Cons.prems b by (intro Cons.IH) (simp_all add: sorted_wrt_append)
    ultimately show ?thesis by simp
  qed
qed simp

lemma dedup_correct:
  assumes "\<forall>p \<in> set ps. canonical p" "sorted ps"
  shows "sorted_wrt before (dedup ps)" "\<forall>p \<in> set (dedup ps). canonical p"
    "covered (dedup ps) = covered ps"
  using dedup_invariant [of "[]" ps] assms by (simp_all add: dedup_def)

section \<open>Merging\<close>

text \<open>The parent block: one bit shorter, masked.\<close>

abbreviation parent :: "nprefix \<Rightarrow> nprefix" where
  "parent p \<equiv> masked (prefix_from (paddr p) (pbits p - 1))"

lemma parent_props:
  assumes "canonical p" "0 < pbits p"
  shows "canonical (parent p)" and "addrz (paddr (parent p)) = addrz (paddr p)"
    and "host (parent p) = Suc (host p)" and "pbits (parent p) = pbits p - 1"
    and "aval (paddr (parent p)) = aval (paddr p) div 2 ^ Suc (host p) * 2 ^ Suc (host p)"
    and "paddr p \<in> block (parent p)"
proof -
  let ?q = "prefix_from (paddr p) (pbits p - 1)"
  have wf: "prefix_wf p" using assms by (simp add: canonical_def)
  then have q: "?q = Prefix (paddr p) (pbits p - 1)"
    using assms(2) by (simp add: prefix_from_def prefix_wf_def)
  have wfq: "prefix_wf ?q" using wf assms(2) by (simp add: q prefix_wf_def)
  have h: "host ?q = Suc (host p)"
    using prefix_wf_hostD(1) [OF wfq] prefix_wf_hostD(1) [OF wf] by (simp add: q)
  show "canonical (parent p)" using wfq by (rule canonical_masked)
  show "addrz (paddr (parent p)) = addrz (paddr p)" "host (parent p) = Suc (host p)"
    "pbits (parent p) = pbits p - 1"
    "aval (paddr (parent p)) = aval (paddr p) div 2 ^ Suc (host p) * 2 ^ Suc (host p)"
    using paddr_masked [OF wfq] h by (simp_all add: q)
  show "paddr p \<in> block (parent p)"
    using paddr_in_block [OF wfq] block_masked [OF wfq] by (simp add: q)
qed

lemma can_merge_iff:
  assumes "canonical a" "canonical b"
  shows "can_merge a b \<longleftrightarrow> addrz (paddr a) = addrz (paddr b) \<and> host a = host b \<and> pbits a \<noteq> 0
    \<and> aval (paddr a) div 2 ^ Suc (host a) = aval (paddr b) div 2 ^ Suc (host b)"
proof (cases "addrz (paddr a) = addrz (paddr b) \<and> pbits a = pbits b \<and> pbits a \<noteq> 0")
  case True
  have wf: "prefix_wf a" "prefix_wf b" using assms by (simp_all add: canonical_def)
  have pos: "0 < pbits a" "0 < pbits b" using True wf by (auto simp: prefix_wf_def)
  note a = parent_props [OF assms(1) pos(1)] and b = parent_props [OF assms(2) pos(2)]
  have h: "host a = host b" using True bits_host assms by blast
  have "parent a = parent b \<longleftrightarrow> aval (paddr a) div 2 ^ Suc (host a) = aval (paddr b) div 2 ^ Suc (host b)"
  proof
    assume "parent a = parent b"
    then have "aval (paddr (parent a)) = aval (paddr (parent b))" by simp
    then show "aval (paddr a) div 2 ^ Suc (host a) = aval (paddr b) div 2 ^ Suc (host b)"
      using a(5) b(5) h by simp
  next
    assume "aval (paddr a) div 2 ^ Suc (host a) = aval (paddr b) div 2 ^ Suc (host b)"
    then show "parent a = parent b"
      using a b h True by (intro canonical_eqI) auto
  qed
  then show ?thesis
    using True a(6) b(6) h by (auto simp: can_merge_def Let_def is4_def block_def)
next
  case False
  have "\<not> can_merge a b"
    using False family_cases [OF assms] assms prefix_wf_family [of a] prefix_wf_family [of b]
    by (auto simp: can_merge_def is4_def canonical_def)
  then show ?thesis using False bits_host(2) [OF assms] by auto
qed

lemma halves_merge:
  assumes "canonical a" "canonical b" "can_merge a b" "before a b"
  shows "block (parent a) = block a \<union> block b" and "aval (paddr b) = aval (paddr a) + 2 ^ host a"
    and "aval (paddr (parent a)) = aval (paddr a)" and "0 < pbits a"
    and "host b = host a" and "addrz (paddr b) = addrz (paddr a)"
proof -
  have m: "addrz (paddr a) = addrz (paddr b)" "host a = host b" "pbits a \<noteq> 0"
    and d: "aval (paddr a) div 2 ^ Suc (host a) = aval (paddr b) div 2 ^ Suc (host a)"
    using assms(3) can_merge_iff [OF assms(1,2)] by auto
  show pos: "0 < pbits a" using m(3) assms(1) by (simp add: canonical_def prefix_wf_def)
  show "host b = host a" "addrz (paddr b) = addrz (paddr a)" using m by simp_all
  note p = parent_props [OF assms(1) pos]
  obtain i j where ij: "aval (paddr a) = 2 ^ host a * i" "aval (paddr b) = 2 ^ host a * j"
    using assms(1,2) m(2) unfolding canonical_iff mod_eq_0_iff_dvd by (metis dvdE)
  have pos2: "(0::nat) < 2 ^ host a" by simp
  have "2 ^ host a * i + 2 ^ host a \<le> 2 ^ host a * j"
    using assms(4) ij m by (auto simp: before_def bit_len_def)
  then have "2 ^ host a * Suc i \<le> 2 ^ host a * j" by simp
  then have lt: "i < j" using pos2 by (simp only: nat_mult_le_cancel1 Suc_le_eq)
  have "i div 2 = j div 2"
    using d unfolding ij by (simp add: power_Suc2 div_mult2_eq del: power_Suc)
  then have j: "j = Suc i" "even i" using lt by presburger+
  show v: "aval (paddr b) = aval (paddr a) + 2 ^ host a" by (simp add: ij j)
  have "i div 2 * 2 = i" using j(2) by simp
  then show pa: "aval (paddr (parent a)) = aval (paddr a)"
    unfolding p(5) ij by (simp add: power_Suc2 div_mult2_eq mult.assoc del: power_Suc)
  show "block (parent a) = block a \<union> block b"
    using p v pa m assms(1,2) by (auto simp: block_interval)
qed

lemma before_parent:
  assumes "canonical a" "canonical b" "can_merge a b" "before a b"
  shows "before p a \<Longrightarrow> before p (parent a)" and "before b q \<Longrightarrow> before (parent a) q"
  using halves_merge [OF assms] parent_props [OF assms(1)]
  by (auto simp: before_def bit_len_def)

lemma can_merge_pos: "can_merge a b \<Longrightarrow> canonical a \<Longrightarrow> 0 < pbits a"
  by (auto simp: can_merge_def canonical_def prefix_wf_def split: if_splits)

lemma merge_pass_canonical:
  "\<forall>p \<in> set ps. canonical p \<Longrightarrow> \<forall>p \<in> set (fst (merge_pass ps)). canonical p"
proof (induction ps rule: merge_pass.induct)
  case (1 a b ps)
  show ?case
  proof (cases "can_merge a b")
    case True
    have "\<forall>p \<in> set (fst (merge_pass ps)). canonical p"
      using "1.prems" by (intro "1.IH"(1) [OF True]) simp
    moreover have "canonical (parent a)"
      using "1.prems" True by (intro parent_props(1) can_merge_pos [of a b]) simp_all
    ultimately show ?thesis using True by simp
  next
    case False
    have "\<forall>p \<in> set (fst (merge_pass (b # ps))). canonical p"
      using "1.prems" by (intro "1.IH"(2) [OF False]) simp
    then show ?thesis using False "1.prems" by simp
  qed
qed simp_all

lemma merge_pass_before:
  "\<lbrakk>\<forall>p \<in> set ps. canonical p; sorted_wrt before ps; \<forall>p \<in> set ps. before q p\<rbrakk>
    \<Longrightarrow> \<forall>p \<in> set (fst (merge_pass ps)). before q p"
proof (induction ps rule: merge_pass.induct)
  case (1 a b ps)
  show ?case
  proof (cases "can_merge a b")
    case True
    have "\<forall>p \<in> set (fst (merge_pass ps)). before q p"
      using "1.prems" by (intro "1.IH"(1) [OF True]) simp_all
    moreover have "before q (parent a)"
      using "1.prems" True by (intro before_parent(1) [of a b]) simp_all
    ultimately show ?thesis using True by simp
  next
    case False
    have "\<forall>p \<in> set (fst (merge_pass (b # ps))). before q p"
      using "1.prems" by (intro "1.IH"(2) [OF False]) simp_all
    then show ?thesis using False "1.prems" by simp
  qed
qed simp_all

lemma merge_pass_sorted:
  "\<lbrakk>\<forall>p \<in> set ps. canonical p; sorted_wrt before ps\<rbrakk> \<Longrightarrow> sorted_wrt before (fst (merge_pass ps))"
proof (induction ps rule: merge_pass.induct)
  case (1 a b ps)
  show ?case
  proof (cases "can_merge a b")
    case True
    have "sorted_wrt before (fst (merge_pass ps))"
      using "1.prems" by (intro "1.IH"(1) [OF True]) simp_all
    moreover have "\<forall>p \<in> set ps. before (parent a) p"
      using True "1.prems" before_parent(2) [of a b] by simp
    then have "\<forall>p \<in> set (fst (merge_pass ps)). before (parent a) p"
      using "1.prems" by (intro merge_pass_before) simp_all
    ultimately show ?thesis using True by simp
  next
    case False
    have "sorted_wrt before (fst (merge_pass (b # ps)))"
      using "1.prems" by (intro "1.IH"(2) [OF False]) simp_all
    moreover have "\<forall>p \<in> set (fst (merge_pass (b # ps))). before a p"
      using "1.prems" by (intro merge_pass_before) simp_all
    ultimately show ?thesis using False by simp
  qed
qed simp_all

lemma covered_Cons: "covered (p # ps) = block p \<union> covered ps"
  by (simp add: covered_def)

lemma merge_pass_covered:
  "\<lbrakk>\<forall>p \<in> set ps. canonical p; sorted_wrt before ps\<rbrakk> \<Longrightarrow> covered (fst (merge_pass ps)) = covered ps"
proof (induction ps rule: merge_pass.induct)
  case (1 a b ps)
  show ?case
  proof (cases "can_merge a b")
    case True
    have "covered (fst (merge_pass ps)) = covered ps"
      using "1.prems" by (intro "1.IH"(1) [OF True]) simp_all
    moreover have "block (parent a) = block a \<union> block b"
      using True "1.prems" by (intro halves_merge(1)) simp_all
    ultimately show ?thesis using True by (simp add: covered_Cons Un_assoc)
  next
    case False
    have "covered (fst (merge_pass (b # ps))) = covered (b # ps)"
      using "1.prems" by (intro "1.IH"(2) [OF False]) simp_all
    then show ?thesis using False by (simp add: covered_Cons)
  qed
qed simp_all

lemma merge_pass_unchanged:
  assumes "\<not> snd (merge_pass ps)"
  shows "fst (merge_pass ps) = ps" and "successively (\<lambda>a b. \<not> can_merge a b) ps"
  using assms by (induction ps rule: merge_pass.induct) (auto split: if_splits)

lemma can_merge_sym: "can_merge a b \<longleftrightarrow> can_merge b a"
  by (auto simp: can_merge_def Let_def)

lemma no_siblings_hd:
  assumes "\<forall>p \<in> set (a # ps). canonical p" "sorted_wrt before (a # ps)"
    "successively (\<lambda>a b. \<not> can_merge a b) (a # ps)" "q \<in> set ps"
  shows "\<not> can_merge a q"
proof
  assume cm: "can_merge a q"
  obtain b bs where ps: "ps = b # bs" using assms(4) by (cases ps) auto
  have can: "canonical a" "canonical q" "canonical b" and ab: "before a b" and aq: "before a q"
    using assms ps by auto
  have "q \<noteq> b" using cm assms(3) ps by auto
  then have bq: "before b q" using assms(2,4) ps by auto
  note h = halves_merge [OF can(1,2) cm aq]
  have "aval (paddr a) + 2 ^ host a \<le> aval (paddr b)" "aval (paddr b) + 2 ^ host b \<le> aval (paddr q)"
    using ab bq h(6) by (auto simp: before_def bit_len_def)
  moreover have "0 < (2::nat) ^ host b" by simp
  ultimately show False using h(2) by linarith
qed

lemma no_siblings:
  assumes "\<forall>p \<in> set ps. canonical p" "sorted_wrt before ps"
    "successively (\<lambda>a b. \<not> can_merge a b) ps" "p \<in> set ps" "q \<in> set ps" "p \<noteq> q"
  shows "\<not> can_merge p q"
  using assms
proof (induction ps)
  case (Cons a ps)
  have hd: "\<not> can_merge a r" if "r \<in> set ps" for r
    using that Cons.prems by (intro no_siblings_hd [of a ps]) auto
  have "successively (\<lambda>a b. \<not> can_merge a b) ps"
    using Cons.prems(3) by (cases ps) auto
  then show ?case
    using Cons hd can_merge_sym [of a p] by auto
qed simp

section \<open>The loop and the interface of blocks\<close>

lemma merge_loop_correct:
  assumes "\<forall>p \<in> set ps. canonical p" "sorted_wrt before ps"
  shows "(\<forall>p \<in> set (merge_loop ps). canonical p) \<and> sorted_wrt before (merge_loop ps)
    \<and> covered (merge_loop ps) = covered ps
    \<and> successively (\<lambda>a b. \<not> can_merge a b) (merge_loop ps)"
  using assms
proof (induction ps rule: merge_loop.induct)
  case (1 ps)
  note pass = merge_pass_canonical [OF "1.prems"(1)] merge_pass_sorted [OF "1.prems"]
    merge_pass_covered [OF "1.prems"]
  obtain m c where m: "merge_pass ps = (m, c)" by fastforce
  show ?case
  proof (cases c)
    case True
    have "(\<forall>p \<in> set (merge_loop m). canonical p) \<and> sorted_wrt before (merge_loop m)
        \<and> covered (merge_loop m) = covered m
        \<and> successively (\<lambda>a b. \<not> can_merge a b) (merge_loop m)"
      using pass m by (intro "1.IH" [OF m [symmetric] True]) simp_all
    then show ?thesis using pass m True by (simp add: merge_loop.simps [of ps])
  next
    case False
    then have "m = ps" "successively (\<lambda>a b. \<not> can_merge a b) ps"
      using merge_pass_unchanged [of ps] m by simp_all
    then show ?thesis using "1.prems" m False by (simp add: merge_loop.simps [of ps])
  qed
qed

lemma canonical_halves:
  assumes "canonical p" "0 < host p"
  shows "\<exists>l r. canonical l \<and> canonical r \<and> Suc (host l) = host p \<and> Suc (host r) = host p
    \<and> l \<noteq> r \<and> can_merge l r \<and> block p = block l \<union> block r"
proof -
  let ?h = "2 ^ (host p - 1) :: nat"
  have h: "Suc (host (half p k)) = host p" "host (half p k) = host p - 1"
    and c: "canonical (half p k)" and v: "aval (paddr (half p k)) = aval (paddr p) + k * ?h"
    and z: "addrz (paddr (half p k)) = addrz (paddr p)" and b: "pbits (half p k) = pbits p + 1"
    if "k < 2" for k
    using half_canonical [OF assms that] by simp_all
  have "0 \<le> pbits p" using assms by (simp add: canonical_def prefix_wf_def)
  obtain i where i: "aval (paddr p) = 2 ^ host p * i"
    using assms(1) unfolding canonical_iff mod_eq_0_iff_dvd by (auto elim: dvdE)
  have e: "(2::nat) ^ host p = ?h * 2" using assms(2) by (cases "host p") auto
  have d: "(aval (paddr p) + k * ?h) div 2 ^ host p = i" if "k < 2" for k
  proof (rule div_nat_eqI)
    have "k * ?h < 2 ^ host p" using that by (simp add: e)
    then show "aval (paddr p) + k * ?h < 2 ^ host p * Suc i" by (simp add: i)
  qed (simp add: i)
  have "can_merge (half p 0) (half p 1)"
    using c [of 0] c [of 1] h [of 0] h [of 1] z [of 0] z [of 1] b [of 0] b [of 1] \<open>0 \<le> pbits p\<close>
      d [of 0] d [of 1] v [of 0] v [of 1] by (simp add: can_merge_iff)
  moreover have "half p 0 \<noteq> half p 1"
  proof
    assume "half p 0 = half p 1"
    then have "?h = 0" using v [of 0] v [of 1] by simp
    then show False by simp
  qed
  ultimately show ?thesis
    using c [of 0] c [of 1] h(1) [of 0] h(1) [of 1] block_halves [OF assms]
    by (intro exI [of _ "half p 0"] exI [of _ "half p 1"] conjI) simp_all
qed

interpretation cidr: cidr_space canonical block can_merge host
proof unfold_locales
  show "block p \<noteq> {}" if "canonical p" for p
    using that paddr_in_block [of p] by (auto simp: canonical_def)
  show "block p \<subseteq> block q"
    if "canonical p" "canonical q" "block p \<inter> block q \<noteq> {}" "host p \<le> host q" for p q
    using that block_subset [of p q] by (auto simp: canonical_def)
  show "p = q" if "canonical p" "canonical q" "block p = block q" for p q
    using that by (rule block_inj)
  show "\<exists>l r. canonical l \<and> canonical r \<and> Suc (host l) = host p \<and> Suc (host r) = host p
      \<and> l \<noteq> r \<and> can_merge l r \<and> block p = block l \<union> block r"
    if "canonical p" "0 < host p" for p
    using that by (rule canonical_halves)
  show "\<exists>a. block p = {a}" if "canonical p" "host p = 0" for p
    using that block_single by blast
qed

lemma covered_sort: "covered (sort ps) = covered ps"
  by (simp add: covered_def)

text \<open>All the proofs below use of \<open>aggregate\<close>: its output is a sorted reduced cover.\<close>

lemma aggregate_reduced:
  assumes "\<forall>p \<in> set ps. canonical p"
  shows "reduced canonical block can_merge (aggregate ps)" and "sorted_wrt before (aggregate ps)"
    and "covered (aggregate ps) = covered ps"
proof -
  have "(\<forall>p \<in> set (aggregate ps). canonical p) \<and> sorted_wrt before (aggregate ps)
    \<and> covered (aggregate ps) = covered ps \<and> successively (\<lambda>a b. \<not> can_merge a b) (aggregate ps)"
  proof (cases "ps = []")
    case False
    have "\<forall>p \<in> set (sort ps). canonical p" "sorted (sort ps)" using assms by simp_all
    note d = dedup_correct [OF this]
    show ?thesis
      using merge_loop_correct [OF d(2,1)] d(3) False by (simp add: aggregate_def covered_sort)
  qed (simp add: aggregate_def)
  then show "reduced canonical block can_merge (aggregate ps)" "sorted_wrt before (aggregate ps)"
    "covered (aggregate ps) = covered ps"
    using sorted_before_disjoint [of "aggregate ps"] no_siblings [of "aggregate ps"]
    by (auto simp: reduced_def)
qed

lemma reduced_sorted_unique:
  assumes "reduced canonical block can_merge ps" "sorted_wrt before ps"
    "reduced canonical block can_merge qs" "sorted_wrt before qs" "covered ps = covered qs"
  shows "ps = qs"
proof -
  have "set ps = set qs"
    using assms(5) by (intro cidr.reduced_unique [OF assms(1,3)]) (simp add: covered_def)
  then show ?thesis
    using assms(2,4) sorted_before_strict by (intro strict_sorted_equal) auto
qed

text \<open>C3: aggregate keeps the routed address space: for valid masked prefixes, the addresses covered by
  its result are exactly the addresses covered by its input.\<close>

theorem aggregate_covers:
  assumes "\<forall>p \<in> set ps. canonical p"
  shows "covered (aggregate ps) = covered ps"
  using assms by (rule aggregate_reduced)

lemma aggregate_sorted_disjoint:
  assumes "\<forall>p \<in> set ps. canonical p"
  shows "sorted_wrt (<) (aggregate ps) \<and> pairwise_disjoint block (aggregate ps)
    \<and> (\<forall>p \<in> set (aggregate ps). canonical p)"
  using aggregate_reduced [OF assms] sorted_before_strict by (simp add: reduced_def)

text \<open>C4: aggregate returns a minimal covering set, as its comment says: no list of valid masked prefixes
  that covers the same addresses is shorter than its result.\<close>

theorem aggregate_minimal:
  assumes "\<forall>p \<in> set ps. canonical p" "\<forall>q \<in> set qs. canonical q" "covered qs = covered ps"
  shows "length (aggregate ps) \<le> length qs"
  using assms aggregate_reduced [OF assms(1)]
  by (intro cidr.reduced_minimal) (simp_all add: covered_def)

lemma aggregate_maximal_blocks:
  assumes "\<forall>p \<in> set ps. canonical p" "canonical q" "block q \<subseteq> covered ps"
  shows "\<exists>p \<in> set (aggregate ps). block q \<subseteq> block p"
  using assms aggregate_reduced [OF assms(1)]
  by (intro cidr.reduced_maximal) (simp_all add: covered_def)

text \<open>C5: aggregate is a canonical form: two lists of prefixes aggregate to the same list exactly if they
  cover the same addresses, so the order and duplicates of feed and extras do not matter.\<close>

theorem aggregate_canonical_form:
  assumes "\<forall>p \<in> set ps. canonical p" "\<forall>q \<in> set qs. canonical q"
  shows "aggregate ps = aggregate qs \<longleftrightarrow> covered ps = covered qs"
  using reduced_sorted_unique [OF aggregate_reduced(1,2) [OF assms(1)] aggregate_reduced(1,2) [OF assms(2)]]
    aggregate_reduced(3) [OF assms(1)] aggregate_reduced(3) [OF assms(2)] by metis

section \<open>Concrete inputs\<close>

abbreviation net_a :: nprefix where "net_a \<equiv> Prefix (addr_from4 0x0A000000) 25"
abbreviation net_b :: nprefix where "net_b \<equiv> Prefix (addr_from4 0x0A000080) 25"

lemma nets_canonical: "canonical net_a" "canonical net_b" "canonical (Prefix (addr_from4 0x0A000000) 24)"
  by code_simp+

lemma aggregate_covers_witness: "covered (aggregate [net_b, net_a]) = covered [net_b, net_a]"
  using aggregate_covers [of "[net_b, net_a]"] nets_canonical by simp

lemma nets_covered: "covered [Prefix (addr_from4 0x0A000000) 24] = covered [net_b, net_a]"
proof -
  have "merge_loop (dedup (sort [net_b, net_a])) = [Prefix (addr_from4 0x0A000000) 24]" by code_simp
  then show ?thesis
    using aggregate_reduced(3) [of "[net_b, net_a]"] nets_canonical by (simp add: aggregate_def)
qed

lemma aggregate_minimal_witness: "length (aggregate [net_b, net_a]) \<le> length [Prefix (addr_from4 0x0A000000) 24]"
  using aggregate_minimal [of "[net_b, net_a]" "[Prefix (addr_from4 0x0A000000) 24]"] nets_canonical nets_covered
  by simp

lemma aggregate_canonical_form_witness: "aggregate [net_b, net_a] = aggregate [Prefix (addr_from4 0x0A000000) 24]"
  using aggregate_canonical_form [of "[net_b, net_a]" "[Prefix (addr_from4 0x0A000000) 24]"] nets_canonical nets_covered
  by simp

end
