(* ===== verification/Ranges.thy ===== *)
theory Ranges
  imports Aggregate
begin

text \<open>
  \<open>lastAddr\<close> and \<open>rangeToCIDR\<close> of main.go: the last address of a prefix, computed byte
  by byte, and the conversion of an inclusive address range to prefixes. The results: the
  byte loop computes the top of the block, the outer loop ends, and for zone-free bounds the
  output covers exactly the range and is the list \<open>aggregate\<close> would return for it, hence
  a shortest one.
\<close>

section \<open>lastAddr\<close>

text \<open>\<open>Addr.As16\<close> and \<open>AddrFrom16\<close>: sixteen bytes, most significant first.\<close>

definition as16 :: "addr \<Rightarrow> 8 word list" where
  "as16 a = map (\<lambda>i. ucast (drop_bit (120 - 8 * i) (addr128 a))) [0..<16]"

definition addr_from16 :: "8 word list \<Rightarrow> addr" where
  "addr_from16 bs = Addr (foldl (\<lambda>w b. push_bit 8 w OR ucast b) 0 bs) (Z6 [])"

text \<open>The loop body of \<open>lastAddr\<close>: set bit \<open>i\<close>, counted from the most significant.\<close>

definition set_bit_at :: "8 word list \<Rightarrow> nat \<Rightarrow> 8 word list" where
  "set_bit_at bs i = bs[i div 8 := bs ! (i div 8) OR push_bit (7 - i mod 8) 1]"

definition last_addr :: "nprefix \<Rightarrow> addr" where
  "last_addr p =
     (let bytes16 = as16 (paddr p);
          bits = nat (pbits p) + (if is4 (paddr p) then 96 else 0);
          addr = addr_from16 (foldl set_bit_at bytes16 [bits..<128])
      in if is4 (paddr p) then unmap addr else addr)"

section \<open>rangeToCIDR\<close>

text \<open>The inner loop: shorten the mask while the block stays aligned and inside the range.\<close>

primrec shrink_mask :: "addr \<Rightarrow> addr \<Rightarrow> nat \<Rightarrow> nat" where
  "shrink_mask start end 0 = 0"
| "shrink_mask start end (Suc tryMask) =
     (let prefix = masked (prefix_from start (int tryMask)) in
      if paddr prefix \<noteq> start then Suc tryMask
      else if addr_compare (last_addr prefix) end > 0 then Suc tryMask
      else shrink_mask start end tryMask)"

lemma length_as16 [simp]: "length (as16 a) = 16"
  by (simp add: as16_def)

lemma length_set_bits [simp]: "length (foldl set_bit_at bs is) = length bs"
  by (induction "is" arbitrary: bs) (simp_all add: set_bit_at_def)

section \<open>lastAddr computes the top of the block\<close>

lemma nth_set_bits:
  assumes "length bs = 16" "k \<le> 128" "j < 16" "m < 8"
  shows "bit (foldl set_bit_at bs [b..<k] ! j) m \<longleftrightarrow>
    bit (bs ! j) m \<or> b \<le> 8 * j + (7 - m) \<and> 8 * j + (7 - m) < k"
  using assms(2)
proof (induction k)
  case (Suc k)
  show ?case
  proof (cases "b \<le> k")
    case True
    let ?bs = "foldl set_bit_at bs [b..<k]"
    have len: "length ?bs = 16" using assms(1) by simp
    have "bit (set_bit_at ?bs k ! j) m \<longleftrightarrow> bit (?bs ! j) m \<or> k = 8 * j + (7 - m)"
    proof (cases "k div 8 = j")
      case j: True
      have k: "k = 8 * j + k mod 8" using j by auto
      then have m: "m = 7 - k mod 8 \<longleftrightarrow> k = 8 * j + (7 - m)"
        using assms(4) by linarith
      have "bit (push_bit (7 - k mod 8) (1 :: 8 word)) m \<longleftrightarrow> m = 7 - k mod 8"
        using assms(4) by (auto simp: bit_exp_iff)
      then show ?thesis
        using j assms(3) len by (simp add: set_bit_at_def bit_or_iff m)
    next
      case False
      then have "k \<noteq> 8 * j + (7 - m)" using assms(4) by auto
      then show ?thesis using False by (simp add: set_bit_at_def)
    qed
    then show ?thesis using Suc True by auto
  next
    case False
    then show ?thesis using Suc by auto
  qed
qed simp

lemma bit_from_bytes:
  assumes "n < 128"
  shows "length bs \<le> 16 \<Longrightarrow> bit (foldl (\<lambda>w b. push_bit 8 w OR ucast b) (0::128 word) (bs :: 8 word list)) n
    \<longleftrightarrow> n div 8 < length bs \<and> bit (bs ! (length bs - 1 - n div 8)) (n mod 8)"
  using assms
proof (induction bs arbitrary: n rule: rev_induct)
  case (snoc b bs)
  show ?case
  proof (cases "n < 8")
    case True
    then show ?thesis using snoc by (simp add: bit_simps nth_append)
  next
    case False
    then have "bit (foldl (\<lambda>w b. push_bit 8 w OR ucast b) (0::128 word) bs) (n - 8) \<longleftrightarrow>
      (n - 8) div 8 < length bs \<and> bit (bs ! (length bs - 1 - (n - 8) div 8)) ((n - 8) mod 8)"
      using snoc by (intro snoc.IH) auto
    moreover have d: "(n - 8) div 8 = n div 8 - 1" "(n - 8) mod 8 = n mod 8" "0 < n div 8"
      using False by (auto simp: le_div_geq le_mod_geq)
    moreover have "bit (push_bit 8 (foldl (\<lambda>w b. push_bit 8 w OR ucast b) (0::128 word) bs) OR ucast b) n
        \<longleftrightarrow> bit (foldl (\<lambda>w b. push_bit 8 w OR ucast b) (0::128 word) bs) (n - 8)"
      using False snoc.prems(2) bit_imp_le_length [of b n]
      by (auto simp: bit_or_iff bit_push_bit_iff bit_unsigned_iff)
    moreover have "(bs @ [b]) ! (length bs - n div 8) = bs ! (length bs - 1 - (n div 8 - 1))"
      if "n div 8 - 1 < length bs"
    proof -
      have "length bs - n div 8 < length bs" using that d(3) by linarith
      then show ?thesis using d(3) by (simp add: nth_append)
    qed
    moreover have "n div 8 < length (bs @ [b]) \<longleftrightarrow> n div 8 - 1 < length bs"
      using d(3) by auto
    ultimately show ?thesis
      by (simp only: foldl_append foldl.simps length_append list.size add_0 add_Suc_right
          add_0_right diff_Suc_1 cong: conj_cong)
  qed
qed simp

lemma bit_as16:
  assumes j: "j < 16" and m: "m < 8"
  shows "bit (as16 a ! j) m \<longleftrightarrow> bit (addr128 a) (8 * (15 - j) + m)"
proof -
  have "as16 a ! j = ucast (drop_bit (120 - 8 * j) (addr128 a))"
    unfolding as16_def using j by (subst nth_map) (simp_all only: length_upt nth_upt add_0 diff_zero)
  moreover have "120 - 8 * j + m = 8 * (15 - j) + m" using j by linarith
  ultimately show ?thesis using m by (simp add: bit_simps)
qed

lemma last_addr_word:
  "addr_from16 (foldl set_bit_at (as16 a) [b..<128]) = Addr (addr128 a OR mask (128 - b)) (Z6 [])"
proof -
  let ?bs = "foldl set_bit_at (as16 a) [b..<128]"
  have "foldl (\<lambda>w b. push_bit 8 w OR ucast b) 0 ?bs = addr128 a OR mask (128 - b)"
  proof (rule bit_word_eqI)
    fix n assume "n < LENGTH(128)"
    then have n: "n < 128" by simp
    have j: "15 - n div 8 < 16" and m: "n mod 8 < 8" by simp_all
    have q: "n div 8 \<le> 15" "n = 8 * (n div 8) + n mod 8" "n mod 8 \<le> 7" using n by auto
    then have e: "8 * (15 - (15 - n div 8)) + n mod 8 = n" "8 * (15 - n div 8) + (7 - n mod 8) = 127 - n"
      by linarith+
    have "bit (foldl (\<lambda>w b. push_bit 8 w OR ucast b) (0::128 word) ?bs) n = bit (?bs ! (15 - n div 8)) (n mod 8)"
      using bit_from_bytes [OF n, of ?bs] q(1) by simp
    also have "\<dots> \<longleftrightarrow> bit (as16 a ! (15 - n div 8)) (n mod 8) \<or> b \<le> 127 - n"
      using nth_set_bits [OF length_as16 order_refl j m, of a b] n by (simp only: e(2)) auto
    also have "\<dots> \<longleftrightarrow> bit (addr128 a) n \<or> b \<le> 127 - n"
      by (simp only: bit_as16 [OF j m] e(1))
    also have "\<dots> \<longleftrightarrow> bit (addr128 a OR mask (128 - b)) n"
      using n by (auto simp: bit_or_iff bit_mask_iff)
    finally show "bit (foldl (\<lambda>w b. push_bit 8 w OR ucast b) (0::128 word) ?bs) n = bit (addr128 a OR mask (128 - b)) n" .
  qed
  then show ?thesis by (simp add: addr_from16_def)
qed

lemma addr128_last_addr: "addr128 (last_addr p) = addr128 (paddr p) OR mask (128 - eff_bits p)"
  by (simp add: last_addr_def Let_def last_addr_word unmap_def eff_bits_def)

lemma aval_last_addr:
  assumes "prefix_wf p"
  shows "aval (last_addr p) = aval (paddr p) div 2 ^ host p * 2 ^ host p + 2 ^ host p - 1"
    and "addrz (last_addr p) = addrz (paddr p)"
proof -
  show v: "aval (last_addr p) = aval (paddr p) div 2 ^ host p * 2 ^ host p + 2 ^ host p - 1"
    using prefix_wf_hostD(2) [OF assms]
    by (simp add: aval_def addr128_last_addr eff_bits_host [OF assms] unat_or_mask)
  show "addrz (last_addr p) = addrz (paddr p)"
  proof (cases "is4 (paddr p)")
    case True
    then have h: "host p \<le> 32" using prefix_wf_hostD(3) [OF assms] by blast
    have "drop_bit 32 (addr128 (paddr p)) = 0xFFFF"
      using assms True by (simp add: prefix_wf_def addr_wf_def is4_def)
    moreover have "drop_bit 32 (mask (host p) :: 128 word) = 0"
      using h by (intro bit_word_eqI) (auto simp: bit_simps)
    ultimately have "drop_bit 32 (addr128 (paddr p) OR mask (host p)) = 0xFFFF"
      by (simp only: drop_bit_or) simp
    then show ?thesis
      using True eff_bits_host [OF assms]
      by (simp add: last_addr_def Let_def last_addr_word unmap_def is4in6_def is6_def is4_def eff_bits_def)
  next
    case False
    then show ?thesis using prefix_wf_family [OF assms]
      by (simp add: last_addr_def Let_def last_addr_word is4_def)
  qed
qed

section \<open>The outer loop\<close>

lemma addr_next_less:
  assumes "addr_valid (addr_next a)"
  shows "aval (addr_next a) = Suc (aval a)" and "addrz (addr_next a) = addrz a"
proof -
  have w: "addr128 a + 1 \<noteq> 0"
    using assms by (auto simp: addr_next_def Let_def addr_valid_def addr_zero_def split: if_splits)
  have n: "addr_next a = Addr (addr128 a + 1) (addrz a)"
    using assms by (auto simp: addr_next_def Let_def addr_valid_def addr_zero_def split: if_splits)
  show "addrz (addr_next a) = addrz a" by (simp add: n)
  show "aval (addr_next a) = Suc (aval a)"
    using w unfolding n aval_def using unatSuc [of "addr128 a"] by (simp add: add.commute)
qed

lemma le_last_addr:
  assumes "addr_valid (addr_next (last_addr (masked (prefix_from start b))))"
  shows "aval start \<le> aval (last_addr (masked (prefix_from start b)))"
proof (cases "masked (prefix_from start b) = prefix_zero")
  case True
  have "addr128 (last_addr prefix_zero) = NOT 0"
    by (rule bit_word_eqI)
      (auto simp: addr128_last_addr prefix_zero_def addr_zero_def eff_bits_def is4_def bit_simps)
  then have "addr_next (last_addr prefix_zero) = addr_zero" by (simp add: addr_next_def)
  then show ?thesis using assms True by (simp add: addr_valid_def addr_zero_def)
next
  case False
  let ?p = "prefix_from start b"
  have wz: "addr128 (without_zone start) = addr128 start" "is4 (without_zone start) = is4 start"
     "bit_len (without_zone start) = bit_len start" "addr_valid (without_zone start) = addr_valid start"
    by (cases "addrz start"; simp add: without_zone_def is4_def bit_len_def addr_valid_def)+
  have v: "addr_valid start" "0 \<le> b" "b \<le> int (bit_len start)"
    using False by (auto simp: masked_def prefix_from_def split: if_splits)
  then have p: "?p = Prefix (without_zone start) b" by (simp add: prefix_from_def)
  have "\<exists>z. masked ?p = Prefix (Addr (addr128 start AND mask6 (eff_bits ?p)) z) b \<and> (z = Z4 \<longleftrightarrow> is4 start)"
    using v wz by (cases "addrz start")
      (auto simp: p masked_def prefix_from_def without_zone_def addr_valid_def bit_len_def is4_def)
  then obtain z where m: "masked ?p = Prefix (Addr (addr128 start AND mask6 (eff_bits ?p)) z) b"
    and z: "z = Z4 \<longleftrightarrow> is4 start" by blast
  have e: "eff_bits (masked ?p) = eff_bits ?p"
    using m z wz by (simp add: p eff_bits_def is4_def)
  have "addr128 (last_addr (masked ?p)) = addr128 start OR mask (128 - eff_bits ?p)"
    unfolding addr128_last_addr e by (subst m) (auto simp: mask6_def bit_eq_iff bit_simps)
  moreover have "unat (addr128 start) \<le> unat (addr128 start OR mask (128 - eff_bits ?p))"
  proof -
    let ?d = "2 ^ (128 - eff_bits ?p) :: nat"
    have "unat (addr128 start) < unat (addr128 start) div ?d * ?d + ?d"
      by (metis div_eq_interval zero_less_numeral zero_less_power)
    then show ?thesis by (subst unat_or_mask) simp_all
  qed
  ultimately show ?thesis by (simp add: aval_def)
qed

function range_loop :: "nat \<Rightarrow> addr \<Rightarrow> addr \<Rightarrow> nprefix list" where
  "range_loop bits start end =
     (if addr_compare start end \<le> 0 then
        let prefix = masked (prefix_from start (int (shrink_mask start end bits)));
            nextStart = addr_next (last_addr prefix)
        in prefix # (if \<not> addr_valid nextStart then [] else range_loop bits nextStart end)
      else [])"
  by pat_completeness auto
termination
proof (relation "measure (\<lambda>(bits, start, end). 2 ^ 128 - aval start)", goal_cases)
  case (2 bits start "end" prefix nextStart)
  then have v: "addr_valid (addr_next (last_addr prefix))" by simp
  have "aval start < aval nextStart"
    using addr_next_less(1) [OF v] le_last_addr v 2 by fastforce
  then show ?case using aval_less [of nextStart] by simp
qed simp

declare range_loop.simps [simp del]

definition range_to_cidr :: "addr \<Rightarrow> addr \<Rightarrow> nprefix list" where
  "range_to_cidr start end =
     (if is4 start \<noteq> is4 end \<or> addr_compare start end > 0 then []
      else range_loop (if is6 start then 128 else 32) start end)"

section \<open>The range is covered exactly, by maximal blocks\<close>

text \<open>The test of the inner loop: the block at \<open>start\<close> is aligned and ends by \<open>end\<close>.\<close>

definition fits :: "addr \<Rightarrow> addr \<Rightarrow> nat \<Rightarrow> bool" where
  "fits start end m =
     (let prefix = masked (prefix_from start (int m))
      in paddr prefix = start \<and> \<not> addr_compare (last_addr prefix) end > 0)"

lemma shrink_mask_fits:
  assumes "fits start end n"
  shows "shrink_mask start end n \<le> n" and "fits start end (shrink_mask start end n)"
    and "shrink_mask start end n = Suc m \<Longrightarrow> \<not> fits start end m"
proof -
  have step: "shrink_mask start end (Suc k) = (if fits start end k then shrink_mask start end k else Suc k)" for k
    by (simp add: fits_def Let_def)
  show "shrink_mask start end n \<le> n"
    by (induction n) (simp_all add: step del: shrink_mask.simps(2))
  show "fits start end (shrink_mask start end n)"
    using assms by (induction n) (simp_all add: step del: shrink_mask.simps(2))
  show "shrink_mask start end n = Suc m \<Longrightarrow> \<not> fits start end m"
    by (induction n) (auto simp: step simp del: shrink_mask.simps(2) split: if_splits)
qed

text \<open>A bound of a range: a valid address without a zone.\<close>

definition bound :: "addr \<Rightarrow> bool" where
  "bound a = (addr_wf a \<and> addr_valid a \<and> \<not> has_zone a)"

lemma bound_family: "bound a \<Longrightarrow> addrz a = Z4 \<or> addrz a = Z6 []"
  by (cases "addrz a") (auto simp: bound_def addr_valid_def has_zone_def)

lemma prefix_from_bound:
  assumes "bound a" "m \<le> bit_len a"
  shows "prefix_wf (prefix_from a (int m))" and "prefix_from a (int m) = Prefix a (int m)"
    and "host (prefix_from a (int m)) = bit_len a - m"
  using assms bound_family [OF assms(1)]
  by (auto simp: prefix_from_def bound_def prefix_wf_def host_def eff_bits_def is4_def bit_len_def)

lemma compare_same_family:
  assumes "addrz a = addrz b" "\<not> has_zone a"
  shows "addr_compare a b > 0 \<longleftrightarrow> aval b < aval a" and "addr_compare a b \<le> 0 \<longleftrightarrow> aval a \<le> aval b"
  using assms
  by (auto simp: addr_compare_def aval_def word_less_nat_alt bit_len_def is6_def split: family.splits)

lemma fits_iff:
  assumes "bound start" "addrz end = addrz start" "m \<le> bit_len start"
  shows "fits start end m \<longleftrightarrow> aval start mod 2 ^ (bit_len start - m) = 0
    \<and> aval start + 2 ^ (bit_len start - m) \<le> Suc (aval end)"
proof -
  let ?p = "prefix_from start (int m)" and ?h = "bit_len start - m"
  note p = prefix_from_bound [OF assms(1,3)]
  have al: "paddr (masked ?p) = start \<longleftrightarrow> aval start mod 2 ^ ?h = 0"
    unfolding addr_eq_iff paddr_masked(1,2) [OF p(1)] p(3) unfolding p(2)
    by (metis add_cancel_right_right div_mult_mod_eq nprefix.sel(1))
  have z: "addrz (last_addr (masked ?p)) = addrz start"
    unfolding aval_last_addr(2) [OF masked_wf [OF p(1)]] paddr_masked(2) [OF p(1)] by (simp add: p(2))
  moreover have "\<not> has_zone (last_addr (masked ?p))"
    using assms(1) z by (simp add: has_zone_def bound_def)
  ultimately have le: "\<not> addr_compare (last_addr (masked ?p)) end > 0 \<longleftrightarrow> aval (last_addr (masked ?p)) \<le> aval end"
    using assms(2) compare_same_family(1) [of "last_addr (masked ?p)" "end"] by (simp add: not_less)
  have "aval (last_addr (masked ?p)) = aval start + 2 ^ ?h - 1" if "aval start mod 2 ^ ?h = 0"
  proof -
    have "aval (paddr (masked ?p)) = aval start" using that al by simp
    moreover have "aval start div 2 ^ ?h * 2 ^ ?h = aval start" using that by auto
    ultimately show ?thesis
      by (simp add: aval_last_addr(1) masked_wf p(1) paddr_masked(4) p(3))
  qed
  moreover have "0 < (2::nat) ^ ?h" by simp
  ultimately show ?thesis unfolding fits_def Let_def al le by fastforce
qed

text \<open>One turn of the outer loop.\<close>

definition range_block :: "addr \<Rightarrow> addr \<Rightarrow> nprefix" where
  "range_block start end = masked (prefix_from start (int (shrink_mask start end (bit_len start))))"

lemma range_block_props:
  assumes "bound start" "addrz end = addrz start" "aval start \<le> aval end"
  shows "canonical (range_block start end)" and "paddr (range_block start end) = start"
    and "aval start + 2 ^ host (range_block start end) \<le> Suc (aval end)"
    and "aval (last_addr (range_block start end)) = aval start + 2 ^ host (range_block start end) - 1"
    and "addrz (last_addr (range_block start end)) = addrz start"
    and "host (range_block start end) < bit_len start \<Longrightarrow>
      \<not> (2 ^ Suc (host (range_block start end)) dvd aval start
         \<and> aval start + 2 ^ Suc (host (range_block start end)) \<le> Suc (aval end))"
proof -
  let ?m = "shrink_mask start end (bit_len start)" and ?b = "range_block start end"
  have f: "fits start end (bit_len start)" using assms by (simp add: fits_iff)
  note m = shrink_mask_fits [OF f]
  note p = prefix_from_bound [OF assms(1) m(1)]
  have al: "aval start mod 2 ^ (bit_len start - ?m) = 0"
    and top: "aval start + 2 ^ (bit_len start - ?m) \<le> Suc (aval end)"
    using m(2) fits_iff [OF assms(1,2) m(1)] by simp_all
  show c: "canonical ?b" using p(1) by (simp add: range_block_def canonical_masked)
  show a: "paddr ?b = start" using m(2) by (simp add: fits_def Let_def range_block_def)
  have h: "host ?b = bit_len start - ?m" using p by (simp add: range_block_def paddr_masked)
  show "aval start + 2 ^ host ?b \<le> Suc (aval end)" using top h by simp
  have "aval start div 2 ^ host ?b * 2 ^ host ?b = aval start"
    using al h by auto
  then show "aval (last_addr ?b) = aval start + 2 ^ host ?b - 1" "addrz (last_addr ?b) = addrz start"
    using c by (simp_all add: canonical_def aval_last_addr a)
  show "\<not> (2 ^ Suc (host ?b) dvd aval start \<and> aval start + 2 ^ Suc (host ?b) \<le> Suc (aval end))"
    if lt: "host ?b < bit_len start"
  proof -
    obtain k where k: "?m = Suc k" using lt h by (cases ?m) auto
    have "k \<le> bit_len start" and e: "bit_len start - k = Suc (host ?b)" using k m(1) h lt by simp_all
    then show ?thesis
      using m(3) [OF k] fits_iff [OF assms(1,2), of k] by (simp only: e mod_eq_0_iff_dvd) blast
  qed
qed

lemma same_block_next:
  assumes "n div d = k" "e div d = k" "n < e" "0 < d"
  shows "Suc n mod d \<noteq> 0" and "Suc n div d = k"
proof -
  have n: "k * d \<le> n" and e: "e < k * d + d"
    using assms div_eq_interval [of d n e] div_eq_interval [of d e n] by simp_all
  show q: "Suc n div d = k"
    using n e assms(3) by (intro div_nat_eqI) (simp_all add: algebra_simps)
  show "Suc n mod d \<noteq> 0"
  proof
    assume "Suc n mod d = 0"
    then have "Suc n = k * d" using q by (metis add_0_right div_mult_mod_eq)
    then show False using n by simp
  qed
qed

lemma addr_next_below:
  assumes "addr_wf a" "addr_valid a" "addr_wf e" "addrz e = addrz a" "aval a < aval e"
  shows "addr_valid (addr_next a)"
proof -
  have lt: "Suc (aval a) < 2 ^ LENGTH(128)" using assms(5) aval_less [of e] by simp
  have "unat (addr128 a + 1) = Suc (aval a) mod 2 ^ LENGTH(128)"
    using unat_word_ariths(1) [of "addr128 a" 1] by (simp only: unsigned_1 aval_def Suc_eq_plus1)
  also have "\<dots> = Suc (aval a)" using lt by (rule mod_less)
  finally have u: "unat (addr128 a + 1) = Suc (aval a)" .
  have w: "addr128 a + 1 \<noteq> 0" using u by (metis nat.distinct(1) unat_0)
  have "take_bit 32 (addr128 a + 1) \<noteq> 0" if "is4 a"
  proof
    assume "take_bit 32 (addr128 a + 1) = 0"
    then have "unat (take_bit 32 (addr128 a + 1)) = 0" by (simp only: unat_0)
    then have z: "Suc (aval a) mod 2 ^ 32 = 0" by (simp only: unsigned_take_bit_eq u take_bit_eq_mod [where 'a = nat])
    have "aval a div 2 ^ 32 = 0xFFFF" "aval e div 2 ^ 32 = 0xFFFF"
      using assms(1,3,4) that by (simp_all only: addr_wf_iff is4_def family.case)
    then show False using same_block_next(1) [of "aval a" "2 ^ 32"] assms(5) z by simp
  qed
  then show ?thesis
    using w assms(2) by (simp add: addr_next_def Let_def addr_valid_def)
qed

text \<open>The addresses between two bounds of one family.\<close>

definition between :: "addr \<Rightarrow> addr \<Rightarrow> addr set" where
  "between start end = {a. addr_wf a \<and> addrz a = addrz start \<and> aval start \<le> aval a \<and> aval a \<le> aval end}"

definition maximal_at :: "addr \<Rightarrow> nprefix \<Rightarrow> bool" where
  "maximal_at end p = (host p < bit_len (paddr p) \<longrightarrow>
     \<not> (2 ^ Suc (host p) dvd aval (paddr p) \<and> aval (paddr p) + 2 ^ Suc (host p) \<le> Suc (aval end)))"

definition range_ok :: "addr \<Rightarrow> addr \<Rightarrow> nprefix list \<Rightarrow> bool" where
  "range_ok start end ps =
     ((\<forall>p \<in> set ps. canonical p \<and> addrz (paddr p) = addrz start \<and> aval start \<le> aval (paddr p)
        \<and> maximal_at end p)
      \<and> sorted_wrt before ps \<and> covered ps = between start end)"

lemma range_loop_step:
  assumes "bound start" "addrz end = addrz start" "aval start \<le> aval end"
  shows "range_loop (bit_len start) start end =
    range_block start end #
      (if \<not> addr_valid (addr_next (last_addr (range_block start end))) then []
       else range_loop (bit_len start) (addr_next (last_addr (range_block start end))) end)"
  using assms compare_same_family(2) [of start "end"]
  by (subst range_loop.simps) (simp add: range_block_def bound_def Let_def)

lemma range_ok_single:
  assumes "canonical b" "paddr b = start" "maximal_at end b" "block b = between start end"
  shows "range_ok start end [b]"
  using assms by (simp add: range_ok_def covered_def)

lemma range_ok_Cons:
  assumes "canonical b" "paddr b = start" "maximal_at end b" "range_ok next end ps"
    "block b \<union> between next end = between start end" "addrz next = addrz start"
    "aval next = aval start + 2 ^ host b"
  shows "range_ok start end (b # ps)"
  using assms by (auto simp: range_ok_def covered_Cons before_def)

lemma range_loop_correct:
  assumes "bound start" "bound end" "addrz end = addrz start" "aval start \<le> aval end"
  shows "range_ok start end (range_loop (bit_len start) start end)"
  using assms
proof (induction "Suc (aval end) - aval start" arbitrary: start rule: less_induct)
  case less
  let ?b = "range_block start end"
  let ?next = "addr_next (last_addr ?b)"
  note b = range_block_props [OF less.prems(1,3,4)]
  have blk: "block ?b = {a. addr_wf a \<and> addrz a = addrz start \<and> aval start \<le> aval a
      \<and> aval a < aval start + 2 ^ host ?b}"
    using b(1,2) by (auto simp: block_interval)
  have pos: "0 < (2::nat) ^ host ?b" by simp
  have mx: "maximal_at end ?b" using b(6) by (simp add: maximal_at_def b(2))
  show ?case
  proof (cases "aval start + 2 ^ host ?b = Suc (aval end)")
    case True
    have "(if \<not> addr_valid ?next then [] else range_loop (bit_len start) ?next end) = []"
    proof (cases "addr_valid ?next")
      case v: True
      have "aval end < aval ?next" "addrz ?next = addrz start"
        using addr_next_less [OF v] b(4,5) True pos by auto
      moreover have "\<not> has_zone ?next"
        using less.prems(1) calculation by (simp add: has_zone_def bound_def)
      ultimately have "\<not> addr_compare ?next end \<le> 0"
        using compare_same_family(2) [of ?next "end"] less.prems by simp
      then show ?thesis by (simp add: range_loop.simps [of _ ?next])
    qed simp
    moreover have "block ?b = between start end"
      unfolding blk between_def True by (simp add: less_Suc_eq_le)
    ultimately show ?thesis
      using range_ok_single [OF b(1,2) mx] range_loop_step [OF less.prems(1,3,4)] by simp
  next
    case False
    then have lt: "aval (last_addr ?b) < aval end" using b(3,4) pos by linarith
    have wf: "addr_wf (last_addr ?b)"
    proof -
      have "mk_addr (addrz start) (aval start + 2 ^ host ?b - 1) = last_addr ?b"
        using b(4,5) by (metis aval_mk_addr aval_less addr_eq_iff addrz_mk_addr)
      moreover have "aval start \<le> aval start + 2 ^ host ?b - 1" using pos by linarith
      then have "mk_addr (addrz start) (aval start + 2 ^ host ?b - 1) \<in> block ?b"
        using mk_addr_in_block [OF b(1), of "aval start + 2 ^ host ?b - 1"] b(2) pos by simp
      ultimately show ?thesis by (simp add: block_def)
    qed
    have v: "addr_valid ?next"
      using less.prems wf lt b(5) by (intro addr_next_below [of _ "end"]) (simp_all add: bound_def addr_valid_def)
    have nx: "aval ?next = aval start + 2 ^ host ?b" "addrz ?next = addrz start"
      using addr_next_less [OF v] b(4,5) pos by auto
    have nb: "bound ?next"
    proof (cases "addrz start = Z4")
      case True
      have "aval (last_addr ?b) div 2 ^ 32 = 0xFFFF" "aval end div 2 ^ 32 = 0xFFFF"
        using True wf less.prems b(5) by (auto simp: addr_wf_iff bound_def)
      then have "aval ?next div 2 ^ 32 = 0xFFFF"
        unfolding addr_next_less(1) [OF v] using lt by (intro same_block_next(2)) simp_all
      then show ?thesis using True nx v by (simp add: bound_def addr_wf_iff has_zone_def)
    next
      case False
      then show ?thesis
        using nx v bound_family [OF less.prems(1)] by (simp add: bound_def addr_wf_iff has_zone_def)
    qed
    have bl: "bit_len ?next = bit_len start" using nx by (simp add: bit_len_def)
    have nxle: "aval ?next \<le> aval end" and m: "Suc (aval end) - aval ?next < Suc (aval end) - aval start"
      using less.prems(4) nx(1) lt addr_next_less(1) [OF v] pos by linarith+
    have "range_ok ?next end (range_loop (bit_len ?next) ?next end)"
      using less.prems(2,3) nx(2) nxle by (intro less.hyps [OF m nb]) simp_all
    then have ok: "range_ok ?next end (range_loop (bit_len start) ?next end)" by (simp add: bl)
    have "block ?b \<union> between ?next end = between start end"
      using nx lt addr_next_less(1) [OF v] pos by (auto simp: blk between_def)
    then have "range_ok start end (?b # range_loop (bit_len start) ?next end)"
      using ok nx by (intro range_ok_Cons [OF b(1,2) mx])
    then show ?thesis using v range_loop_step [OF less.prems(1,3,4)] by simp
  qed
qed

lemma block_top:
  assumes "canonical q" "block q \<subseteq> between start end"
  shows "aval (paddr q) + 2 ^ host q \<le> Suc (aval end)"
proof -
  have pos: "0 < (2::nat) ^ host q" by simp
  have "aval (paddr q) \<le> aval (paddr q) + 2 ^ host q - 1" "aval (paddr q) + 2 ^ host q - 1 < aval (paddr q) + 2 ^ host q"
    using pos by linarith+
  note m = mk_addr_in_block [OF assms(1) this]
  have "aval (mk_addr (addrz (paddr q)) (aval (paddr q) + 2 ^ host q - 1)) \<le> aval end"
    using m(1) assms(2) by (auto simp: between_def)
  then show ?thesis using m(2) pos by linarith
qed

lemma maximal_no_sibling:
  assumes "canonical p" "canonical q" "before p q" "maximal_at end p" "block q \<subseteq> between start end"
  shows "\<not> can_merge p q"
proof
  assume cm: "can_merge p q"
  note h = halves_merge [OF assms(1,2) cm assms(3)]
  note pp = parent_props [OF assms(1) h(4)]
  have "2 ^ Suc (host p) dvd aval (paddr p)"
    using pp(1,3) h(3) by (simp add: canonical_iff mod_eq_0_iff_dvd)
  moreover have "aval (paddr p) + 2 ^ Suc (host p) \<le> Suc (aval end)"
    using block_top [OF assms(2,5)] h(2,5) by simp
  moreover have "host p < bit_len (paddr p)"
    using h(4) prefix_wf_hostD(1) [of p] assms(1) by (simp add: canonical_def)
  ultimately show False using assms(4) by (simp add: maximal_at_def)
qed

lemma range_ok_reduced:
  assumes "range_ok start end ps"
  shows "reduced canonical block can_merge ps"
proof -
  have sub: "block q \<subseteq> between start end" if "q \<in> set ps" for q
    using assms that by (auto simp: range_ok_def covered_def)
  have "\<not> can_merge p q" if "p \<in> set ps" "q \<in> set ps" "p \<noteq> q" for p q
  proof -
    have "before p q \<or> before q p"
      using assms that unfolding range_ok_def sorted_wrt_iff_nth_less
      by (metis in_set_conv_nth nat_neq_iff)
    then show ?thesis
      using that assms sub maximal_no_sibling [of p q "end" start] maximal_no_sibling [of q p "end" start]
        can_merge_sym [of p q] by (auto simp: range_ok_def)
  qed
  then show ?thesis
    using assms sorted_before_disjoint [of ps] by (simp add: reduced_def range_ok_def)
qed

lemma bound_le_iff:
  assumes "bound a" "addrz a = addrz b"
  shows "a \<le> b \<longleftrightarrow> aval a \<le> aval b"
  using assms compare_same_family(2) by (simp add: less_eq_addr_def bound_def)

lemma between_interval:
  assumes "bound start" "addrz start = addrz end"
  shows "between start end = {a. bound a \<and> start \<le> a \<and> a \<le> end}"
proof -
  have "bound a \<and> start \<le> a \<and> a \<le> end \<longleftrightarrow> a \<in> between start end" for a
  proof (cases "addrz a = addrz start")
    case True
    have "bound a \<longleftrightarrow> addr_wf a"
      using True assms(1) by (auto simp: bound_def addr_valid_def has_zone_def)
    then show ?thesis
      using bound_le_iff [of a "end"] bound_le_iff [OF assms(1), of a] True assms
      by (auto simp: between_def)
  next
    case False
    then have "a \<notin> between start end" by (simp add: between_def)
    moreover have "\<not> (bound a \<and> start \<le> a \<and> a \<le> end)"
    proof
      assume *: "bound a \<and> start \<le> a \<and> a \<le> end"
      then have "bit_len a \<noteq> bit_len start"
        using False bound_family [of a] bound_family [OF assms(1)] by (auto simp: bit_len_def)
      moreover have "bit_len end = bit_len start" using assms(2) by (simp add: bit_len_def)
      ultimately show False
        using * by (auto simp: less_eq_addr_def addr_compare_def split: if_splits)
    qed
    ultimately show ?thesis by simp
  qed
  then show ?thesis by blast
qed

lemma range_to_cidr_ok:
  assumes "bound start" "bound end" "addrz start = addrz end" "start \<le> end"
  shows "range_ok start end (range_to_cidr start end)"
proof -
  have "(if is6 start then 128 else 32) = bit_len start"
    using bound_family [OF assms(1)] by (auto simp: is6_def bit_len_def)
  moreover have "aval start \<le> aval end" using assms bound_le_iff by blast
  ultimately show ?thesis
    using range_loop_correct [OF assms(1,2)] assms(3,4)
    by (simp add: range_to_cidr_def less_eq_addr_def is4_def)
qed

lemma range_to_cidr_empty:
  assumes "bound start" "bound end" "addrz start \<noteq> addrz end \<or> end < start"
  shows "range_to_cidr start end = []"
  using assms addr_compare_cases(2) [of "end" start] bound_family [OF assms(1)] bound_family [OF assms(2)]
  by (auto simp: range_to_cidr_def less_addr_def is4_def)

lemma range_to_cidr_canonical:
  assumes "bound start" "bound end"
  shows "\<forall>p \<in> set (range_to_cidr start end). canonical p"
  using range_to_cidr_ok [OF assms] range_to_cidr_empty [OF assms]
  by (cases "addrz start = addrz end \<and> start \<le> end") (auto simp: range_ok_def not_le)

lemma range_covered:
  assumes "bound start" "bound end"
  shows "covered (range_to_cidr start end) =
    (if addrz start = addrz end then {a. bound a \<and> start \<le> a \<and> a \<le> end} else {})"
proof (cases "addrz start = addrz end \<and> start \<le> end")
  case True
  then show ?thesis
    using range_to_cidr_ok [OF assms] between_interval [OF assms(1)] by (simp add: range_ok_def)
next
  case False
  then have "range_to_cidr start end = []"
    by (intro range_to_cidr_empty [OF assms]) auto
  then show ?thesis using False by (auto simp: covered_def)
qed

text \<open>C12: rangeToCIDR on zone-free bounds returns prefixes that cover exactly the addresses from start to
  end inclusive, and nothing when the families differ or start is after end.\<close>

theorem range_to_cidr_covers:
  assumes "bound start" "bound end"
  shows "covered (range_to_cidr start end) =
    (if addrz start = addrz end then {a. bound a \<and> start \<le> a \<and> a \<le> end} else {})"
  using assms by (rule range_covered)

lemma range_to_cidr_aggregated:
  assumes "bound start" "bound end"
  shows "aggregate (range_to_cidr start end) = range_to_cidr start end"
proof (cases "addrz start = addrz end \<and> start \<le> end")
  case True
  then have ok: "range_ok start end (range_to_cidr start end)"
    using range_to_cidr_ok [OF assms] by blast
  note a = aggregate_reduced [OF range_to_cidr_canonical [OF assms]]
  show ?thesis
    using ok a(3)
    by (intro reduced_sorted_unique [OF a(1,2) range_ok_reduced [OF ok]]) (simp_all add: range_ok_def)
next
  case False
  then have "range_to_cidr start end = []"
    by (intro range_to_cidr_empty [OF assms]) auto
  then show ?thesis by (simp add: aggregate_def)
qed

text \<open>C13: rangeToCIDR returns the minimal set its comment promises: any list of masked prefixes covering
  the same range is at least as long (zone-free bounds of one family).\<close>

theorem range_to_cidr_minimal:
  assumes "bound start" "bound end" "\<forall>q \<in> set qs. canonical q"
    "addrz start = addrz end" "covered qs = {a. bound a \<and> start \<le> a \<and> a \<le> end}"
  shows "length (range_to_cidr start end) \<le> length qs"
proof (cases "start \<le> end")
  case True
  then have ok: "range_ok start end (range_to_cidr start end)"
    using range_to_cidr_ok [OF assms(1,2,4)] by blast
  have "covered qs = between start end"
    unfolding assms(5) between_interval [OF assms(1,4)] ..
  then show ?thesis
    using ok by (intro cidr.reduced_minimal [OF range_ok_reduced [OF ok] assms(3)])
      (simp add: range_ok_def covered_def)
next
  case False
  then have "range_to_cidr start end = []"
    by (intro range_to_cidr_empty [OF assms(1,2)]) auto
  then show ?thesis by simp
qed

section \<open>Concrete inputs\<close>

lemma addrz_from4: "addrz (addr_from4 w) = Z4"
  by (simp add: addr_from4_def)

lemma sample_bounds: "bound (addr_from4 0x0A000001)" "bound (addr_from4 0x0A000003)"
  by code_simp+

lemma range_to_cidr_covers_witness:
  "covered (range_to_cidr (addr_from4 0x0A000001) (addr_from4 0x0A000003)) =
     {a. bound a \<and> addr_from4 0x0A000001 \<le> a \<and> a \<le> addr_from4 0x0A000003}"
  using range_to_cidr_covers [OF sample_bounds] by (simp add: addrz_from4)

lemma sample_range:
  "range_to_cidr (addr_from4 0x0A000001) (addr_from4 0x0A000003) =
     [Prefix (addr_from4 0x0A000001) 32, Prefix (addr_from4 0x0A000002) 31]"
  by code_simp

lemma range_to_cidr_minimal_witness:
  "length [Prefix (addr_from4 0x0A000001) 32, Prefix (addr_from4 0x0A000002) 31] \<le>
     length [Prefix (addr_from4 0x0A000002) 31, Prefix (addr_from4 0x0A000001) 32]"
proof -
  let ?qs = "[Prefix (addr_from4 0x0A000002) 31, Prefix (addr_from4 0x0A000001) 32]"
  have "\<forall>q \<in> set ?qs. canonical q" by code_simp
  moreover have "covered ?qs = {a. bound a \<and> addr_from4 0x0A000001 \<le> a \<and> a \<le> addr_from4 0x0A000003}"
    using range_covered [OF sample_bounds] sample_range by (auto simp: covered_def addrz_from4)
  ultimately show ?thesis
    using range_to_cidr_minimal [OF sample_bounds, of ?qs] sample_range by (simp add: addrz_from4)
qed

end
