(* ===== verification/NetipText.thy ===== *)
theory NetipText
  imports Ranges
begin

text \<open>
  The text forms of addresses and prefixes: \<open>netip.ParseAddr\<close>, \<open>netip.ParsePrefix\<close> and the
  two \<open>String\<close> methods of the standard library, with the messages their errors carry.
  The results: whatever parses is well formed, so its masked form is canonical, and every
  IPv4 address is read back from its text.
\<close>

section \<open>Numbers\<close>

definition dec_value :: "string \<Rightarrow> nat" where
  "dec_value s = foldl (\<lambda>n c. n * 10 + digit_val c) 0 s"

text \<open>\<open>strconv.Atoi\<close> on a 64-bit platform.\<close>

definition atoi :: "string \<Rightarrow> int option" where
  "atoi s =
     (let neg = (s \<noteq> [] \<and> hd s = CHR ''-'');
          t = (if neg \<or> s \<noteq> [] \<and> hd s = CHR ''+'' then tl s else s);
          n = int (dec_value t)
      in if t = [] \<or> \<not> list_all is_digit t then None
         else if neg then (if n \<le> 2 ^ 63 then Some (- n) else None)
         else if n < 2 ^ 63 then Some n else None)"

section \<open>Parsing\<close>

text \<open>An error of the parsers: the message and the \<open>at\<close> part of \<open>parseAddrError\<close>.\<close>

type_synonym parse_err = "string \<times> string"

text \<open>\<open>parseIPv4Fields\<close>: the previous byte, the value and digit count of the open field, the fields read.\<close>

fun v4_fields :: "string \<Rightarrow> char option \<Rightarrow> nat \<Rightarrow> nat \<Rightarrow> nat list \<Rightarrow> parse_err + nat list" where
  "v4_fields [] prev val digLen fields =
     (if length fields < 3 then Inl (''IPv4 address too short'', []) else Inr (fields @ [val]))"
| "v4_fields (c # s) prev val digLen fields =
     (if is_digit c then
        if digLen = 1 \<and> val = 0 then Inl (''IPv4 field has octet with leading zero'', [])
        else if val * 10 + digit_val c > 255 then Inl (''IPv4 field has value >255'', [])
        else v4_fields s (Some c) (val * 10 + digit_val c) (digLen + 1) fields
      else if c = CHR ''.'' then
        if prev = None \<or> s = [] \<or> prev = Some (CHR ''.'')
        then Inl (''IPv4 field must have at least one digit'', c # s)
        else if length fields = 3 then Inl (''IPv4 address too long'', [])
        else v4_fields s (Some c) 0 0 (fields @ [val])
      else Inl (''unexpected character'', c # s))"

text \<open>The value of big-endian bytes.\<close>

definition bytes_value :: "nat list \<Rightarrow> nat" where
  "bytes_value bs = foldl (\<lambda>n b. n * 256 + b) 0 bs"

definition parse_ipv4 :: "string \<Rightarrow> parse_err + addr" where
  "parse_ipv4 s = map_sum id (\<lambda>fs. addr_from4 (of_nat (bytes_value fs))) (v4_fields s None 0 0 [])"

text \<open>One group of hex digits: the digits read, their value, the rest; \<open>s0\<close> is the text at its start.\<close>

fun hex_group :: "string \<Rightarrow> string \<Rightarrow> nat \<Rightarrow> nat \<Rightarrow> parse_err + nat \<times> nat \<times> string" where
  "hex_group s0 [] off acc = Inr (off, acc, [])"
| "hex_group s0 (c # s) off acc =
     (case hex_val c of
        None \<Rightarrow> Inr (off, acc, c # s)
      | Some v \<Rightarrow>
          if off > 3 then Inl (''each group must have 4 or less digits'', s0)
          else if acc * 16 + v > 65535 then Inl (''IPv6 field has value >=2^16'', s0)
          else hex_group s0 s (off + 1) (acc * 16 + v))"

lemma hex_group_length:
  "hex_group s0 s off acc = Inr (off', acc', rest) \<Longrightarrow> length rest + off' = length s + off"
  by (induction s arbitrary: off acc) (auto split: option.splits if_splits)

text \<open>The main loop of \<open>parseIPv6\<close>: the bytes so far, the place of the ellipsis; the rest is returned.\<close>

function v6_loop :: "string \<Rightarrow> nat list \<Rightarrow> nat option \<Rightarrow> parse_err + nat list \<times> nat option \<times> string" where
  "v6_loop s ip ell =
     (if length ip \<ge> 16 then Inr (ip, ell, s)
      else case hex_group s s 0 0 of
        Inl e \<Rightarrow> Inl e
      | Inr (off, acc, rest) \<Rightarrow>
          if off = 0 then Inl (''each colon-separated field must have at least one digit'', s)
          else if rest \<noteq> [] \<and> hd rest = CHR ''.'' then
            if ell = None \<and> length ip \<noteq> 12
            then Inl (''embedded IPv4 address must replace the final 2 fields of the address'', s)
            else if length ip + 4 > 16
            then Inl (''too many hex fields to fit an embedded IPv4 at the end of the address'', s)
            else map_sum id (\<lambda>fs. (ip @ fs, ell, [])) (v4_fields s None 0 0 [])
          else
            let ip' = ip @ [acc div 256, acc mod 256] in
            if rest = [] then Inr (ip', ell, [])
            else if hd rest \<noteq> CHR '':'' then Inl (''unexpected character, want colon'', rest)
            else if tl rest = [] then Inl (''colon must be followed by more characters'', rest)
            else if hd (tl rest) = CHR '':'' then
              if ell \<noteq> None then Inl (''multiple :: in address'', tl rest)
              else if tl (tl rest) = [] then Inr (ip', Some (length ip'), [])
              else v6_loop (tl (tl rest)) ip' (Some (length ip'))
            else v6_loop (tl rest) ip' ell)"
  by pat_completeness auto
termination
  by (relation "measure (\<lambda>(s, ip, ell). length s)") (auto dest!: hex_group_length)

declare v6_loop.simps [simp del]

text \<open>The ellipsis expanded: zero bytes inserted at its place up to sixteen.\<close>

definition expand_ellipsis :: "nat list \<Rightarrow> nat \<Rightarrow> nat list" where
  "expand_ellipsis ip e = take e ip @ replicate (16 - length ip) 0 @ drop e ip"

definition addr_from_bytes :: "nat list \<Rightarrow> string \<Rightarrow> addr" where
  "addr_from_bytes bs zn = Addr (of_nat (bytes_value bs)) (Z6 zn)"

definition parse_ipv6 :: "string \<Rightarrow> parse_err + addr" where
  "parse_ipv6 in0 =
     (let s0 = takeWhile (\<lambda>c. c \<noteq> CHR ''%'') in0;
          zoned = (CHR ''%'' \<in> set in0);
          zn = (if zoned then tl (dropWhile (\<lambda>c. c \<noteq> CHR ''%'') in0) else [])
      in if zoned \<and> zn = [] then Inl (''zone must be a non-empty string'', [])
         else let lead = has_prefix s0 ''::'';
                  s = (if lead then drop 2 s0 else s0);
                  ell = (if lead then Some 0 else None)
              in if lead \<and> s = [] then Inr (addr_from_bytes [] zn)
                 else case v6_loop s [] ell of
                   Inl e \<Rightarrow> Inl e
                 | Inr (ip, ell', rest) \<Rightarrow>
                     if rest \<noteq> [] then Inl (''trailing garbage after address'', rest)
                     else if length ip < 16 then
                       (case ell' of
                          None \<Rightarrow> Inl (''address string too short'', [])
                        | Some e \<Rightarrow> Inr (addr_from_bytes (expand_ellipsis ip e) zn))
                     else if ell' \<noteq> None
                     then Inl (''the :: must expand to at least one field of zeros'', [])
                     else Inr (addr_from_bytes ip zn))"

text \<open>\<open>ParseAddr\<close> looks for the first of the bytes \<open>.\<close>, \<open>:\<close> and \<open>%\<close>.\<close>

definition parse_addr_raw :: "string \<Rightarrow> parse_err + addr" where
  "parse_addr_raw s =
     (case List.find (\<lambda>c. c = CHR ''.'' \<or> c = CHR '':'' \<or> c = CHR ''%'') s of
        None \<Rightarrow> Inl (''unable to parse IP'', [])
      | Some c \<Rightarrow>
          if c = CHR ''.'' then parse_ipv4 s
          else if c = CHR '':'' then parse_ipv6 s
          else Inl (''missing IPv6 address'', []))"

definition parse_addr :: "string \<Rightarrow> addr res" where
  "parse_addr s =
     map_sum (\<lambda>(msg, at). GoErr [] (''ParseAddr('' @ go_quote s @ ''): '' @ msg @
         (if at \<noteq> [] then '' (at '' @ go_quote at @ '')'' else []))) id (parse_addr_raw s)"

text \<open>\<open>bytealg.LastIndexByteString\<close> as the text before and after the last separator.\<close>

definition cut_last :: "char \<Rightarrow> string \<Rightarrow> (string \<times> string) option" where
  "cut_last c s =
     (if c \<in> set s
      then Some (rev (tl (dropWhile (\<lambda>d. d \<noteq> c) (rev s))), rev (takeWhile (\<lambda>d. d \<noteq> c) (rev s)))
      else None)"

definition prefix_err :: "string \<Rightarrow> string \<Rightarrow> go_error" where
  "prefix_err s msg = GoErr [] (''netip.ParsePrefix('' @ go_quote s @ ''): '' @ msg)"

definition parse_prefix :: "string \<Rightarrow> nprefix res" where
  "parse_prefix s =
     (case cut_last (CHR ''/'') s of
        None \<Rightarrow> Inl (prefix_err s (''no '' @ [CHR 0x27, CHR ''/'', CHR 0x27]))
      | Some (ipStr, bitsStr) \<Rightarrow>
          (case parse_addr ipStr of
             Inl e \<Rightarrow> Inl (prefix_err s (err_msg e))
           | Inr ip \<Rightarrow>
               if has_zone ip then Inl (prefix_err s ''IPv6 zones cannot be present in a prefix'')
               else if length bitsStr > 1 \<and> (hd bitsStr < CHR ''1'' \<or> hd bitsStr > CHR ''9'')
               then Inl (prefix_err s (''bad bits after slash: '' @ go_quote bitsStr))
               else case atoi bitsStr of
                 None \<Rightarrow> Inl (prefix_err s (''bad bits after slash: '' @ go_quote bitsStr))
               | Some bits \<Rightarrow>
                   if bits < 0 \<or> bits > (if is6 ip then 128 else 32)
                   then Inl (prefix_err s ''prefix length out of range'')
                   else Inr (prefix_from ip bits)))"

section \<open>Printing\<close>

text \<open>The bytes of a 32-bit value, and the sixteen-bit groups of an address.\<close>

definition string4 :: "addr \<Rightarrow> string" where
  "string4 a =
     (let n = unat (addr128 a) in
      nat_str (n div 2 ^ 24 mod 256) @ ''.'' @ nat_str (n div 2 ^ 16 mod 256) @ ''.'' @
      nat_str (n div 2 ^ 8 mod 256) @ ''.'' @ nat_str (n mod 256))"

definition v6_groups :: "addr \<Rightarrow> nat list" where
  "v6_groups a = map (\<lambda>i. unat (addr128 a) div 2 ^ (112 - 16 * i) mod 65536) [0, 1, 2, 3, 4, 5, 6, 7]"

fun hex_str :: "nat \<Rightarrow> string" where
  "hex_str n = (if n < 16 then [hex_digit n] else hex_str (n div 16) @ [hex_digit (n mod 16)])"

declare hex_str.simps [simp del]

text \<open>
  \<open>appendTo6\<close> first finds the longest run of at least two zero groups (the first such), then
  writes the groups, two colons for the run. The pair starts as \<open>(255, 255)\<close>.
\<close>

definition zero_run_from :: "nat list \<Rightarrow> nat \<Rightarrow> nat" where
  "zero_run_from gs i = length (takeWhile (\<lambda>g. g = 0) (drop i gs))"

definition zero_run :: "nat list \<Rightarrow> nat \<times> nat" where
  "zero_run gs =
     foldl (\<lambda>(zs, ze) i. let l = zero_run_from gs i in
              if 2 \<le> l \<and> ze - zs < l then (i, i + l) else (zs, ze))
       (255, 255) [0, 1, 2, 3, 4, 5, 6, 7]"

definition colon_groups :: "nat list \<Rightarrow> string" where
  "colon_groups gs = str_join '':'' (map hex_str gs)"

definition string6 :: "addr \<Rightarrow> string" where
  "string6 a =
     (let gs = v6_groups a; (zs, ze) = zero_run gs
      in (if zs < 8 then colon_groups (take zs gs) @ ''::'' @ colon_groups (drop ze gs)
          else colon_groups gs) @
         (case addrz a of Z6 z \<Rightarrow> if z \<noteq> [] then CHR ''%'' # z else [] | _ \<Rightarrow> []))"

definition string4in6 :: "addr \<Rightarrow> string" where
  "string4in6 a = ''::ffff:'' @ string4 (unmap a) @
     (case addrz a of Z6 z \<Rightarrow> if z \<noteq> [] then CHR ''%'' # z else [] | _ \<Rightarrow> [])"

definition addr_string :: "addr \<Rightarrow> string" where
  "addr_string a =
     (case addrz a of
        Z0 \<Rightarrow> ''invalid IP''
      | Z4 \<Rightarrow> string4 a
      | Z6 _ \<Rightarrow> if is4in6 a then string4in6 a else string6 a)"

definition prefix_string :: "nprefix \<Rightarrow> string" where
  "prefix_string p =
     (if prefix_valid p then addr_string (paddr p) @ ''/'' @ int_str (pbits p) else ''invalid Prefix'')"

section \<open>Whatever parses is well formed\<close>

lemma ucast_high [simp]: "drop_bit 32 (ucast (w :: 32 word) :: 128 word) = 0"
  by (rule bit_word_eqI) (auto simp: bit_simps dest: bit_imp_le_length)

lemma addr_from4_wf [simp]: "addr_wf (addr_from4 w)" "addrz (addr_from4 w) = Z4"
  by (simp_all add: addr_wf_def addr_from4_def)

lemma parse_ipv6_wf: "parse_ipv6 s = Inr a \<Longrightarrow> \<exists>z. addrz a = Z6 z"
  by (auto simp: parse_ipv6_def Let_def addr_from_bytes_def split: if_splits sum.splits option.splits)

lemma parse_addr_wf:
  assumes "parse_addr s = Inr a"
  shows "addr_wf a" and "addr_valid a"
proof -
  have "parse_addr_raw s = Inr a"
    using assms by (cases "parse_addr_raw s") (auto simp: parse_addr_def)
  then have "(\<exists>w. a = addr_from4 w) \<or> (\<exists>z. addrz a = Z6 z)"
    by (auto simp: parse_addr_raw_def parse_ipv4_def map_sum_def dest: parse_ipv6_wf
        split: option.splits if_splits sum.splits)
  then show "addr_wf a" "addr_valid a"
    by (auto simp: addr_wf_def addr_valid_def addr_from4_def)
qed

lemma prefix_from_wf:
  assumes "addr_wf a" "addr_valid a" "\<not> has_zone a" "0 \<le> b" "b \<le> (if is6 a then 128 else 32)"
  shows "prefix_wf (prefix_from a b)"
proof -
  have "(if is6 a then 128 else 32) = int (bit_len a)"
    using assms(2) by (auto simp: is6_def bit_len_def addr_valid_def split: family.splits)
  then show ?thesis using assms by (simp add: prefix_from_def prefix_wf_def)
qed

lemma parse_prefix_wf:
  assumes "parse_prefix s = Inr p"
  shows "prefix_wf p"
  using assms
  by (auto simp: parse_prefix_def dest: parse_addr_wf intro!: prefix_from_wf
      split: option.splits sum.splits if_splits)

section \<open>IPv4 text is read back\<close>

lemma dec_value_nat_str: "dec_value (nat_str n) = n"
proof (induction n rule: nat_str.induct)
  case (1 n)
  then show ?case
    by (simp add: nat_str.simps [of n] dec_value_def digit_char_props)
qed

lemma v4_field_read:
  assumes "n < 256"
  shows "v4_fields (nat_str n @ s) prev 0 0 fs =
    v4_fields s (Some (last (nat_str n))) n (length (nat_str n)) fs"
proof -
  consider "n < 10" | "10 \<le> n" "n < 100" | "100 \<le> n" by linarith
  then show ?thesis
  proof cases
    case 1
    then show ?thesis by (simp add: nat_str.simps digit_char_props)
  next
    case 2
    obtain d e where n: "n = d * 10 + e" "d < 10" "e < 10" "d \<noteq> 0"
      using 2 by (intro that [of "n div 10" "n mod 10"]) auto
    then have "nat_str n = [digit_char d, digit_char e]"
      by (simp add: nat_str_step nat_str_digit)
    then show ?thesis using n assms by (simp add: digit_char_props)
  next
    case 3
    obtain c d e where n: "n = (c * 10 + d) * 10 + e" "c < 10" "d < 10" "e < 10" "c \<noteq> 0"
    proof (rule that [of "n div 10 div 10" "n div 10 mod 10" "n mod 10"])
      show "n = (n div 10 div 10 * 10 + n div 10 mod 10) * 10 + n mod 10"
        by (simp only: div_mult_mod_eq)
      show "n div 10 div 10 < 10" "n div 10 div 10 \<noteq> 0" using 3 assms by linarith+
    qed simp_all
    then have "nat_str n = [digit_char c, digit_char d, digit_char e]"
      unfolding n(1) by (subst nat_str_step) (simp_all add: nat_str_step nat_str_digit)
    then show ?thesis using n assms by (simp add: digit_char_props)
  qed
qed

lemma v4_dot:
  assumes "is_digit c" "length fs < 3" "s \<noteq> []"
  shows "v4_fields (CHR ''.'' # s) (Some c) n k fs = v4_fields s (Some (CHR ''.'')) 0 0 (fs @ [n])"
proof -
  have "\<not> is_digit (CHR ''.'')" by (simp add: is_digit_def)
  then show ?thesis using assms is_digit_not(1) [OF assms(1)] by simp
qed

lemma v4_read:
  assumes "a < 256" "b < 256" "c < 256" "d < 256"
  shows "v4_fields (nat_str a @ ''.'' @ nat_str b @ ''.'' @ nat_str c @ ''.'' @ nat_str d) None 0 0 []
    = Inr [a, b, c, d]"
proof -
  have "v4_fields (nat_str d) prev 0 0 [a, b, c] = Inr [a, b, c, d]" for prev
    using v4_field_read [OF assms(4), of "[]"] by simp
  then show ?thesis
    using assms by (simp add: v4_field_read v4_dot last_nat_str del: v4_fields.simps)
qed

lemma find_skip: "list_all (\<lambda>c. \<not> P c) xs \<Longrightarrow> List.find P (xs @ ys) = List.find P ys"
  by (induction xs) simp_all

lemma of_nat_low: "(of_nat (unat (w :: 128 word) mod 2 ^ 32) :: 32 word) = ucast w"
proof (rule word_unat_eq_iff [THEN iffD2])
  show "unat (of_nat (unat w mod 2 ^ 32) :: 32 word) = unat (ucast w :: 32 word)"
    by (simp add: unat_of_nat unsigned_ucast_eq take_bit_eq_mod)
qed

lemma addr_from4_low:
  assumes "addr_wf a" "addrz a = Z4"
  shows "addr_from4 (of_nat (aval a mod 2 ^ 32)) = a"
proof -
  have h: "drop_bit 32 (addr128 a) = 0xFFFF" using assms by (simp add: addr_wf_def)
  have "addr128 a = push_bit 32 (drop_bit 32 (addr128 a)) OR ucast (ucast (addr128 a) :: 32 word)"
    by (rule bit_word_eqI) (auto simp: bit_simps)
  also have "push_bit 32 (drop_bit 32 (addr128 a)) = 0xFFFF00000000"
    by (simp add: h push_bit_eq_mult)
  finally have "0xFFFF00000000 OR ucast (of_nat (aval a mod 2 ^ 32) :: 32 word) = addr128 a"
    unfolding aval_def of_nat_low by (rule sym)
  then show ?thesis
    unfolding addr_from4_def assms(2) [symmetric] by (simp only: addr.collapse)
qed

lemma four_bytes:
  "((n div 2 ^ 24 mod 256 * 256 + n div 2 ^ 16 mod 256) * 256 + n div 2 ^ 8 mod 256) * 256 + n mod 256
    = (n :: nat) mod 2 ^ 32"
proof -
  have step: "n div (d * 256) mod m * 256 + n div d mod 256 = n div d mod (m * 256)" if "0 < d" for d m
    using mod_mult2_eq [of "n div d" 256 m] by (simp add: div_mult2_eq mult.commute)
  have "n div 2 ^ 24 mod 256 * 256 + n div 2 ^ 16 mod 256 = n div 2 ^ 16 mod 65536"
    using step [of "2 ^ 16" 256] by simp
  moreover have "n div 2 ^ 16 mod 65536 * 256 + n div 2 ^ 8 mod 256 = n div 2 ^ 8 mod 16777216"
    using step [of "2 ^ 8" 65536] by simp
  moreover have "n div 2 ^ 8 mod 16777216 * 256 + n mod 256 = n mod 2 ^ 32"
    using step [of 1 16777216] by simp
  ultimately show ?thesis by (simp only:)
qed

lemma parse_string4:
  assumes "addr_wf a" "addrz a = Z4"
  shows "parse_addr (string4 a) = Inr a"
proof -
  let ?n = "aval a"
  have s: "string4 a = nat_str (?n div 2 ^ 24 mod 256) @ ''.'' @ nat_str (?n div 2 ^ 16 mod 256) @ ''.'' @
      nat_str (?n div 2 ^ 8 mod 256) @ ''.'' @ nat_str (?n mod 256)"
    by (simp add: string4_def aval_def Let_def)
  have "list_all (\<lambda>c. \<not> (c = CHR ''.'' \<or> c = CHR '':'' \<or> c = CHR ''%'')) (nat_str m)" for m
    using nat_str_digits [of m] is_digit_not(1-3) by (auto simp: list_all_iff)
  then have "List.find (\<lambda>c. c = CHR ''.'' \<or> c = CHR '':'' \<or> c = CHR ''%'') (string4 a) = Some (CHR ''.'')"
    unfolding s by (subst find_skip) simp_all
  moreover have "parse_ipv4 (string4 a) = Inr (addr_from4 (of_nat (aval a mod 2 ^ 32)))"
    unfolding parse_ipv4_def s v4_read [OF mod_less_divisor mod_less_divisor mod_less_divisor mod_less_divisor,
        OF zero_less_numeral zero_less_numeral zero_less_numeral zero_less_numeral]
    by (simp only: map_sum.simps bytes_value_def foldl.simps add_0 mult_zero_left four_bytes)
  ultimately show ?thesis
    by (simp add: parse_addr_def parse_addr_raw_def addr_from4_low [OF assms, simplified])
qed

lemma cut_last_append:
  assumes "c \<notin> set y"
  shows "cut_last c (x @ c # y) = Some (x, y)"
proof -
  have "takeWhile (\<lambda>d. d \<noteq> c) (rev y @ c # rev x) = rev y" "dropWhile (\<lambda>d. d \<noteq> c) (rev y @ c # rev x) = c # rev x"
    using assms by (simp_all add: takeWhile_append dropWhile_append)
  then show ?thesis by (simp add: cut_last_def)
qed

lemma atoi_nat_str:
  assumes "n < 2 ^ 63"
  shows "atoi (nat_str n) = Some (int n)"
proof -
  have "hd (nat_str n) \<noteq> CHR ''-''" "hd (nat_str n) \<noteq> CHR ''+''"
    using nat_str_digits [of n] is_digit_not by (cases "nat_str n"; force)+
  then show ?thesis
    using assms nat_str_digits [of n] by (simp add: atoi_def Let_def dec_value_nat_str)
qed

lemma nat_str_head:
  assumes "length (nat_str n) > 1"
  shows "\<not> (hd (nat_str n) < CHR ''1'' \<or> hd (nat_str n) > CHR ''9'')"
  using assms
proof (induction n rule: nat_str.induct)
  case (1 n)
  show ?case
  proof (cases "n < 10")
    case False
    let ?m = "n div 10"
    have hd: "hd (nat_str n) = hd (nat_str ?m)" using False by (simp add: nat_str.simps [of n])
    show ?thesis
    proof (cases "?m < 10")
      case True
      have "hd (nat_str ?m) = digit_char ?m" using True by (simp add: nat_str_digit)
      then show ?thesis
        using True False by (simp add: hd less_char_def digit_char_def take_bit_nat_eq_self)
    next
      case m: False
      then have "length (nat_str ?m) > 1" by (simp add: nat_str.simps [of ?m] Suc_lessI)
      then show ?thesis using "1.IH" False hd by simp
    qed
  qed (use "1.prems" in \<open>simp add: nat_str_digit\<close>)
qed

section \<open>The characters of a printed prefix\<close>

definition prefix_char :: "char \<Rightarrow> bool" where
  "prefix_char c = (is_digit c \<or> c \<in> {CHR ''a'', CHR ''b'', CHR ''c'', CHR ''d'', CHR ''e'', CHR ''f'',
     CHR ''.'', CHR '':'', CHR ''/''})"

lemma prefix_chars [simp]: "prefix_char CHR '':''" "prefix_char CHR ''.''" "prefix_char CHR ''/''" "prefix_char CHR ''f''"
  by (simp_all add: prefix_char_def)

lemma nat_str_chars [simp]: "list_all prefix_char (nat_str n)"
  using nat_str_digits [of n] by (auto simp: list_all_iff prefix_char_def)

lemma hex_digit_char:
  assumes "d < 16"
  shows "prefix_char (hex_digit d)"
proof (cases "d < 10")
  case True
  then show ?thesis using nat_str_digits [of d] by (simp add: hex_digit_def prefix_char_def nat_str_digit digit_char_def)
next
  case False
  then consider "d = 10" | "d = 11" | "d = 12" | "d = 13" | "d = 14" | "d = 15" using assms by linarith
  then show ?thesis by cases (simp_all add: hex_digit_def prefix_char_def bit_Suc_0_iff char_of_def)
qed

lemma hex_str_chars [simp]: "list_all prefix_char (hex_str n)"
proof (induction n rule: hex_str.induct)
  case (1 n)
  then show ?case
    using hex_digit_char [of n] hex_digit_char [of "n mod 16"] by (simp add: hex_str.simps [of n])
qed

lemma str_join_chars: "list_all P sep \<Longrightarrow> list_all (list_all P) xs \<Longrightarrow> list_all P (str_join sep xs)"
  by (induction sep xs rule: str_join.induct) simp_all

lemma colon_groups_chars [simp]: "list_all prefix_char (colon_groups gs)"
  unfolding colon_groups_def by (rule str_join_chars) (simp_all add: list.pred_map list_all_iff [of _ gs])

lemma string4_chars [simp]: "list_all prefix_char (string4 a)"
  by (simp add: string4_def Let_def)

lemma addr_string_chars:
  assumes "addr_valid a" "\<not> has_zone a"
  shows "list_all prefix_char (addr_string a)"
proof (cases "addrz a")
  case (Z6 z)
  then have "addrz a = Z6 []" using assms(2) by (simp add: has_zone_def)
  then show ?thesis
    by (simp add: addr_string_def string4in6_def string6_def Let_def split: prod.split)
qed (use assms(1) in \<open>simp_all add: addr_valid_def addr_string_def\<close>)

lemma prefix_string_chars:
  assumes "prefix_wf p"
  shows "list_all prefix_char (prefix_string p)"
  using assms addr_string_chars [of "paddr p"]
  by (simp add: prefix_string_def prefix_valid_def prefix_wf_def int_str_def)

lemma prefix_char_nl: "\<not> prefix_char nl" by (simp add: prefix_char_def is_digit_iff)

lemma chars_nl: "list_all prefix_char s \<Longrightarrow> nl \<notin> set s"
  using prefix_char_nl by (auto simp: list_all_iff)

lemma nl_free [simp]:
  "nl \<notin> set (int_str i)" "nl \<notin> set (nat_str n)" "prefix_wf p \<Longrightarrow> nl \<notin> set (prefix_string p)"
  "addr_valid a \<Longrightarrow> \<not> has_zone a \<Longrightarrow> nl \<notin> set (addr_string a)"
  using chars_nl [OF nat_str_chars] chars_nl [OF prefix_string_chars] chars_nl [OF addr_string_chars]
  by (simp_all add: int_str_def)

end
