(* ===== verification/Feed.thy ===== *)
theory Feed
  imports NetipText
begin

text \<open>
  \<open>parsePrefixes\<close> and \<open>parseRange\<close> of main.go: the prefix strings of a RIPE Stat answer
  become prefixes. An entry is a prefix, or a range of two addresses; entries that do not
  parse are skipped with a warning in the log, which is not part of the result. The results:
  every prefix returned is canonical, whatever the feed holds, and the prefixes returned
  cover exactly the addresses the entries name.
\<close>

section \<open>parseRange and parsePrefixes\<close>

text \<open>\<open>strings.SplitN(s, "-", 2)\<close>.\<close>

definition split_n2 :: "char \<Rightarrow> string \<Rightarrow> string list" where
  "split_n2 c s =
     (if c \<in> set s
      then [takeWhile (\<lambda>d. d \<noteq> c) s, tl (dropWhile (\<lambda>d. d \<noteq> c) s)] else [s])"

definition parse_range :: "string \<Rightarrow> nprefix list" where
  "parse_range s =
     (let parts = split_n2 (CHR ''-'') s
      in if length parts \<noteq> 2 then []
         else case (parse_addr (trim_space (parts ! 0)), parse_addr (trim_space (parts ! 1))) of
           (Inr start, Inr end) \<Rightarrow> range_to_cidr start end
         | _ \<Rightarrow> [])"

fun parse_prefixes :: "string list \<Rightarrow> nprefix list" where
  "parse_prefixes [] = []"
| "parse_prefixes (s # raw) =
     (let clean = trim_space s in
      if clean = [] then parse_prefixes raw
      else if str_contains clean ''-'' then parse_range clean @ parse_prefixes raw
      else case parse_prefix clean of
        Inl err \<Rightarrow> parse_prefixes raw
      | Inr prefix \<Rightarrow> masked prefix # parse_prefixes raw)"

section \<open>Every prefix is canonical\<close>

text \<open>A range bound with a zone still yields canonical prefixes: \<open>PrefixFrom\<close> drops the zone.\<close>

lemma without_zone_props:
  "addr_wf a \<Longrightarrow> addr_wf (without_zone a)" "addr_valid (without_zone a) = addr_valid a"
  "\<not> has_zone (without_zone a)" "bit_len (without_zone a) = bit_len a"
  by (auto simp: without_zone_def addr_wf_def addr_valid_def has_zone_def bit_len_def split: family.splits)

lemma addr_next_wf:
  assumes "addr_wf a" "addr_valid (addr_next a)"
  shows "addr_wf (addr_next a)"
proof (cases "addrz a = Z4")
  case True
  note n = addr_next_less [OF assms(2)]
  have m: "aval a div 2 ^ 32 = 0xFFFF" using assms(1) True by (simp only: addr_wf_iff family.case)
  have "take_bit 32 (addr128 a + 1) \<noteq> 0"
    using assms(2) True by (auto simp: addr_next_def Let_def is4_def addr_zero_def addr_valid_def split: if_splits)
  moreover have "addr_next a = Addr (addr128 a + 1) (addrz a)"
    using assms(2) by (auto simp: addr_next_def Let_def addr_valid_def addr_zero_def split: if_splits)
  then have "aval (addr_next a) = unat (addr128 a + 1)" by (simp add: aval_def)
  ultimately have "take_bit 32 (aval (addr_next a)) \<noteq> 0"
    by (metis unat_eq_zero unsigned_take_bit_eq)
  then have "Suc (aval a) mod 2 ^ 32 \<noteq> 0" unfolding n(1) take_bit_eq_mod .
  then have "Suc (aval a) div 2 ^ 32 = aval a div 2 ^ 32"
    using div_Suc [of "aval a" "2 ^ 32"] by (simp only: if_False)
  then have "aval (addr_next a) div 2 ^ 32 = 0xFFFF" by (simp only: n(1) m)
  then show ?thesis by (simp only: addr_wf_iff n(2) True family.case)
next
  case False
  then have "(\<exists>z. addrz (addr_next a) = Z6 z) \<or> addrz (addr_next a) = Z0"
    using addr_next_less(2) [OF assms(2)] by (cases "addrz a") auto
  then show ?thesis using assms(2) by (auto simp: addr_wf_def addr_valid_def)
qed

lemma shrink_mask_le: "shrink_mask start end n \<le> n"
  by (induction n) (auto simp: Let_def intro: le_SucI)

lemma range_loop_canonical:
  assumes "addr_wf start" "addr_valid start" "bits = bit_len start"
  shows "\<forall>p \<in> set (range_loop bits start end). canonical p"
  using assms
proof (induction bits start "end" rule: range_loop.induct)
  case (1 bits start "end")
  let ?m = "shrink_mask start end bits"
  let ?p = "prefix_from start (int ?m)"
  let ?next = "addr_next (last_addr (masked ?p))"
  have m: "?m \<le> bit_len start" using shrink_mask_le "1.prems"(3) by simp
  have p: "?p = Prefix (without_zone start) (int ?m)"
    using m "1.prems"(2) by (simp add: prefix_from_def)
  have wf: "prefix_wf ?p"
    unfolding p prefix_wf_def using m "1.prems"(1,2) without_zone_props [of start] by simp
  have can: "canonical (masked ?p)" using wf by (rule canonical_masked)
  have rest: "\<forall>q \<in> set (range_loop bits ?next end). canonical q"
    if cmp: "addr_compare start end \<le> 0" and v: "addr_valid ?next"
  proof -
    have mw: "prefix_wf (masked ?p)" using wf by (rule masked_wf)
    have "mk_addr (addrz (paddr (masked ?p))) (aval (last_addr (masked ?p))) = last_addr (masked ?p)"
      using aval_last_addr(2) [OF mw] aval_less by (simp add: addr_eq_iff aval_mk_addr)
    moreover have "mk_addr (addrz (paddr (masked ?p))) (aval (last_addr (masked ?p))) \<in> block (masked ?p)"
    proof (rule mk_addr_in_block(1) [OF can])
      have a: "aval (paddr (masked ?p)) div 2 ^ host (masked ?p) * 2 ^ host (masked ?p) = aval (paddr (masked ?p))"
        using can unfolding canonical_iff by auto
      have pos: "0 < (2::nat) ^ host (masked ?p)" by simp
      show "aval (paddr (masked ?p)) \<le> aval (last_addr (masked ?p))"
        "aval (last_addr (masked ?p)) < aval (paddr (masked ?p)) + 2 ^ host (masked ?p)"
        unfolding aval_last_addr(1) [OF mw] a using pos by linarith+
    qed
    ultimately have lw: "addr_wf (last_addr (masked ?p))" by (simp add: block_def)
    have "addrz ?next = addrz (without_zone start)"
      using addr_next_less(2) [OF v] aval_last_addr(2) [OF mw] paddr_masked(2) [OF wf] p by simp
    then have "bit_len ?next = bit_len start"
      using without_zone_props(4) [of start] by (simp add: bit_len_def)
    then show ?thesis
      using cmp v "1.prems"(3) addr_next_wf [OF lw v] by (intro "1.IH" [OF _ refl refl]) simp_all
  qed
  show ?case
    using can rest by (subst range_loop.simps) (auto simp: Let_def)
qed

lemma parse_range_canonical: "\<forall>p \<in> set (parse_range s). canonical p"
proof -
  have "\<forall>p \<in> set (range_to_cidr start end). canonical p"
    if "addr_wf start" "addr_valid start" for start "end"
  proof -
    have "(if is6 start then 128 else 32) = bit_len start"
      using that by (auto simp: is6_def bit_len_def addr_valid_def split: family.splits)
    then show ?thesis using range_loop_canonical [OF that] by (simp add: range_to_cidr_def)
  qed
  note range = this
  show ?thesis
  proof (cases "parse_addr (trim_space (split_n2 (CHR ''-'') s ! 0))")
    case (Inr start)
    then show ?thesis
      using range [OF parse_addr_wf [OF Inr]] by (auto simp: parse_range_def Let_def split: sum.splits)
  qed (simp add: parse_range_def Let_def)
qed

lemma parse_prefixes_ok: "list_all canonical (parse_prefixes raw)"
proof (induction raw)
  case (Cons s raw)
  then show ?case
    using parse_range_canonical [of "trim_space s"] canonical_masked [OF parse_prefix_wf]
    by (auto simp: list_all_iff Let_def split: sum.splits)
qed simp

text \<open>C15: Whatever strings the feed holds, every prefix parsePrefixes returns is valid and masked, which
  is what aggregate relies on.\<close>

theorem parse_prefixes_canonical: "list_all canonical (parse_prefixes raw)"
  by (rule parse_prefixes_ok)

section \<open>The addresses an entry names\<close>

text \<open>
  What a trimmed entry means: the addresses between the two bounds of a range, or the block
  of a prefix; nothing when it does not parse.
\<close>

definition entry_addrs :: "string \<Rightarrow> addr set" where
  "entry_addrs s =
     (if CHR ''-'' \<in> set s then
        {a. \<exists>x y. parse_addr (trim_space (takeWhile (\<lambda>d. d \<noteq> CHR ''-'') s)) = Inr x
            \<and> parse_addr (trim_space (tl (dropWhile (\<lambda>d. d \<noteq> CHR ''-'') s))) = Inr y
            \<and> addrz x = addrz y \<and> bound a \<and> x \<le> a \<and> a \<le> y}
      else {a. \<exists>p. parse_prefix s = Inr p \<and> a \<in> block p})"

lemma set_trim_left: "set (trim_left_runes rs s) \<subseteq> set s"
proof (induction rs s rule: trim_left_runes.induct)
  case (1 rs s)
  show ?case
  proof (cases "0 < space_width rs s \<and> s \<noteq> []")
    case True
    then have "set (trim_left_runes rs (drop (space_width rs s) s)) \<subseteq> set (drop (space_width rs s) s)"
      by (rule 1)
    then show ?thesis
      using True set_drop_subset [of "space_width rs s" s] by (simp add: trim_left_runes.simps [of rs s])
  qed (auto simp: trim_left_runes.simps [of rs s])
qed

lemma set_trim_space: "set (trim_space s) \<subseteq> set s"
  using set_trim_left [of "map rev space_runes" "rev (trim_left_runes space_runes s)"]
    set_trim_left [of space_runes s] by (auto simp: trim_space_def)

lemma str_index_single: "str_index s [c] = None \<longleftrightarrow> c \<notin> set s"
  by (induction s) (auto simp: has_prefix_def)

lemma str_contains_single: "str_contains s [c] \<longleftrightarrow> c \<in> set s"
  by (simp add: str_contains_def str_index_single)

lemma parse_addr_no_zone:
  assumes "parse_addr s = Inr a" "CHR ''%'' \<notin> set s"
  shows "\<not> has_zone a"
proof -
  have raw: "parse_addr_raw s = Inr a"
    using assms(1) by (cases "parse_addr_raw s") (auto simp: parse_addr_def)
  have "\<not> has_zone b" if "parse_ipv6 s = Inr b" for b
    using that assms(2)
    by (auto simp: parse_ipv6_def Let_def addr_from_bytes_def has_zone_def
        split: if_splits sum.splits option.splits)
  then show ?thesis
    using raw by (auto simp: parse_addr_raw_def parse_ipv4_def map_sum_def has_zone_def
        split: option.splits if_splits sum.splits)
qed

lemma parse_addr_bound:
  "parse_addr s = Inr a \<Longrightarrow> CHR ''%'' \<notin> set s \<Longrightarrow> bound a"
  by (simp add: bound_def parse_addr_wf parse_addr_no_zone)

lemma parse_range_covered:
  assumes "CHR ''-'' \<in> set s" "CHR ''%'' \<notin> set s"
  shows "covered (parse_range s) = entry_addrs s"
proof -
  let ?l = "trim_space (takeWhile (\<lambda>d. d \<noteq> CHR ''-'') s)"
  let ?r = "trim_space (tl (dropWhile (\<lambda>d. d \<noteq> CHR ''-'') s))"
  have "CHR ''%'' \<notin> set ?l"
    using assms(2) set_trim_space by (metis set_takeWhileD subsetD)
  moreover have "CHR ''%'' \<notin> set ?r"
    using assms(2) set_trim_space by (metis list.set_sel(2) set_dropWhileD subsetD tl_Nil)
  ultimately have b: "parse_addr ?l = Inr x \<Longrightarrow> bound x" "parse_addr ?r = Inr x \<Longrightarrow> bound x" for x
    using parse_addr_bound by blast+
  show ?thesis
    using assms(1) range_covered b
    by (cases "parse_addr ?l"; cases "parse_addr ?r")
      (auto simp: parse_range_def split_n2_def Let_def entry_addrs_def covered_def)
qed

lemma entry_addrs_empty [simp]: "entry_addrs [] = {}"
  by (simp add: entry_addrs_def parse_prefix_def cut_last_def)

lemma covered_append: "covered (xs @ ys) = covered xs \<union> covered ys"
  by (auto simp: covered_def)

text \<open>C14: For entries without an IPv6 zone, parsePrefixes covers exactly the union of the addresses its
  entries name: the block of a prefix, the inclusive range of a range entry, nothing for an entry
  that does not parse.\<close>

theorem parse_prefixes_covers:
  assumes "list_all (\<lambda>s. CHR ''%'' \<notin> set s) raw"
  shows "covered (parse_prefixes raw) = (\<Union>s \<in> set raw. entry_addrs (trim_space s))"
  using assms
proof (induction raw)
  case (Cons s raw)
  let ?s = "trim_space s"
  have pct: "CHR ''%'' \<notin> set ?s" using Cons.prems set_trim_space [of s] by auto
  have rest: "covered (parse_prefixes raw) = (\<Union>s \<in> set raw. entry_addrs (trim_space s))"
    using Cons by simp
  show ?case
  proof (cases "CHR ''-'' \<in> set ?s")
    case True
    then show ?thesis
      using rest parse_range_covered [OF True pct]
      by (auto simp: Let_def str_contains_single covered_append)
  next
    case False
    then have "entry_addrs ?s = (case parse_prefix ?s of Inl _ \<Rightarrow> {} | Inr p \<Rightarrow> block p)"
      by (simp add: entry_addrs_def split: sum.split)
    then show ?thesis
      using rest False block_masked [OF parse_prefix_wf, of ?s]
      by (cases "parse_prefix ?s") (auto simp: Let_def str_contains_single covered_Cons)
  qed
qed (simp add: covered_def)

lemma parse_prefixes_covers_witness:
  "covered (parse_prefixes [''10.0.0.0/8'', ''x'']) = (\<Union>s \<in> set [''10.0.0.0/8'', ''x'']. entry_addrs (trim_space s))"
  by (rule parse_prefixes_covers) simp

end
