(* ===== verification/NetipText6.thy ===== *)
theory NetipText6
  imports NetipText
begin

text \<open>
  The text of an IPv6 address is read back: the groups in hexadecimal, the two colons for the longest
  run of zero groups, and the embedded IPv4 form. With the IPv4 case of NetipText every well-formed
  prefix is what \<open>netip.ParsePrefix\<close> makes of its text.
\<close>

section \<open>Hexadecimal groups\<close>

definition hex_value :: "nat \<Rightarrow> string \<Rightarrow> nat" where
  "hex_value = foldl (\<lambda>n c. n * 16 + the (hex_val c))"

lemma hex_value_simps [simp]:
  "hex_value x [] = x" "hex_value x (c # s) = hex_value (x * 16 + the (hex_val c)) s"
  "hex_value x (s @ t) = hex_value (hex_value x s) t"
  by (simp_all add: hex_value_def)

text \<open>Up to four digits, then something else.\<close>

lemma hex_group_read:
  assumes "list_all (\<lambda>c. hex_val c \<noteq> None) ds" "off + length ds \<le> 4" "acc < 16 ^ off"
    "r = [] \<or> hex_val (hd r) = None"
  shows "hex_group s0 (ds @ r) off acc = Inr (off + length ds, hex_value acc ds, r)"
  using assms(1-3)
proof (induction ds arbitrary: off acc)
  case Nil
  show ?case using assms(4) by (cases r) auto
next
  case (Cons c ds)
  then obtain v where v: "hex_val c = Some v" by auto
  have "(acc + 1) * 16 \<le> 16 ^ off * 16" using Cons.prems(3) by simp
  then have lt: "acc * 16 + v < 16 ^ (off + 1)" using hex_val_bound [OF v] by simp
  also have "\<dots> \<le> 16 ^ 4" using Cons.prems(2) by (intro power_increasing) simp_all
  finally show ?case using Cons.IH [of "off + 1" "acc * 16 + v"] Cons.prems v lt by simp
qed

lemma hex_str_facts:
  "hex_value 0 (hex_str n) = n" "list_all (\<lambda>c. hex_val c \<noteq> None) (hex_str n)" "hex_str n \<noteq> []"
proof -
  show "hex_value 0 (hex_str n) = n" "list_all (\<lambda>c. hex_val c \<noteq> None) (hex_str n)"
    by (induction n rule: hex_str.induct; simp add: hex_str.simps hex_val_digit)+
  show "hex_str n \<noteq> []" by (simp add: hex_str.simps [of n])
qed

lemma length_hex_str: "n < 16 ^ Suc k \<Longrightarrow> length (hex_str n) \<le> Suc k"
proof (induction k arbitrary: n)
  case 0
  then show ?case by (simp add: hex_str.simps)
next
  case (Suc k)
  have "n div 16 < 16 ^ Suc k" using Suc.prems by auto
  then show ?case using Suc.IH [of "n div 16"] by (simp add: hex_str.simps [of n])
qed

lemma group_read:
  assumes "g < 65536" "r = [] \<or> hex_val (hd r) = None"
  shows "hex_group s0 (hex_str g @ r) 0 0 = Inr (length (hex_str g), g, r)"
  using hex_group_read [of "hex_str g" 0 0 r s0] hex_str_facts [of g] length_hex_str [of g 3] assms by simp

lemma no_hex: "hex_val (CHR '':'') = None" "hex_val (CHR ''.'') = None"
  by (simp_all add: hex_val_def is_digit_def less_eq_char_def)

lemma hex_str_hd: "hd (hex_str n @ s) \<noteq> CHR '':''" "hd (hex_str n @ s) \<noteq> CHR ''.''"
  using hex_str_facts(2,3) [of n] no_hex by (cases "hex_str n"; auto)+

section \<open>The loop on a list of groups\<close>

definition group_bytes :: "nat list \<Rightarrow> nat list" where
  "group_bytes gs = concat (map (\<lambda>g. [g div 256, g mod 256]) gs)"

lemma group_bytes_simps [simp]:
  "group_bytes [] = []" "group_bytes (g # gs) = g div 256 # g mod 256 # group_bytes gs"
  "group_bytes (gs @ hs) = group_bytes gs @ group_bytes hs" "length (group_bytes gs) = 2 * length gs"
  "group_bytes (replicate n 0) = replicate (2 * n) 0"
  by (simp_all add: group_bytes_def) (induction gs, simp_all, induction n, simp_all)

lemma colon_groups_simps [simp]:
  "colon_groups [] = []" "colon_groups [g] = hex_str g"
  "colon_groups (g # h # gs) = hex_str g @ '':'' @ colon_groups (h # gs)"
  by (simp_all add: colon_groups_def)

lemma colon_groups_hd:
  assumes "gs \<noteq> []"
  shows "colon_groups gs \<noteq> []" "hd (colon_groups gs @ s) \<noteq> CHR '':''" "hd (colon_groups gs) \<noteq> CHR '':''"
proof -
  obtain g hs where gs: "gs = g # hs" using assms by (cases gs) auto
  obtain t where t: "colon_groups gs = hex_str g @ t" unfolding gs by (cases hs) auto
  show "colon_groups gs \<noteq> []" "hd (colon_groups gs @ s) \<noteq> CHR '':''" "hd (colon_groups gs) \<noteq> CHR '':''"
    using hex_str_hd(1) [of g] hex_str_facts(3) [of g] by (simp_all add: t)
qed

text \<open>One step on a group that ends the text, or is followed by a colon.\<close>

lemma v6_last_group:
  assumes "g < 65536" "length ip < 16"
  shows "v6_loop (hex_str g) ip ell = Inr (ip @ [g div 256, g mod 256], ell, [])"
  using assms group_read [OF assms(1), of "[]"] hex_str_facts(3) [of g]
  by (subst v6_loop.simps) simp

lemma v6_colon_group:
  assumes "g < 65536" "length ip < 16"
  shows "v6_loop (hex_str g @ CHR '':'' # t) ip ell =
    (let ip' = ip @ [g div 256, g mod 256] in
     if t = [] then Inl (''colon must be followed by more characters'', '':'')
     else if hd t = CHR '':'' then
       if ell \<noteq> None then Inl (''multiple :: in address'', t)
       else if tl t = [] then Inr (ip', Some (length ip'), [])
       else v6_loop (tl t) ip' (Some (length ip'))
     else v6_loop t ip' ell)"
  using assms group_read [OF assms(1), of "CHR '':'' # t"] hex_str_facts(3) [of g] no_hex(1)
  by (subst v6_loop.simps) (auto simp: Let_def)

lemma v6_groups_read:
  assumes "gs \<noteq> []" "list_all (\<lambda>g. g < 65536) gs" "length ip + 2 * length gs \<le> 16"
  shows "v6_loop (colon_groups gs) ip ell = Inr (ip @ group_bytes gs, ell, [])"
  using assms
proof (induction gs arbitrary: ip)
  case (Cons g gs)
  show ?case
  proof (cases gs)
    case Nil
    then show ?thesis using Cons.prems by (simp add: v6_last_group)
  next
    case c: (Cons h hs)
    then have n: "gs \<noteq> []" by simp
    show ?thesis
      using Cons.prems Cons.IH [OF n, of "ip @ [g div 256, g mod 256]"] colon_groups_hd [OF n]
      by (simp add: c v6_colon_group)
  qed
qed simp

lemma v6_groups_ellipsis:
  assumes "gs \<noteq> []" "list_all (\<lambda>g. g < 65536) gs" "length ip + 2 * length gs \<le> 16"
  shows "v6_loop (colon_groups gs @ ''::'' @ t) ip None =
    (if t = [] then Inr (ip @ group_bytes gs, Some (length ip + 2 * length gs), [])
     else v6_loop t (ip @ group_bytes gs) (Some (length ip + 2 * length gs)))"
  using assms
proof (induction gs arbitrary: ip)
  case (Cons g gs)
  show ?case
  proof (cases gs)
    case Nil
    then show ?thesis using Cons.prems by (simp add: v6_colon_group)
  next
    case c: (Cons h hs)
    then have n: "gs \<noteq> []" by simp
    show ?thesis
      using Cons.prems Cons.IH [OF n, of "ip @ [g div 256, g mod 256]"] colon_groups_hd [OF n]
      by (simp add: c v6_colon_group)
  qed
qed simp

section \<open>The longest run of zero groups\<close>

definition run_ok :: "nat list \<Rightarrow> nat \<times> nat \<Rightarrow> bool" where
  "run_ok gs r = (r = (255, 255) \<or>
     fst r + 2 \<le> snd r \<and> snd r \<le> length gs \<and>
     gs = take (fst r) gs @ replicate (snd r - fst r) 0 @ drop (snd r) gs)"

lemma zero_run_from_split:
  assumes "i + zero_run_from gs i = e" "0 < zero_run_from gs i"
  shows "e \<le> length gs" "gs = take i gs @ replicate (e - i) 0 @ drop e gs"
proof -
  let ?n = "zero_run_from gs i"
  have le: "?n \<le> length (drop i gs)" unfolding zero_run_from_def by (rule length_takeWhile_le)
  then show "e \<le> length gs" using assms by simp
  have "takeWhile (\<lambda>g. g = 0) (drop i gs) = replicate ?n 0"
    unfolding zero_run_from_def by (rule replicate_eqI [OF refl]) (auto dest: set_takeWhileD)
  then have "drop i gs = replicate ?n 0 @ drop ?n (drop i gs)"
    by (metis append_eq_conv_conj takeWhile_eq_take zero_run_from_def append_take_drop_id)
  then have "drop i gs = replicate (e - i) 0 @ drop e gs"
    using assms by (simp add: add.commute)
  then show "gs = take i gs @ replicate (e - i) 0 @ drop e gs"
    by (metis append_take_drop_id)
qed

lemma foldl_invariant: "I a \<Longrightarrow> (\<And>a x. I a \<Longrightarrow> I (f a x)) \<Longrightarrow> I (foldl f a xs)"
  by (induction xs arbitrary: a) auto

lemma zero_run_ok: "run_ok gs (zero_run gs)"
proof -
  have start: "run_ok gs (255, 255)" by (simp add: run_ok_def)
  have step: "run_ok gs ((\<lambda>(zs, ze) i. let l = zero_run_from gs i in
      if 2 \<le> l \<and> ze - zs < l then (i, i + l) else (zs, ze)) r i)" if r: "run_ok gs r" for r i
  proof (cases "2 \<le> zero_run_from gs i")
    case True
    then have "run_ok gs (i, i + zero_run_from gs i)"
      using zero_run_from_split [of i gs "i + zero_run_from gs i"] by (simp add: run_ok_def)
    then show ?thesis using r by (simp add: Let_def case_prod_beta)
  next
    case False
    then show ?thesis using r by (simp add: Let_def case_prod_beta)
  qed
  show ?thesis
    unfolding zero_run_def by (rule foldl_invariant [where I = "run_ok gs"], rule start, rule step)
qed

section \<open>The value of the groups\<close>

lemma group_bytes_value: "foldl (\<lambda>n b. n * 256 + b) x (group_bytes gs) = foldl (\<lambda>n g. n * 65536 + g) x gs"
proof (induction gs arbitrary: x)
  case (Cons g gs)
  have "(x * 256 + g div 256) * 256 + g mod 256 = x * 65536 + g"
    using div_mult_mod_eq [of g 256] by simp
  then show ?case by (simp only: group_bytes_simps foldl.simps Cons)
qed simp

lemma high_step: "(n :: nat) div (d * 65536) * 65536 + n div d mod 65536 = n div d"
  by (simp add: div_mult2_eq)

lemma v6_groups_value: "bytes_value (group_bytes (v6_groups a)) = aval a"
proof -
  let ?n = "unat (addr128 a)"
  have "?n < 2 ^ 128" using unsigned_less [of "addr128 a"] by simp
  then have z: "?n div 2 ^ 128 = 0" by simp
  have s: "?n div 2 ^ (k + 16) * 65536 + ?n div 2 ^ k mod 65536 = ?n div 2 ^ k" for k
    using high_step [of ?n "2 ^ k"] by (simp add: power_add)
  have "bytes_value (group_bytes (v6_groups a)) =
      foldl (\<lambda>n g. n * 65536 + g) (?n div 2 ^ 128) (v6_groups a)"
    unfolding z bytes_value_def group_bytes_value ..
  also have "\<dots> = ?n"
    using s [of 112] s [of 96] s [of 80] s [of 64] s [of 48] s [of 32] s [of 16] s [of 0]
    by (simp add: v6_groups_def)
  finally show ?thesis by (simp add: aval_def)
qed

lemma v6_groups_bound [simp]: "list_all (\<lambda>g. g < 65536) (v6_groups a)" "length (v6_groups a) = 8"
  by (simp_all add: v6_groups_def)

lemma addr_from_v6_groups:
  "addrz a = Z6 z \<Longrightarrow> addr_from_bytes (group_bytes (v6_groups a)) z = a"
  by (cases a) (simp add: addr_from_bytes_def v6_groups_value aval_def)

section \<open>Addresses\<close>

lemma find_colon:
  assumes "list_all (\<lambda>c. c \<noteq> CHR ''.'' \<and> c \<noteq> CHR ''%'') s" "CHR '':'' \<in> set s"
  shows "List.find (\<lambda>c. c = CHR ''.'' \<or> c = CHR '':'' \<or> c = CHR ''%'') (s @ t) = Some (CHR '':'')"
  using assms by (induction s) auto

lemma hex_str_chars6: "list_all (\<lambda>c. c \<noteq> CHR ''.'' \<and> c \<noteq> CHR ''%'') (hex_str n)"
proof -
  have "hex_val (CHR ''%'') = None" by (simp add: hex_val_def is_digit_def less_eq_char_def)
  then show ?thesis using hex_str_facts(2) [of n] no_hex(2) by (auto simp: list_all_iff)
qed

lemma colon_groups_chars6: "list_all (\<lambda>c. c \<noteq> CHR ''.'' \<and> c \<noteq> CHR ''%'') (colon_groups gs)"
  unfolding colon_groups_def
  by (rule str_join_chars) (simp_all add: list.pred_map hex_str_chars6 list_all_iff [of _ gs])

lemma no_zone:
  assumes "CHR ''%'' \<notin> set s"
  shows "takeWhile (\<lambda>c. c \<noteq> CHR ''%'') s = s"
  using assms by (auto simp: takeWhile_eq_all_conv)

lemma parse_plain6:
  assumes "CHR ''%'' \<notin> set s" "\<not> has_prefix s ''::''" "v6_loop s [] None = Inr (ip, e, [])"
    "length ip = 16 \<and> e = None \<or> length ip < 16 \<and> e = Some k"
  shows "parse_ipv6 s = Inr (addr_from_bytes (if e = None then ip else expand_ellipsis ip k) [])"
  using assms by (auto simp: parse_ipv6_def no_zone)

lemma parse_lead6:
  assumes "CHR ''%'' \<notin> set s" "s \<noteq> []" "v6_loop s [] (Some 0) = Inr (ip, Some k, [])" "length ip < 16"
  shows "parse_ipv6 (''::'' @ s) = Inr (addr_from_bytes (expand_ellipsis ip k) [])"
  using assms by (simp add: parse_ipv6_def no_zone has_prefix_def)

lemma leading_zeros: "bytes_value (replicate n 0 @ bs) = bytes_value bs"
  by (induction n) (simp_all add: bytes_value_def)

lemma group_bytes_zeros: "bytes_value (replicate n 0) = 0"
  using leading_zeros [of n "[]"] by (simp add: bytes_value_def)

text \<open>The three forms: all groups, groups around the ellipsis, the ellipsis first.\<close>

lemma parse_all_groups:
  assumes "length gs = 8" "list_all (\<lambda>g. g < 65536) gs"
  shows "parse_ipv6 (colon_groups gs) = Inr (addr_from_bytes (group_bytes gs) [])"
proof -
  have n: "gs \<noteq> []" using assms(1) by auto
  have "\<not> has_prefix (colon_groups gs) ''::''"
    using colon_groups_hd(1,3) [OF n] by (cases "colon_groups gs") (auto simp: has_prefix_def)
  moreover have "CHR ''%'' \<notin> set (colon_groups gs)" using colon_groups_chars6 [of gs] by (auto simp: list_all_iff)
  moreover have "v6_loop (colon_groups gs) [] None = Inr (group_bytes gs, None, [])"
    using v6_groups_read [OF n assms(2), of "[]"] assms(1) by simp
  ultimately show ?thesis using parse_plain6 [of "colon_groups gs" "group_bytes gs" None] assms(1) by simp
qed

lemma parse_gap_groups:
  assumes "length gs + length hs < 8" "list_all (\<lambda>g. g < 65536) (gs @ hs)"
  shows "parse_ipv6 (colon_groups gs @ ''::'' @ colon_groups hs) =
    Inr (addr_from_bytes (group_bytes gs @ replicate (16 - 2 * (length gs + length hs)) 0 @ group_bytes hs) [])"
proof -
  let ?s = "colon_groups gs @ ''::'' @ colon_groups hs"
  have z: "CHR ''%'' \<notin> set (colon_groups xs)" for xs using colon_groups_chars6 [of xs] by (auto simp: list_all_iff)
  show ?thesis
  proof (cases "gs = []")
    case g: True
    show ?thesis
    proof (cases "hs = []")
      case True
      then show ?thesis
        using g by (simp add: parse_ipv6_def has_prefix_def addr_from_bytes_def group_bytes_zeros) (simp add: bytes_value_def)
    next
      case False
      then have "v6_loop (colon_groups hs) [] (Some 0) = Inr (group_bytes hs, Some 0, [])"
        using v6_groups_read [OF False, of "[]"] assms by simp
      from parse_lead6 [OF z colon_groups_hd(1) [OF False] this] show ?thesis
        using assms(1) g by (simp add: expand_ellipsis_def)
    qed
  next
    case False
    have "\<not> has_prefix ?s ''::''"
      using colon_groups_hd(1,3) [OF False] by (cases "colon_groups gs") (auto simp: has_prefix_def)
    moreover have "v6_loop ?s [] None = Inr (group_bytes (gs @ hs), Some (2 * length gs), [])"
      using v6_groups_ellipsis [OF False, of "[]" "colon_groups hs"] assms
        v6_groups_read [of hs "group_bytes gs" "Some (2 * length gs)"] colon_groups_hd(1) [of hs]
      by (cases "hs = []") simp_all
    ultimately show ?thesis
      using parse_plain6 [of ?s "group_bytes (gs @ hs)" "Some (2 * length gs)" "2 * length gs"] assms(1) z
      by (simp add: expand_ellipsis_def)
  qed
qed

lemma unmap_4in6:
  assumes "is4in6 a"
  shows "addr_wf (unmap a)" "addrz (unmap a) = Z4" "addr128 (unmap a) = addr128 a"
  using assms by (simp_all add: unmap_def is4in6_def addr_wf_def)

lemma v6_embedded:
  assumes "a < 256" "b < 256" "c < 256" "d < 256"
  shows "v6_loop (''ffff:'' @ nat_str a @ ''.'' @ nat_str b @ ''.'' @ nat_str c @ ''.'' @ nat_str d) [] (Some 0)
    = Inr ([255, 255, a, b, c, d], Some 0, [])"
proof -
  let ?v4 = "nat_str a @ ''.'' @ nat_str b @ ''.'' @ nat_str c @ ''.'' @ nat_str d"
  have f: "hex_str 65535 = ''ffff''" by (simp add: hex_str.simps hex_digit_def bit_Suc_0_iff char_of_def)
  have dig: "list_all (\<lambda>c. hex_val c \<noteq> None) (nat_str a)"
    using nat_str_digits [of a] by (auto simp: list_all_iff hex_val_def)
  have len: "length (nat_str a) \<le> 3" using length_nat_str [of a 2] assms(1) by simp
  have "hex_group ?v4 ?v4 0 0 = Inr (length (nat_str a), hex_value 0 (nat_str a),
      ''.'' @ nat_str b @ ''.'' @ nat_str c @ ''.'' @ nat_str d)"
    using hex_group_read [OF dig, of 0 0 "''.'' @ nat_str b @ ''.'' @ nat_str c @ ''.'' @ nat_str d" ?v4]
      len no_hex(2) by simp
  then have "v6_loop ?v4 [255, 255] (Some 0) = Inr ([255, 255, a, b, c, d], Some 0, [])"
    using v4_read [OF assms] by (subst v6_loop.simps) simp
  moreover have "hd ?v4 \<noteq> CHR '':''" "?v4 \<noteq> []"
    using nat_str_digits [of a] is_digit_not by (cases "nat_str a"; force)+
  ultimately show ?thesis
    using v6_colon_group [of 65535 "[]" ?v4 "Some 0"] by (simp add: f)
qed

lemma embedded_value:
  "drop_bit 32 (w :: 128 word) = 0xFFFF \<Longrightarrow> of_nat (0xFFFF * 2 ^ 32 + unat w mod 2 ^ 32) = w"
proof -
  assume "drop_bit 32 w = 0xFFFF"
  then have "unat w div 2 ^ 32 = 0xFFFF"
    using unsigned_drop_bit_eq [of 32 w, where ?'a = nat] unsigned_less [of w, where ?'a = nat]
    by (simp add: drop_bit_eq_div take_bit_nat_eq_self)
  then have "0xFFFF * 2 ^ 32 + unat w mod 2 ^ 32 = unat w" by (metis div_mult_mod_eq)
  then show ?thesis by simp
qed

lemma parse_string4in6:
  assumes "is4in6 a" "addrz a = Z6 []"
  shows "parse_ipv6 (string4in6 a) = Inr a"
proof -
  let ?n = "aval a" let ?f = "\<lambda>k. ?n div 2 ^ k mod 256"
  have l: "?f 24 < 256" "?f 16 < 256" "?f 8 < 256" "?n mod 256 < 256" by simp_all
  let ?s = "''ffff:'' @ nat_str (?f 24) @ ''.'' @ nat_str (?f 16) @ ''.'' @ nat_str (?f 8) @ ''.'' @ nat_str (?n mod 256)"
  have s: "string4in6 a = ''::'' @ ?s"
    using assms by (simp add: string4in6_def string4_def Let_def aval_def unmap_4in6)
  have "CHR ''%'' \<notin> set (nat_str m)" for m
    using nat_str_digits [of m] is_digit_not(3) by (auto simp: list_all_iff)
  then have z: "CHR ''%'' \<notin> set ?s" by simp
  have "bytes_value (expand_ellipsis [255, 255, p, q, r, t] 0) = 0xFFFF * 2 ^ 32 + (((p * 256 + q) * 256 + r) * 256 + t)"
    for p q r t
    unfolding expand_ellipsis_def take0 append_Nil leading_zeros by (simp add: bytes_value_def)
  then have "bytes_value (expand_ellipsis [255, 255, ?f 24, ?f 16, ?f 8, ?n mod 256] 0) = 0xFFFF * 2 ^ 32 + ?n mod 2 ^ 32"
    by (simp only: four_bytes)
  then have "addr_from_bytes (expand_ellipsis [255, 255, ?f 24, ?f 16, ?f 8, ?n mod 256] 0) [] = a"
    using assms embedded_value [of "addr128 a"]
    by (cases a) (simp add: addr_from_bytes_def aval_def is4in6_def)
  then show ?thesis
    unfolding s using parse_lead6 [OF z _ v6_embedded [OF l]] by simp
qed

theorem parse_addr_string:
  assumes "addr_wf a" "addr_valid a" "\<not> has_zone a"
  shows "parse_addr (addr_string a) = Inr a"
proof (cases "addrz a")
  case Z4
  then show ?thesis using parse_string4 assms(1) by (simp add: addr_string_def)
next
  case (Z6 z)
  then have z: "addrz a = Z6 []" using assms(3) by (simp add: has_zone_def)
  show ?thesis
  proof (cases "is4in6 a")
    case True
    have "List.find (\<lambda>c. c = CHR ''.'' \<or> c = CHR '':'' \<or> c = CHR ''%'') (string4in6 a) = Some (CHR '':'')"
      by (simp add: string4in6_def)
    then show ?thesis
      using True z parse_string4in6 [OF True z] by (simp add: parse_addr_def parse_addr_raw_def addr_string_def)
  next
    case False
    let ?gs = "v6_groups a"
    obtain zs ze where r: "zero_run ?gs = (zs, ze)" by (cases "zero_run ?gs")
    have s: "addr_string a = (if zs < 8 then colon_groups (take zs ?gs) @ ''::'' @ colon_groups (drop ze ?gs) else colon_groups ?gs)"
      using False z by (simp add: addr_string_def string6_def r Let_def)
    have "parse_ipv6 (addr_string a) = Inr (addr_from_bytes (group_bytes ?gs) [])"
    proof (cases "zs < 8")
      case zs: True
      then have o: "zs + 2 \<le> ze" "ze \<le> 8" "?gs = take zs ?gs @ replicate (ze - zs) 0 @ drop ze ?gs"
        using zero_run_ok [of ?gs] by (auto simp: run_ok_def r)
      have "list_all (\<lambda>g. g < 65536) (take zs ?gs @ drop ze ?gs)"
        using v6_groups_bound(1) [of a] by (auto simp: list_all_iff dest: in_set_takeD in_set_dropD)
      then have "parse_ipv6 (addr_string a) = Inr (addr_from_bytes (group_bytes (take zs ?gs) @
          replicate (2 * (ze - zs)) 0 @ group_bytes (drop ze ?gs)) [])"
        using parse_gap_groups [of "take zs ?gs" "drop ze ?gs"] o(1,2) zs by (simp add: s right_diff_distrib')
      then show ?thesis by (subst o(3)) (simp del: append_take_drop_id)
    next
      case zs: False
      then show ?thesis using parse_all_groups [of ?gs] by (simp add: s)
    qed
    moreover have "List.find (\<lambda>c. c = CHR ''.'' \<or> c = CHR '':'' \<or> c = CHR ''%'') (addr_string a) = Some (CHR '':'')"
    proof -
      have "CHR '':'' \<in> set (colon_groups ?gs)" by (simp add: v6_groups_def)
      then show ?thesis
        using find_colon [of "addr_string a" "[]"] colon_groups_chars6 by (simp add: s)
    qed
    ultimately show ?thesis
      by (simp add: parse_addr_def parse_addr_raw_def addr_from_v6_groups [OF z])
  qed
qed (use assms(2) in \<open>simp add: addr_valid_def\<close>)

section \<open>Prefixes\<close>

lemma parse_prefix_string:
  assumes "prefix_wf p"
  shows "parse_prefix (prefix_string p) = Inr p"
proof -
  obtain a b where p: "p = Prefix a b" by (cases p)
  have a: "addr_wf a" "addr_valid a" "\<not> has_zone a" and b: "0 \<le> b" "b \<le> int (bit_len a)"
    using assms by (auto simp: p prefix_wf_def)
  have l: "int (bit_len a) = (if is6 a then 128 else 32)"
    using a(2) by (auto simp: is6_def bit_len_def addr_valid_def split: family.splits)
  obtain n where n: "b = int n" "n \<le> 128" using b l by (cases b) (auto split: if_splits)
  have "CHR ''/'' \<notin> set (nat_str n)"
    using nat_str_digits [of n] is_digit_not(4) by (auto simp: list_all_iff)
  then have "cut_last (CHR ''/'') (prefix_string p) = Some (addr_string a, nat_str n)"
    using cut_last_append [of "CHR ''/''" "nat_str n" "addr_string a"] a b n
    by (simp add: p prefix_string_def prefix_valid_def int_str_def)
  moreover have "n < 2 ^ 63" using n by simp
  then have "atoi (nat_str n) = Some (int n)" by (rule atoi_nat_str)
  moreover have "prefix_from a b = p" using a b by (simp add: prefix_from_def p)
  ultimately show ?thesis
    using nat_str_head [of n] a(3) b n l
    by (auto simp: parse_prefix_def parse_addr_string [OF a])
qed

section \<open>The length of the text\<close>

lemma length_colon_groups: "list_all (\<lambda>g. g < 65536) gs \<Longrightarrow> length (colon_groups gs) \<le> 5 * length gs"
proof (induction gs)
  case (Cons g gs)
  have "length (hex_str g) \<le> 4" using Cons.prems length_hex_str [of g 3] by simp
  then show ?case using Cons by (cases gs) simp_all
qed simp

lemma length_string4: "length (string4 a) \<le> 15"
proof -
  have l: "length (nat_str (m mod 256)) \<le> 3" for m
    by (rule length_nat_str [of _ 2, simplified]) (rule less_le_trans [OF mod_less_divisor], simp_all)
  show ?thesis
    using l [of "unat (addr128 a) div 2 ^ 24"] l [of "unat (addr128 a) div 2 ^ 16"]
      l [of "unat (addr128 a) div 2 ^ 8"] l [of "unat (addr128 a)"]
    by (simp add: string4_def Let_def)
qed

lemma length_addr_string:
  assumes "addr_valid a" "\<not> has_zone a"
  shows "length (addr_string a) \<le> 82"
proof (cases "addrz a")
  case (Z6 z)
  then have z: "addrz a = Z6 []" using assms(2) by (simp add: has_zone_def)
  have le: "length (colon_groups gs) \<le> 40" if "set gs \<subseteq> set (v6_groups a)" "length gs \<le> 8" for gs
  proof -
    have "list_all (\<lambda>g. g < 65536) gs" using that(1) v6_groups_bound(1) [of a] by (auto simp: list_all_iff)
    then show ?thesis using length_colon_groups [of gs] that(2) by linarith
  qed
  have g: "length (colon_groups (take i (v6_groups a))) \<le> 40" "length (colon_groups (drop i (v6_groups a))) \<le> 40" for i
    by (rule le; simp add: set_take_subset set_drop_subset)+
  then have "length (string6 a) \<le> 82"
    using add_mono [OF g(1) [of "fst (zero_run (v6_groups a))"] g(2) [of "snd (zero_run (v6_groups a))"]] g(2) [of 0]
    by (simp add: string6_def Let_def z case_prod_beta)
  then show ?thesis
    using length_string4 [of "unmap a"] by (simp add: addr_string_def z string4in6_def)
qed (use assms(1) length_string4 [of a] in \<open>simp_all add: addr_valid_def addr_string_def\<close>)

lemma prefix_string_short:
  assumes "prefix_wf p"
  shows "length (prefix_string p) < 4096"
proof -
  have "nat (pbits p) \<le> 128"
    using assms by (auto simp: prefix_wf_def bit_len_def split: family.splits)
  then have "length (nat_str (nat (pbits p))) \<le> 3" using length_nat_str [of "nat (pbits p)" 2] by simp
  then show ?thesis
    using length_addr_string [of "paddr p"] assms
    by (simp add: prefix_string_def prefix_valid_def prefix_wf_def int_str_def)
qed

end
