(* ===== verification/Config.thy ===== *)
theory Config
  imports Go_Prelude
begin

text \<open>
  The command-line configuration of main.go: the struct \<open>cliFlags\<close>, the methods that fill the
  fields an operator left unset (\<open>applyDefaults\<close> and the four it calls), and the marker lines
  of frr.conf. The results: filling defaults keeps every value that was set, a second call changes
  nothing, and afterwards no field with a default is unset.
\<close>

section \<open>cliFlags\<close>

text \<open>\<open>time.Duration\<close> counts nanoseconds.\<close>

type_synonym duration = int

definition second :: duration where "second = 1000000000"
definition minute :: duration where "minute = 60 * second"
definition hour :: duration where "hour = 60 * minute"

record cliFlags =
  frrConf :: string
  lockFile :: string
  country :: string
  routeMap :: string
  nftSetV4 :: string
  nftSetV6 :: string
  markerPrefix :: string
  feedURL :: string
  extrasV4File :: string
  extrasV6File :: string
  cacheFile :: string
  httpAddr :: string
  lastSuccessFile :: string
  logFormat :: string
  logLevel :: string
  frrReloadScript :: string
  nftBinary :: string
  target :: string
  targetMode :: string
  targetOutput :: string
  iosxePrefixList :: string
  iosxeRouteMap :: string
  iosxeStaticNextHop :: string
  iosxeStaticRouteMap :: string
  iosxeStaticRouteName :: string
  iosxeBGPAS :: string
  iosxeSSHHost :: string
  iosxeSSHUser :: string
  iosxeSSHKeyFile :: string
  iosxeKnownHostsFile :: string
  iosxeVRFLeakRouteMap :: string
  cacheMaxAge :: duration
  readyMaxAge :: duration
  httpTimeout :: duration
  frrReloadTimeout :: duration
  nftTimeout :: duration
  iosxeSSHTimeout :: duration
  retryBaseDelay :: duration
  refreshInterval :: duration
  retryAttempts :: int
  iosxeSSHPort :: int
  iosxeRouteMapSeq :: int
  iosxeRouteMapDenySeq :: int
  iosxeVRFLeakRouteMapSeq :: int
  iosxeStaticTag :: int
  iosxeApplyMaxPrefixes :: int
  iosxeSaveConfig :: bool
  reloadOK :: bool
  dryRun :: bool
  force :: bool
  updateNft :: bool
  iosxeReplacePrefixList :: bool

section \<open>applyDefaults\<close>

text \<open>\<open>if f.x == "" { f.x = d }\<close>, and the same for numbers; a record update
  \<open>x_update g f\<close> applies \<open>g\<close> to the field \<open>x\<close> of \<open>f\<close>.\<close>

definition str_default :: "string \<Rightarrow> string \<Rightarrow> string" where
  "str_default d x = (if x = [] then d else x)"

definition int_default :: "int \<Rightarrow> int \<Rightarrow> int" where
  "int_default d x = (if x = 0 then d else x)"

definition apply_base_defaults :: "string \<Rightarrow> string \<Rightarrow> cliFlags \<Rightarrow> cliFlags" where
  "apply_base_defaults cc ccLower f =
     (let f = routeMap_update (str_default (''MARK-'' @ cc @ ''-EXIT'')) f;
      f = nftSetV4_update (str_default (ccLower @ ''_v4'')) f;
      f = nftSetV6_update (str_default (ccLower @ ''_v6'')) f;
      f = markerPrefix_update (str_default (cc @ ''-FEED'')) f;
      f = feedURL_update (str_default (''https://stat.ripe.net/data/country-resource-list/data.json?resource='' @ cc @ ''&v4_format=prefix'')) f;
      f = lockFile_update (str_default (''/run/georoute-'' @ ccLower @ ''.lock'')) f;
      f = cacheFile_update (str_default (''/var/lib/georoute/feed-'' @ ccLower @ ''.json.gz'')) f
      in f)"

definition apply_runtime_defaults :: "string \<Rightarrow> cliFlags \<Rightarrow> cliFlags" where
  "apply_runtime_defaults ccLower f =
     (let f = cacheMaxAge_update (int_default (7 * 24 * hour)) f;
      f = lastSuccessFile_update (str_default (''/var/lib/georoute/last-success-'' @ ccLower)) f;
      f = readyMaxAge_update (int_default (24 * hour)) f;
      f = logFormat_update (str_default ''text'') f;
      f = logLevel_update (str_default ''info'') f;
      f = httpTimeout_update (int_default (60 * second)) f;
      f = frrReloadTimeout_update (int_default (3 * minute)) f;
      f = nftTimeout_update (int_default (30 * second)) f;
      f = iosxeSSHTimeout_update (int_default (30 * second)) f;
      f = iosxeSSHPort_update (int_default 22) f;
      f = retryAttempts_update (int_default 3) f;
      f = retryBaseDelay_update (int_default (2 * second)) f;
      f = frrReloadScript_update (str_default ''/usr/lib/frr/frr-reload.py'') f;
      f = nftBinary_update (str_default ''/usr/sbin/nft'') f;
      f = target_update (str_default ''frr'') f;
      f = targetMode_update (str_default ''apply'') f;
      f = targetOutput_update (str_default ''-'') f
      in f)"

definition apply_iosxe_target_defaults :: "string \<Rightarrow> cliFlags \<Rightarrow> cliFlags" where
  "apply_iosxe_target_defaults cc f =
     (let f = iosxePrefixList_update (str_default (''PL-GEOROUTE-'' @ cc @ ''-V4'')) f
      in if target f \<noteq> ''iosxe'' then f
         else
     (let f = iosxeStaticRouteMap_update (str_default (''RM-GEOROUTE-'' @ cc @ ''-STATIC'')) f;
      f = iosxeStaticRouteName_update (str_default (''GEOROUTE_'' @ cc)) f
      in f))"

definition apply_iosxe_defaults :: "string \<Rightarrow> cliFlags \<Rightarrow> cliFlags" where
  "apply_iosxe_defaults cc f =
     (let f = iosxeRouteMap_update (str_default (''RM-GEOROUTE-'' @ cc @ ''-OUT'')) f;
      f = iosxeRouteMapSeq_update (int_default 10) f;
      f = iosxeRouteMapDenySeq_update (int_default 9999) f;
      f = iosxeVRFLeakRouteMapSeq_update (int_default 20) f
      in f)"

definition apply_defaults :: "cliFlags \<Rightarrow> cliFlags" where
  "apply_defaults f =
     (let cc = str_upper (country f); ccLower = str_lower (country f)
      in apply_iosxe_defaults cc
           (apply_iosxe_target_defaults cc (apply_runtime_defaults ccLower (apply_base_defaults cc ccLower f))))"

section \<open>markers\<close>

definition markers :: "cliFlags \<Rightarrow> string \<times> string \<times> string \<times> string" where
  "markers f =
     (''  ! BEGIN-'' @ markerPrefix f @ ''-V4'', ''  ! END-'' @ markerPrefix f @ ''-V4'',
      ''  ! BEGIN-'' @ markerPrefix f @ ''-V6'', ''  ! END-'' @ markerPrefix f @ ''-V6'')"

section \<open>What the defaults leave\<close>

lemma default_idem [simp]:
  "str_default d (str_default d x) = str_default d x"
  "int_default k (int_default k n) = int_default k n"
  by (simp_all add: str_default_def int_default_def)

lemma default_keep:
  "x = [] \<or> str_default d x = x" "n = 0 \<or> int_default k n = n"
  by (auto simp: str_default_def int_default_def)

lemma default_set:
  "d \<noteq> [] \<Longrightarrow> str_default d x \<noteq> []" "k \<noteq> 0 \<Longrightarrow> int_default k n \<noteq> 0"
  by (auto simp: str_default_def int_default_def)

lemma default_target [simp]: "str_default ''frr'' x = ''iosxe'' \<longleftrightarrow> x = ''iosxe''"
  by (simp add: str_default_def)

lemma durations [simp]: "second = 1000000000" "minute = 60000000000" "hour = 3600000000000"
  by (simp_all add: second_def minute_def hour_def)

text \<open>The four steps are idempotent, write different fields and leave the country alone.\<close>

lemma default_steps_idem:
  "apply_base_defaults cc lo (apply_base_defaults cc lo f) = apply_base_defaults cc lo f"
  "apply_runtime_defaults lo (apply_runtime_defaults lo f) = apply_runtime_defaults lo f"
  "apply_iosxe_target_defaults cc (apply_iosxe_target_defaults cc f) = apply_iosxe_target_defaults cc f"
  "apply_iosxe_defaults cc (apply_iosxe_defaults cc f) = apply_iosxe_defaults cc f"
  by (cases f, simp add: apply_base_defaults_def apply_runtime_defaults_def
      apply_iosxe_target_defaults_def apply_iosxe_defaults_def Let_def)+

lemma default_steps_commute:
  "apply_base_defaults cc lo (apply_runtime_defaults lo f) = apply_runtime_defaults lo (apply_base_defaults cc lo f)"
  "apply_base_defaults cc lo (apply_iosxe_target_defaults cc f) = apply_iosxe_target_defaults cc (apply_base_defaults cc lo f)"
  "apply_base_defaults cc lo (apply_iosxe_defaults cc f) = apply_iosxe_defaults cc (apply_base_defaults cc lo f)"
  "apply_runtime_defaults lo (apply_iosxe_target_defaults cc f) = apply_iosxe_target_defaults cc (apply_runtime_defaults lo f)"
  "apply_runtime_defaults lo (apply_iosxe_defaults cc f) = apply_iosxe_defaults cc (apply_runtime_defaults lo f)"
  "apply_iosxe_target_defaults cc (apply_iosxe_defaults cc f) = apply_iosxe_defaults cc (apply_iosxe_target_defaults cc f)"
  by (cases f, simp add: apply_base_defaults_def apply_runtime_defaults_def
      apply_iosxe_target_defaults_def apply_iosxe_defaults_def Let_def)+

lemma default_steps_country:
  "country (apply_base_defaults cc lo f) = country f"
  "country (apply_runtime_defaults lo f) = country f"
  "country (apply_iosxe_target_defaults cc f) = country f"
  "country (apply_iosxe_defaults cc f) = country f"
  by (simp_all add: apply_base_defaults_def apply_runtime_defaults_def
      apply_iosxe_target_defaults_def apply_iosxe_defaults_def Let_def)

lemma apply_defaults_idempotent: "apply_defaults (apply_defaults f) = apply_defaults f"
  by (simp only: apply_defaults_def Let_def default_steps_country default_steps_commute default_steps_idem)

text \<open>The fields with a default, each still unset (\<open>""\<close> or 0) or not.\<close>

definition text_settings :: "cliFlags \<Rightarrow> string list" where
  "text_settings f =
     [routeMap f, nftSetV4 f, nftSetV6 f, markerPrefix f, feedURL f, lockFile f, cacheFile f,
      lastSuccessFile f, logFormat f, logLevel f, frrReloadScript f, nftBinary f, target f,
      targetMode f, targetOutput f, iosxePrefixList f, iosxeRouteMap f] @
     (if target f = ''iosxe'' then [iosxeStaticRouteMap f, iosxeStaticRouteName f] else [])"

definition number_settings :: "cliFlags \<Rightarrow> int list" where
  "number_settings f =
     [cacheMaxAge f, readyMaxAge f, httpTimeout f, frrReloadTimeout f, nftTimeout f,
      iosxeSSHTimeout f, iosxeSSHPort f, retryAttempts f, retryBaseDelay f, iosxeRouteMapSeq f,
      iosxeRouteMapDenySeq f, iosxeVRFLeakRouteMapSeq f]"

lemma text_settings_defaults:
  "text_settings (apply_defaults f) =
     map2 str_default
       (let cc = str_upper (country f); lo = str_lower (country f) in
        [''MARK-'' @ cc @ ''-EXIT'', lo @ ''_v4'', lo @ ''_v6'', cc @ ''-FEED'',
         ''https://stat.ripe.net/data/country-resource-list/data.json?resource='' @ cc @ ''&v4_format=prefix'',
         ''/run/georoute-'' @ lo @ ''.lock'', ''/var/lib/georoute/feed-'' @ lo @ ''.json.gz'',
         ''/var/lib/georoute/last-success-'' @ lo, ''text'', ''info'', ''/usr/lib/frr/frr-reload.py'',
         ''/usr/sbin/nft'', ''frr'', ''apply'', ''-'', ''PL-GEOROUTE-'' @ cc @ ''-V4'',
         ''RM-GEOROUTE-'' @ cc @ ''-OUT'', ''RM-GEOROUTE-'' @ cc @ ''-STATIC'', ''GEOROUTE_'' @ cc])
       (text_settings f)"
  by (simp add: text_settings_def apply_defaults_def apply_base_defaults_def apply_runtime_defaults_def
      apply_iosxe_target_defaults_def apply_iosxe_defaults_def Let_def)

lemma number_settings_defaults:
  "number_settings (apply_defaults f) =
     map2 int_default
       [604800000000000, 86400000000000, 60000000000, 180000000000, 30000000000, 30000000000, 22, 3,
        2000000000, 10, 9999, 20] (number_settings f)"
  by (simp add: number_settings_def apply_defaults_def apply_base_defaults_def apply_runtime_defaults_def
      apply_iosxe_target_defaults_def apply_iosxe_defaults_def Let_def)

text \<open>Element by element: a default for an unset entry, the entry itself otherwise.\<close>

lemma map2_default_set:
  "list_all (\<lambda>d. d \<noteq> u) ds \<Longrightarrow> list_all (\<lambda>y. y \<noteq> u) (map2 (\<lambda>d x. if x = u then d else x) ds xs)"
proof (induction ds arbitrary: xs)
  case (Cons d ds)
  then show ?case by (cases xs) auto
qed simp

lemma map2_default_keep:
  "length xs \<le> length ds \<Longrightarrow>
    list_all2 (\<lambda>x y. x = u \<or> y = x) xs (map2 (\<lambda>d x. if x = u then d else x) ds xs)"
proof (induction xs arbitrary: ds)
  case (Cons x xs)
  then show ?case by (cases ds) auto
qed simp

lemma default_fun: "str_default = (\<lambda>d x. if x = [] then d else x)" "int_default = (\<lambda>d x. if x = 0 then d else x)"
  by (intro ext, simp add: str_default_def int_default_def)+

lemma apply_defaults_complete:
  "list_all (\<lambda>s. s \<noteq> []) (text_settings (apply_defaults f))
    \<and> list_all (\<lambda>n. n \<noteq> 0) (number_settings (apply_defaults f))"
  unfolding text_settings_defaults number_settings_defaults default_fun
  by (intro conjI map2_default_set) (simp_all add: Let_def)

lemma apply_defaults_keeps:
  "list_all2 (\<lambda>old new. old = [] \<or> new = old) (text_settings f) (text_settings (apply_defaults f))
    \<and> list_all2 (\<lambda>old new. old = 0 \<or> new = old) (number_settings f) (number_settings (apply_defaults f))"
  unfolding text_settings_defaults number_settings_defaults default_fun
  by (intro conjI map2_default_keep) (simp_all add: Let_def text_settings_def number_settings_def)

section \<open>Concrete flags\<close>

text \<open>The struct before any flag is set, and a run for one country.\<close>

abbreviation no_flags :: cliFlags where
  "no_flags \<equiv> \<lparr>frrConf = [], lockFile = [], country = [], routeMap = [], nftSetV4 = [], nftSetV6 = [],
     markerPrefix = [], feedURL = [], extrasV4File = [], extrasV6File = [], cacheFile = [], httpAddr
     = [], lastSuccessFile = [], logFormat = [], logLevel = [], frrReloadScript = [], nftBinary =
     [], target = [], targetMode = [], targetOutput = [], iosxePrefixList = [], iosxeRouteMap = [],
     iosxeStaticNextHop = [], iosxeStaticRouteMap = [], iosxeStaticRouteName = [], iosxeBGPAS = [],
     iosxeSSHHost = [], iosxeSSHUser = [], iosxeSSHKeyFile = [], iosxeKnownHostsFile = [],
     iosxeVRFLeakRouteMap = [], cacheMaxAge = 0, readyMaxAge = 0, httpTimeout = 0, frrReloadTimeout
     = 0, nftTimeout = 0, iosxeSSHTimeout = 0, retryBaseDelay = 0, refreshInterval = 0,
     retryAttempts = 0, iosxeSSHPort = 0, iosxeRouteMapSeq = 0, iosxeRouteMapDenySeq = 0,
     iosxeVRFLeakRouteMapSeq = 0, iosxeStaticTag = 0, iosxeApplyMaxPrefixes = 0, iosxeSaveConfig =
     False, reloadOK = False, dryRun = False, force = False, updateNft = False,
     iosxeReplacePrefixList = False\<rparr>"

text \<open>The flags of \<open>realMain\<close> before any argument: only five have a default that is not zero.\<close>

definition flag_defaults :: cliFlags where
  "flag_defaults = no_flags\<lparr>frrConf := ''/etc/frr/frr.conf'', reloadOK := True, updateNft := True,
     country := ''RU'', iosxeApplyMaxPrefixes := 100\<rparr>"

end
