(* ===== verification/Iosxe.thy ===== *)
theory Iosxe
  imports Feed Config
begin

text \<open>
  The renderers of target.go: the IOS XE configuration (prefix-list, static routes, route-maps,
  BGP redistribution) and the plain prefix lines, the checks before an apply, and the apply script
  and the check of its output of iosxe\_ssh.go. All of it is text in, text out. The results: the
  lines the prefix-list consists of, its sequence numbers and when the final deny comes last, the
  dotted mask of a prefix length, when the apply guard lets a run through, that the script is the
  candidate between fixed commands, and what an accepted device output must contain.
\<close>

section \<open>Rendering\<close>

definition default_seq_step :: int where "default_seq_step = 10"
definition default_route_map_seq :: int where "default_route_map_seq = 10"
definition default_vrf_leak_route_map_seq :: int where "default_vrf_leak_route_map_seq = 20"
definition default_deny_seq :: int where "default_deny_seq = 9999"
definition iosxe_deny_tail_seq :: int where "iosxe_deny_tail_seq = 999999"

definition render_iosxe_prefix_list :: "string \<Rightarrow> nprefix list \<Rightarrow> int \<Rightarrow> string" where
  "render_iosxe_prefix_list name prefixes seqStep =
     (if length prefixes = 0 then []
      else let seqStep = (if seqStep \<le> 0 then default_seq_step else seqStep);
               permits = map (\<lambda>(i, p). ''ip prefix-list '' @ name @ '' seq '' @ int_str ((int i + 1) * seqStep)
                 @ '' permit '' @ prefix_string p @ [nl]) (enumerate 0 prefixes);
               denyTail = ''ip prefix-list '' @ name @ '' seq '' @ int_str iosxe_deny_tail_seq
                 @ '' deny 0.0.0.0/0 le 32'' @ [nl]
           in trim_right_nl (concat permits @ denyTail))"

definition render_iosxe_route_map :: "string \<Rightarrow> string \<Rightarrow> int \<Rightarrow> int \<Rightarrow> string" where
  "render_iosxe_route_map name prefixList permitSeq denySeq =
     (if name = [] \<or> prefixList = [] then []
      else let permitSeq = (if permitSeq \<le> 0 then default_route_map_seq else permitSeq);
               denySeq = (if denySeq \<le> 0 then default_deny_seq else denySeq)
           in ''route-map '' @ name @ '' permit '' @ int_str permitSeq @ [nl]
              @ '' match ip address prefix-list '' @ prefixList @ [nl]
              @ ''route-map '' @ name @ '' deny '' @ int_str denySeq)"

definition render_iosxe_route_map_permit :: "string \<Rightarrow> string \<Rightarrow> int \<Rightarrow> string" where
  "render_iosxe_route_map_permit name prefixList permitSeq =
     (if name = [] \<or> prefixList = [] then []
      else let permitSeq = (if permitSeq \<le> 0 then default_vrf_leak_route_map_seq else permitSeq)
           in ''route-map '' @ name @ '' permit '' @ int_str permitSeq @ [nl]
              @ '' match ip address prefix-list '' @ prefixList)"

text \<open>The mask is a \<open>uint32\<close>: the shift drops the bits that leave the word.\<close>

definition ipv4_mask_dotted :: "int \<Rightarrow> string" where
  "ipv4_mask_dotted bits =
     (if bits \<le> 0 then ''0.0.0.0''
      else if bits \<ge> 32 then ''255.255.255.255''
      else let mask32 = push_bit (nat (32 - bits)) (0xFFFFFFFF :: 32 word);
               byte = (\<lambda>k. nat_str (unat (ucast (drop_bit k mask32 AND 0xFF) :: 8 word)))
           in byte 24 @ ''.'' @ byte 16 @ ''.'' @ byte 8 @ ''.'' @ byte 0)"

definition static_route_line :: "string \<Rightarrow> string \<Rightarrow> int \<Rightarrow> nprefix \<Rightarrow> string" where
  "static_route_line nextHop routeName tag p =
     (let addr = paddr (masked p) in
      if \<not> is4 addr then []
      else ''ip route '' @ addr_string addr @ '' '' @ ipv4_mask_dotted (pbits p) @ '' '' @ nextHop
        @ (if tag > 0 then '' tag '' @ int_str tag else [])
        @ (if routeName \<noteq> [] then '' name '' @ routeName else []) @ [nl])"

definition render_iosxe_static_routes :: "nprefix list \<Rightarrow> string \<Rightarrow> string \<Rightarrow> int \<Rightarrow> string" where
  "render_iosxe_static_routes prefixes nextHop routeName tag =
     (if length prefixes = 0 \<or> nextHop = [] then []
      else trim_right_nl (concat (map (static_route_line nextHop routeName tag) prefixes)))"

definition render_iosxe_redistribute_static :: "string \<Rightarrow> string \<Rightarrow> int \<Rightarrow> int \<Rightarrow> string" where
  "render_iosxe_redistribute_static rmap prefixList permitSeq denySeq =
     render_iosxe_route_map rmap prefixList permitSeq denySeq"

definition render_iosxe_bgp_redistribute_static :: "string \<Rightarrow> string \<Rightarrow> string" where
  "render_iosxe_bgp_redistribute_static asn rmap =
     (if asn = [] \<or> rmap = [] then []
      else ''router bgp '' @ asn @ [nl] @ '' address-family ipv4'' @ [nl]
        @ ''  redistribute static route-map '' @ rmap @ [nl] @ '' exit-address-family'')"

text \<open>The parts of a candidate in the order of the code, before the empty ones are dropped.\<close>

definition candidate_parts :: "cliFlags \<Rightarrow> nprefix list \<Rightarrow> string list" where
  "candidate_parts f prefixes =
     (let staticRouteMap = (if iosxeStaticNextHop f \<noteq> [] \<or> iosxeBGPAS f \<noteq> [] then iosxeStaticRouteMap f else []);
          parts = [render_iosxe_prefix_list (iosxePrefixList f) prefixes default_seq_step,
            render_iosxe_static_routes prefixes (iosxeStaticNextHop f) (iosxeStaticRouteName f) (iosxeStaticTag f),
            render_iosxe_redistribute_static staticRouteMap (iosxePrefixList f) default_route_map_seq (iosxeRouteMapDenySeq f),
            render_iosxe_route_map_permit (iosxeVRFLeakRouteMap f) (iosxePrefixList f) (iosxeVRFLeakRouteMapSeq f),
            render_iosxe_route_map (iosxeRouteMap f) (iosxePrefixList f) (iosxeRouteMapSeq f) (iosxeRouteMapDenySeq f),
            render_iosxe_bgp_redistribute_static (iosxeBGPAS f) staticRouteMap]
      in if iosxeReplacePrefixList f \<and> iosxePrefixList f \<noteq> []
         then (''no ip prefix-list '' @ iosxePrefixList f) # parts else parts)"

definition render_iosxe_candidate :: "cliFlags \<Rightarrow> nprefix list \<Rightarrow> string" where
  "render_iosxe_candidate f prefixes =
     str_join [nl] (List.filter (\<lambda>part. part \<noteq> []) (candidate_parts f prefixes))"

definition render_prefix_lines :: "nprefix list \<Rightarrow> string" where
  "render_prefix_lines prefixes =
     (if length prefixes = 0 then [] else str_join [nl] (map prefix_string prefixes))"

section \<open>Validation\<close>

definition validate_frr_target_mode :: "string \<Rightarrow> unit res" where
  "validate_frr_target_mode mode =
     (if mode = ''apply'' then Inr ()
      else Inl (wrapf [] (errors_new ErrUnsupportedTargetMode)
             ('': target '' @ go_quote ''frr'' @ '' only supports '' @ go_quote ''apply'')))"

definition validate_iosxe_apply_guard :: "cliFlags \<Rightarrow> int \<Rightarrow> unit res" where
  "validate_iosxe_apply_guard f prefixCount =
     (if targetMode f \<noteq> ''apply'' then
        Inl (wrapf [] (errors_new ErrUnsupportedTargetMode)
          ('': target '' @ go_quote (target f) @ '' supports '' @ go_quote ''render'' @ '' or '' @ go_quote ''apply''))
      else if iosxeApplyMaxPrefixes f > 0 \<and> prefixCount > iosxeApplyMaxPrefixes f then
        Inl (wrapf [] (errors_new ErrApplyPrefixLimit)
          ('': prefixes='' @ int_str prefixCount @ '' max='' @ int_str (iosxeApplyMaxPrefixes f)))
      else if iosxeSSHHost f = [] then
        Inl (wrapf [] (errors_new ErrIOSXEApplyConfig) '': --iosxe-ssh-host is required'')
      else if iosxeSSHUser f = [] then
        Inl (wrapf [] (errors_new ErrIOSXEApplyConfig) '': --iosxe-ssh-user is required'')
      else if iosxeSSHKeyFile f = [] then
        Inl (wrapf [] (errors_new ErrIOSXEApplyConfig) '': --iosxe-ssh-key-file is required'')
      else if iosxeKnownHostsFile f = [] then
        Inl (wrapf [] (errors_new ErrIOSXEApplyConfig) '': --iosxe-known-hosts-file is required'')
      else Inr ())"

section \<open>The apply script and its output\<close>

definition script_tail :: "cliFlags \<Rightarrow> string list" where
  "script_tail f =
     [''end'', ''show ip prefix-list '' @ iosxePrefixList f, ''show route-map '' @ iosxeRouteMap f]
     @ (if iosxeVRFLeakRouteMap f \<noteq> [] then [''show route-map '' @ iosxeVRFLeakRouteMap f] else [])
     @ (if iosxeStaticRouteMap f \<noteq> [] then [''show route-map '' @ iosxeStaticRouteMap f] else [])
     @ (if iosxeBGPAS f \<noteq> [] then [''show running-config | section ^router bgp''] else [])
     @ [''exit'']"

definition build_iosxe_apply_script :: "cliFlags \<Rightarrow> string \<Rightarrow> string" where
  "build_iosxe_apply_script f candidate =
     str_join [nl] ([''terminal length 0'', ''configure terminal''] @ split_on nl (trim_space candidate)
       @ script_tail f) @ [nl]"

definition trim_command_output :: "string \<Rightarrow> string" where
  "trim_command_output out =
     (let out = trim_space out in if length out \<le> limit_error_body then out else take limit_error_body out)"

definition rejections :: "string list" where
  "rejections = [''% Invalid'', ''% Ambiguous'', ''% Incomplete'', ''Failed'']"

definition required :: "cliFlags \<Rightarrow> string list" where
  "required f =
     [iosxePrefixList f, iosxeRouteMap f]
     @ (if iosxeVRFLeakRouteMap f \<noteq> [] then [iosxeVRFLeakRouteMap f] else [])
     @ (if iosxeStaticRouteMap f \<noteq> [] then [iosxeStaticRouteMap f] else [])
     @ (if iosxeBGPAS f \<noteq> [] then [''redistribute static route-map''] else [])"

definition verify_iosxe_apply_output :: "cliFlags \<Rightarrow> string \<Rightarrow> unit res" where
  "verify_iosxe_apply_output f out =
     (case List.find (str_contains out) rejections of
        Some marker \<Rightarrow>
          Inl (wrapf [] (errors_new ErrIOSXEApplyRejected)
            ('': marker='' @ go_quote marker @ '' output='' @ trim_command_output out))
      | None \<Rightarrow>
          (case List.find (\<lambda>marker. \<not> str_contains out marker) (required f) of
             Some marker \<Rightarrow>
               Inl (wrapf [] (errors_new ErrIOSXEPostcheckFailed)
                 ('': missing '' @ go_quote marker @ '' in output='' @ trim_command_output out))
           | None \<Rightarrow> Inr ()))"

section \<open>The prefix-list\<close>

definition permit_line :: "string \<Rightarrow> int \<Rightarrow> nprefix \<Rightarrow> string" where
  "permit_line name s p = ''ip prefix-list '' @ name @ '' seq '' @ int_str s @ '' permit '' @ prefix_string p"

definition deny_line :: "string \<Rightarrow> int \<Rightarrow> string" where
  "deny_line name s = ''ip prefix-list '' @ name @ '' seq '' @ int_str s @ '' deny 0.0.0.0/0 le 32''"

definition permit_seqs :: "nat \<Rightarrow> int list" where
  "permit_seqs n = map (\<lambda>i. (int i + 1) * default_seq_step) [0..<n]"

lemma enumerate_map2: "map (\<lambda>(i, p). g (h i) p) (enumerate 0 ps) = map2 g (map h [0..<length ps]) ps"
  by (rule nth_equalityI) (simp_all add: nth_enumerate_eq)

lemma prefix_list_lines:
  assumes "nl \<notin> set name" "list_all prefix_wf ps" "ps \<noteq> []"
  shows "split_on nl (render_iosxe_prefix_list name ps default_seq_step) =
    map2 (permit_line name) (permit_seqs (length ps)) ps @ [deny_line name iosxe_deny_tail_seq]"
proof -
  let ?ls = "map2 (permit_line name) (permit_seqs (length ps)) ps @ [deny_line name iosxe_deny_tail_seq]"
  have "concat (map (\<lambda>(i, p). ''ip prefix-list '' @ name @ '' seq '' @ int_str ((int i + 1) * default_seq_step)
      @ '' permit '' @ prefix_string p @ [nl]) (enumerate 0 ps))
    = concat (map (\<lambda>l. l @ [nl]) (map2 (permit_line name) (permit_seqs (length ps)) ps))"
    unfolding permit_seqs_def using enumerate_map2
      [of "\<lambda>s p. ''ip prefix-list '' @ name @ '' seq '' @ int_str s @ '' permit '' @ prefix_string p @ [nl]"
        "\<lambda>i. (int i + 1) * default_seq_step" ps]
    by (simp add: permit_line_def comp_def case_prod_unfold)
  then have r: "render_iosxe_prefix_list name ps default_seq_step = trim_right_nl (concat (map (\<lambda>l. l @ [nl]) ?ls))"
    using assms(3) by (simp add: render_iosxe_prefix_list_def Let_def default_seq_step_def deny_line_def)
  have "nl \<notin> set l" if "l \<in> set ?ls" for l
    using that assms(1,2) by (auto simp: permit_line_def deny_line_def list_all_iff dest!: set_zip_rightD)
  then show ?thesis unfolding r by (intro split_on_trimmed) (auto simp: deny_line_def)
qed

lemma permit_seqs_sorted: "sorted_wrt (<) (permit_seqs n @ [iosxe_deny_tail_seq]) \<longleftrightarrow> n \<le> 99999"
proof -
  have "sorted_wrt (<) (permit_seqs n)"
    by (simp add: permit_seqs_def sorted_wrt_map default_seq_step_def sorted_wrt_mono_rel [OF _ sorted_wrt_upt])
  moreover have "(\<forall>s \<in> set (permit_seqs n). s < iosxe_deny_tail_seq) \<longleftrightarrow> n \<le> 99999"
  proof
    assume a: "\<forall>s \<in> set (permit_seqs n). s < iosxe_deny_tail_seq"
    show "n \<le> 99999"
    proof (rule ccontr)
      assume "\<not> n \<le> 99999"
      then have "(int 99999 + 1) * default_seq_step \<in> set (permit_seqs n)"
        unfolding permit_seqs_def set_map set_upt by (intro imageI) simp
      then show False using a by (force simp: default_seq_step_def iosxe_deny_tail_seq_def)
    qed
  qed (auto simp: permit_seqs_def default_seq_step_def iosxe_deny_tail_seq_def)
  ultimately show ?thesis by (auto simp: sorted_wrt_append)
qed

text \<open>C30: An empty IOS XE prefix-list renders as nothing. Any other is one permit line per prefix,
  numbered 10, 20, 30 and so on, and a final deny line with number 999999. The numbers increase up
  to the deny exactly if there are at most 99999 prefixes; every permit from the 100000th on has a
  greater number than the deny.\<close>

theorem prefix_list_numbered:
  assumes "nl \<notin> set name" "list_all prefix_wf ps" "seqs = map (\<lambda>i. 10 * (int i + 1)) [0..<length ps]"
  shows "(if ps = [] then render_iosxe_prefix_list name ps default_seq_step = []
      else split_on nl (render_iosxe_prefix_list name ps default_seq_step) =
        map2 (permit_line name) seqs ps @ [deny_line name 999999])
    \<and> (sorted_wrt (<) (seqs @ [999999]) \<longleftrightarrow> length ps \<le> 99999)
    \<and> (\<forall>i < length ps. if i < 99999 then seqs ! i < 999999 else 999999 < seqs ! i)"
proof -
  have s: "seqs = permit_seqs (length ps)" by (simp add: assms(3) permit_seqs_def default_seq_step_def)
  have "if ps = [] then render_iosxe_prefix_list name ps default_seq_step = []
      else split_on nl (render_iosxe_prefix_list name ps default_seq_step) =
        map2 (permit_line name) seqs ps @ [deny_line name 999999]"
    using prefix_list_lines [OF assms(1,2)] by (simp add: s iosxe_deny_tail_seq_def render_iosxe_prefix_list_def)
  moreover have "sorted_wrt (<) (seqs @ [999999]) \<longleftrightarrow> length ps \<le> 99999"
    using permit_seqs_sorted [of "length ps"] by (simp only: s iosxe_deny_tail_seq_def)
  moreover have "\<forall>i < length ps. if i < 99999 then seqs ! i < 999999 else 999999 < seqs ! i"
    by (auto simp: assms(3))
  ultimately show ?thesis by blast
qed

section \<open>Static routes\<close>

lemma low_byte:
  assumes "k \<le> 24"
  shows "unat (ucast (drop_bit k m AND 0xFF) :: 8 word) = unat (addr128 (addr_from4 m)) div 2 ^ k mod 256"
proof -
  have ff: "(0xFF :: 32 word) = mask 8" by (simp add: mask_eq_exp_minus_1)
  have "(0xFFFF00000000 :: 128 word) = push_bit 32 0xFFFF" by (simp add: push_bit_eq_mult)
  then have hi: "\<not> bit (0xFFFF00000000 :: 128 word) j" if "j < 32" for j
    using that by (simp only: bit_push_bit_iff) simp
  have "unat (ucast (drop_bit k m AND 0xFF) :: 8 word) = take_bit 8 (drop_bit k (unat (addr128 (addr_from4 m))))"
    unfolding ff addr_from4_def addr.sel
    using assms hi by (intro bit_eqI) (auto simp: bit_simps dest: bit_imp_le_length)
  then show ?thesis by (simp add: take_bit_eq_mod drop_bit_eq_div)
qed

lemma mask_dotted_string4:
  assumes "0 \<le> b" "b \<le> 32"
  shows "ipv4_mask_dotted b = string4 (addr_from4 (NOT (mask (nat (32 - b)))))"
proof -
  let ?m = "NOT (mask (nat (32 - b))) :: 32 word"
  have s: "string4 (addr_from4 m) = nat_str (unat (ucast (drop_bit 24 m AND 0xFF) :: 8 word)) @ ''.''
      @ nat_str (unat (ucast (drop_bit 16 m AND 0xFF) :: 8 word)) @ ''.''
      @ nat_str (unat (ucast (drop_bit 8 m AND 0xFF) :: 8 word)) @ ''.''
      @ nat_str (unat (ucast (drop_bit 0 m AND 0xFF) :: 8 word))" for m
    using low_byte [of 24 m] low_byte [of 16 m] low_byte [of 8 m] low_byte [of 0 m] by (simp add: string4_def Let_def)
  have ones: "(0xFFFFFFFF :: 32 word) = NOT 0" by simp
  consider "b = 0" | "b = 32" | "0 < b" "b < 32" using assms by linarith
  then show ?thesis
  proof cases
    case 1
    have "NOT (mask 32) = (0 :: 32 word)" by (rule bit_word_eqI) (simp add: bit_simps)
    moreover have "nat_str 0 = ''0''" by code_simp
    ultimately show ?thesis using 1 by (simp add: ipv4_mask_dotted_def s)
  next
    case 2
    have "nat_str 255 = ''255''" by code_simp
    then show ?thesis using 2 by (simp add: ipv4_mask_dotted_def s mask_eq_exp_minus_1)
  next
    case 3
    have "push_bit (nat (32 - b)) (0xFFFFFFFF :: 32 word) = ?m"
      unfolding ones by (rule bit_word_eqI) (auto simp: bit_simps)
    then show ?thesis using 3 by (simp only: ipv4_mask_dotted_def s Let_def) simp
  qed
qed

lemma ipv4_mask_dotted_netmask:
  assumes "0 \<le> b" "b \<le> 32"
  shows "parse_addr (ipv4_mask_dotted b) = Inr (addr_from4 (NOT (mask (nat (32 - b)))))"
  unfolding mask_dotted_string4 [OF assms] by (rule parse_string4) simp_all

lemma static_routes_lines:
  assumes "list_all (\<lambda>p. canonical p \<and> is4 (paddr p)) ps" "ps \<noteq> []" "nextHop \<noteq> []"
    "nl \<notin> set nextHop" "nl \<notin> set routeName"
  shows "split_on nl (render_iosxe_static_routes ps nextHop routeName tag) =
    map (\<lambda>p. ''ip route '' @ addr_string (paddr p) @ '' '' @ ipv4_mask_dotted (pbits p) @ '' '' @ nextHop
        @ (if tag > 0 then '' tag '' @ int_str tag else [])
        @ (if routeName \<noteq> [] then '' name '' @ routeName else [])) ps"
proof -
  let ?line = "\<lambda>p. ''ip route '' @ addr_string (paddr p) @ '' '' @ ipv4_mask_dotted (pbits p) @ '' '' @ nextHop
        @ (if tag > 0 then '' tag '' @ int_str tag else [])
        @ (if routeName \<noteq> [] then '' name '' @ routeName else [])"
  have p: "static_route_line nextHop routeName tag p = ?line p @ [nl]" "nl \<notin> set (?line p)" if "p \<in> set ps" for p
  proof -
    have c: "masked p = p" "is4 (paddr p)" "prefix_wf p" using that assms(1) by (auto simp: list_all_iff canonical_def)
    then show "static_route_line nextHop routeName tag p = ?line p @ [nl]" by (simp add: static_route_line_def)
    have "nl \<notin> set (addr_string (paddr p))" using c(3) by (simp add: prefix_wf_def)
    moreover have "nl \<notin> set (ipv4_mask_dotted (pbits p))"
      by (auto simp: ipv4_mask_dotted_def Let_def)
    ultimately show "nl \<notin> set (?line p)" using assms(4,5) by auto
  qed
  have "map (static_route_line nextHop routeName tag) ps = map (\<lambda>p. ?line p @ [nl]) ps"
    using p(1) by (intro map_cong refl)
  then have "render_iosxe_static_routes ps nextHop routeName tag = trim_right_nl (concat (map (\<lambda>l. l @ [nl]) (map ?line ps)))"
    using assms(2,3) by (simp only: render_iosxe_static_routes_def length_0_conv simp_thms if_False map_map comp_def)
  moreover have "split_on nl (trim_right_nl (concat (map (\<lambda>l. l @ [nl]) (map ?line ps)))) = map ?line ps"
    using p(2) assms(2) by (intro split_on_trimmed) (auto simp del: set_append simp: last_map)
  ultimately show ?thesis by simp
qed

section \<open>The guard, the script and the check of its output\<close>

lemma apply_guard_iff:
  "validate_iosxe_apply_guard f n = Inr () \<longleftrightarrow>
     targetMode f = ''apply'' \<and> (iosxeApplyMaxPrefixes f \<le> 0 \<or> n \<le> iosxeApplyMaxPrefixes f)
     \<and> iosxeSSHHost f \<noteq> [] \<and> iosxeSSHUser f \<noteq> [] \<and> iosxeSSHKeyFile f \<noteq> [] \<and> iosxeKnownHostsFile f \<noteq> []"
  by (auto simp: validate_iosxe_apply_guard_def)

lemma trim_space_chars: "c \<notin> set s \<Longrightarrow> c \<notin> set (trim_space s)"
  using set_trim_space [of s] by blast

lemma apply_script_lines:
  assumes "nl \<notin> set (iosxePrefixList f @ iosxeRouteMap f @ iosxeVRFLeakRouteMap f @ iosxeStaticRouteMap f)"
  shows "split_on nl (build_iosxe_apply_script f candidate) =
    [''terminal length 0'', ''configure terminal''] @ split_on nl (trim_space candidate) @ script_tail f @ [[]]"
proof -
  have sp: "nl \<notin> set l" if "l \<in> set (split_on nl s)" for l s
    using that by (induction s arbitrary: l) (auto split: list.splits if_splits)
  let ?ls = "[''terminal length 0'', ''configure terminal''] @ split_on nl (trim_space candidate) @ script_tail f"
  have "nl \<notin> set l" if "l \<in> set ?ls" for l
    using that sp [of l "trim_space candidate"] assms by (auto simp: script_tail_def split: if_splits)
  then have "\<forall>l \<in> set (?ls @ [[]]). nl \<notin> set l" by simp
  moreover have "build_iosxe_apply_script f candidate = str_join [nl] (?ls @ [[]])"
  proof -
    have "str_join [nl] xs @ [nl] = str_join [nl] (xs @ [[]])" if "xs \<noteq> []" for xs
      using that by (induction "[nl]" xs rule: str_join.induct) auto
    then show ?thesis unfolding build_iosxe_apply_script_def by simp
  qed
  ultimately show ?thesis using split_on_join [of "?ls @ [[]]"] by simp
qed

lemma verify_output_iff:
  "verify_iosxe_apply_output f out = Inr () \<longleftrightarrow>
     list_all (\<lambda>m. \<not> str_contains out m) rejections \<and> list_all (str_contains out) (required f)"
  by (auto simp: verify_iosxe_apply_output_def find_None_iff find_Some_iff list_all_iff split: option.splits)

section \<open>Concrete inputs\<close>

lemma prefix_list_numbered_witness:
  "split_on nl (render_iosxe_prefix_list ''PL'' [net_a, net_b] default_seq_step) =
    [permit_line ''PL'' 10 net_a, permit_line ''PL'' 20 net_b, deny_line ''PL'' 999999]"
  using prefix_list_numbered [of "''PL''" "[net_a, net_b]" "[10, 20]"] nets_canonical by (simp add: canonical_def upt_rec)

end
