(* ===== verification/Extras.thy ===== *)
theory Extras
  imports NetipText6 Iosxe
begin

text \<open>
  extras.go: the operator's prefix lists. \<open>loadExtras\<close> reads one file with a line scanner
  and returns its prefixes, or the first error. The file system's answers are an argument: what
  \<open>os.Open\<close>, \<open>Stat\<close> and the reads return. The results: what is returned is canonical and of
  the requested family, the scanner splits a file into its lines, a list printed by the file
  target loads back unchanged, and each kind of error is raised in the cases the code names.
\<close>

section \<open>The line scanner\<close>

text \<open>What a file gives when it is opened, examined and read to the end (or to a read error).\<close>

datatype file_read =
    OpenErr go_error
  | StatErr go_error
  | FileRead (regular: bool) (file_size: int) (file_bytes: string) (read_err: "go_error option")

definition extras_max_file_bytes :: int where "extras_max_file_bytes = 2 ^ 20"
definition extras_max_line_bytes :: nat where "extras_max_line_bytes = 4096"

definition utf8_bom :: string where "utf8_bom = [CHR 0xEF, CHR 0xBB, CHR 0xBF]"

definition drop_cr :: "string \<Rightarrow> string" where
  "drop_cr l = (if l \<noteq> [] \<and> last l = CHR 0x0D then butlast l else l)"

text \<open>
  \<open>bufio.Scanner\<close> with \<open>ScanLines\<close> over a buffer of \<open>cap\<close> bytes: the next token and
  the rest, or the end of the input, or \<open>ErrTooLong\<close> when the buffer is full and holds no newline.
\<close>

datatype scan_step = ScanToken string string | ScanEOF | ScanTooLong

definition scan :: "nat \<Rightarrow> string \<Rightarrow> scan_step" where
  "scan cap s =
     (let l = takeWhile (\<lambda>c. c \<noteq> nl) s in
      if s = [] then ScanEOF
      else if cap \<le> length l then ScanTooLong
      else ScanToken (drop_cr l) (tl (dropWhile (\<lambda>c. c \<noteq> nl) s)))"

definition trim_prefix :: "string \<Rightarrow> string \<Rightarrow> string" where
  "trim_prefix s p = (if has_prefix s p then drop (length p) s else s)"

definition cut_at :: "char \<Rightarrow> string \<Rightarrow> string" where
  "cut_at c s = takeWhile (\<lambda>d. d \<noteq> c) s"

section \<open>matchesFamily and loadExtras\<close>

definition matches_family :: "nprefix \<Rightarrow> int \<Rightarrow> bool" where
  "matches_family p family =
     (if family = 4 then is4 (paddr p)
      else if family = 6 then is6 (paddr p) \<and> \<not> is4in6 (paddr p)
      else False)"

text \<open>The text a line holds: BOM (first line), comment and blanks removed.\<close>

definition clean_line :: "nat \<Rightarrow> string \<Rightarrow> string" where
  "clean_line lineNo raw =
     trim_space (cut_at (CHR ''#'') (if lineNo = 1 then trim_prefix raw utf8_bom else raw))"

text \<open>The body of the scan loop for one line: no prefix, a prefix, or an error.\<close>

definition extras_line :: "string \<Rightarrow> int \<Rightarrow> nat \<Rightarrow> string \<Rightarrow> nprefix option res" where
  "extras_line path family lineNo raw =
     (let clean = clean_line lineNo raw in
      if clean = [] then Inr None
      else case parse_prefix clean of
        Inl parseErr \<Rightarrow>
          Inl (wrapf2 [] (errors_new ErrExtrasInvalidPrefix)
                 ('': '' @ path @ '':'' @ nat_str lineNo @ '': '' @ go_quote clean @ '': '') parseErr [])
      | Inr prefix \<Rightarrow>
          if \<not> matches_family prefix family
          then Inl (wrapf [] (errors_new ErrExtrasFamilyMismatch)
                 ('': '' @ path @ '':'' @ nat_str lineNo @ '': '' @ go_quote clean
                  @ '': want v'' @ int_str family))
          else Inr (Some (masked prefix)))"

lemma scan_token_length: "scan cap s = ScanToken raw rest \<Longrightarrow> length rest < length s"
proof -
  assume "scan cap s = ScanToken raw rest"
  then have "rest = tl (dropWhile (\<lambda>c. c \<noteq> nl) s)" "s \<noteq> []"
    by (auto simp: scan_def Let_def split: if_splits)
  moreover have "length (dropWhile (\<lambda>c. c \<noteq> nl) s) \<le> length s" by (rule length_dropWhile_le)
  ultimately show ?thesis by (cases "dropWhile (\<lambda>c. c \<noteq> nl) s") auto
qed

text \<open>The scan loop: \<open>lineNo\<close> lines have been read, \<open>rerr\<close> is the error that ended the reads.\<close>

function scan_loop :: "string \<Rightarrow> int \<Rightarrow> go_error option \<Rightarrow> nat \<Rightarrow> nprefix list \<Rightarrow> string \<Rightarrow> nprefix list res" where
  "scan_loop path family rerr lineNo out s =
     (case scan extras_max_line_bytes s of
        ScanTooLong \<Rightarrow>
          Inl (wrapf [] (errors_new ErrExtrasLineTooLong)
                 ('': '' @ path @ '':'' @ nat_str (lineNo + 1) @ '' (limit ''
                  @ nat_str extras_max_line_bytes @ '' bytes)''))
      | ScanEOF \<Rightarrow>
          (case rerr of
             Some e \<Rightarrow> Inl (wrapf (''scan extras '' @ path @ '': '') e [])
           | None \<Rightarrow> Inr out)
      | ScanToken raw rest \<Rightarrow>
          (case extras_line path family (lineNo + 1) raw of
             Inl e \<Rightarrow> Inl e
           | Inr None \<Rightarrow> scan_loop path family rerr (lineNo + 1) out rest
           | Inr (Some p) \<Rightarrow> scan_loop path family rerr (lineNo + 1) (out @ [p]) rest))"
  by pat_completeness auto

termination
  by (relation "measure (\<lambda>(path, family, rerr, lineNo, out, s). length s)")
    (auto dest: scan_token_length)

declare scan_loop.simps [simp del]

definition load_extras :: "(string \<Rightarrow> file_read) \<Rightarrow> string \<Rightarrow> int \<Rightarrow> nprefix list res" where
  "load_extras files path family =
     (if path = [] then Inr []
      else case files path of
        OpenErr e \<Rightarrow>
          if errors_is e FsErrNotExist then Inl (wrapf (''extras file '' @ path @ '': '') e [])
          else Inl (wrapf (''open extras '' @ path @ '': '') e [])
      | StatErr e \<Rightarrow> Inl (wrapf (''stat extras '' @ path @ '': '') e [])
      | FileRead reg sz content rerr \<Rightarrow>
          if reg \<and> sz > extras_max_file_bytes
          then Inl (wrapf [] (errors_new ErrExtrasTooLarge)
                 ('': '' @ path @ '': '' @ int_str sz @ '' > '' @ int_str extras_max_file_bytes @ '' bytes''))
          else scan_loop path family rerr 0 [] content)"

section \<open>What is returned is canonical and of the family\<close>

lemma is4in6_masked:
  assumes "prefix_wf p" "is4in6 (paddr (masked p))"
  shows "is4in6 (paddr p)"
proof -
  let ?w = "addr128 (paddr p)"
  have m: "drop_bit 32 (?w AND NOT (mask (host p))) = 0xFFFF" and z: "is6 (paddr p)"
    using assms by (auto simp: is4in6_def masked_eq is6_def)
  have "bit (drop_bit 32 (?w AND NOT (mask (host p)))) 0" unfolding m by simp
  then have "host p \<le> 32" by (simp add: bit_simps)
  then have "drop_bit 32 (?w AND NOT (mask (host p))) = drop_bit 32 ?w"
    by (intro bit_word_eqI) (auto simp: bit_simps dest: bit_imp_le_length)
  then show ?thesis using m z by (simp add: is4in6_def)
qed

lemma matches_family_masked:
  assumes "prefix_wf p" "matches_family p family"
  shows "matches_family (masked p) family"
  using assms is4in6_masked [OF assms(1)]
  by (auto simp: matches_family_def is4_def is6_def paddr_masked split: if_splits)

definition extras_ok :: "int \<Rightarrow> nprefix \<Rightarrow> bool" where
  "extras_ok family p = (canonical p \<and> matches_family p family)"

lemma extras_line_ok:
  assumes "extras_line path family lineNo raw = Inr (Some p)"
  shows "extras_ok family p"
  using assms canonical_masked [OF parse_prefix_wf] matches_family_masked [OF parse_prefix_wf]
  by (auto simp: extras_line_def Let_def extras_ok_def split: if_splits sum.splits)

lemma scan_loop_ok:
  "scan_loop path family rerr lineNo out s = Inr ps \<Longrightarrow> list_all (extras_ok family) out
    \<Longrightarrow> list_all (extras_ok family) ps"
proof (induction path family rerr lineNo out s rule: scan_loop.induct)
  case (1 path family rerr lineNo out s)
  show ?case
  proof (cases "scan extras_max_line_bytes s")
    case (ScanToken raw rest)
    show ?thesis
    proof (cases "extras_line path family (lineNo + 1) raw")
      case (Inr r)
      show ?thesis
      proof (cases r)
        case None
        then show ?thesis
          using "1.prems" ScanToken Inr
          by (intro "1.IH"(1) [OF ScanToken Inr None]) (simp_all add: scan_loop.simps [of _ _ _ _ _ s])
      next
        case (Some p)
        have "extras_ok family p" using extras_line_ok Inr Some by simp
        then show ?thesis
          using "1.prems" ScanToken Inr Some
          by (intro "1.IH"(2) [OF ScanToken Inr Some]) (simp_all add: scan_loop.simps [of _ _ _ _ _ s])
      qed
    qed (use "1.prems" ScanToken in \<open>simp add: scan_loop.simps [of _ _ _ _ _ s]\<close>)
  qed (use "1.prems" in \<open>simp_all add: scan_loop.simps [of _ _ _ _ _ s] split: option.splits\<close>)
qed

lemma load_extras_ok:
  assumes "load_extras files path family = Inr ps"
  shows "list_all canonical ps \<and> list_all (\<lambda>p. matches_family p family) ps"
proof -
  have "list_all (extras_ok family) ps"
    using assms by (auto simp: load_extras_def split: if_splits file_read.splits dest: scan_loop_ok)
  then show ?thesis by (simp add: extras_ok_def list_all_iff)
qed

section \<open>Line by line\<close>

text \<open>The lines of a file: separated by newlines, without a last empty one.\<close>

definition file_lines :: "string \<Rightarrow> string list" where
  "file_lines s = (let ls = split_on nl s in if last ls = [] then butlast ls else ls)"

fun load_lines :: "string \<Rightarrow> int \<Rightarrow> nat \<Rightarrow> string list \<Rightarrow> nprefix list res" where
  "load_lines path family lineNo [] = Inr []"
| "load_lines path family lineNo (l # ls) =
     (case extras_line path family (lineNo + 1) (drop_cr l) of
        Inl e \<Rightarrow> Inl e
      | Inr r \<Rightarrow> map_sum id ((@) (case r of None \<Rightarrow> [] | Some p \<Rightarrow> [p])) (load_lines path family (lineNo + 1) ls))"

lemma file_lines_step:
  assumes "s \<noteq> []"
  shows "file_lines s = takeWhile (\<lambda>d. d \<noteq> nl) s # file_lines (tl (dropWhile (\<lambda>d. d \<noteq> nl) s))"
proof (cases "nl \<in> set s")
  case True
  then show ?thesis
    unfolding file_lines_def Let_def by (subst (1 2 3) split_on_skip) simp
next
  case False
  then have "takeWhile (\<lambda>d. d \<noteq> nl) s = s" "dropWhile (\<lambda>d. d \<noteq> nl) s = []"
    by (auto simp: takeWhile_eq_all_conv)
  then show ?thesis
    using assms False by (simp only: file_lines_def Let_def split_on_skip [of nl s]) simp
qed

lemma scan_loop_lines:
  assumes "list_all (\<lambda>l. length l < 4096) (file_lines s)"
  shows "scan_loop path family None lineNo out s = map_sum id ((@) out) (load_lines path family lineNo (file_lines s))"
  using assms
proof (induction "length s" arbitrary: s lineNo out rule: less_induct)
  case less
  show ?case
  proof (cases "s = []")
    case False
    let ?l = "takeWhile (\<lambda>d. d \<noteq> nl) s" and ?rest = "tl (dropWhile (\<lambda>d. d \<noteq> nl) s)"
    note st = file_lines_step [OF False]
    have short: "length ?l < 4096" and rl: "list_all (\<lambda>l. length l < 4096) (file_lines ?rest)"
      using less.prems st by simp_all
    then have sc: "scan extras_max_line_bytes s = ScanToken (drop_cr ?l) ?rest"
      using False by (simp add: scan_def extras_max_line_bytes_def)
    note IH = less.hyps [OF scan_token_length [OF sc] rl]
    show ?thesis
      by (subst scan_loop.simps, cases "load_lines path family (Suc lineNo) (file_lines ?rest)")
        (auto simp: sc st IH split: sum.split option.split)
  qed (simp add: scan_loop.simps scan_def file_lines_def)
qed

lemma load_extras_by_line:
  assumes "path \<noteq> []" "files path = FileRead reg sz content None" "reg \<longrightarrow> sz \<le> 1048576"
    "list_all (\<lambda>l. length l < 4096) (file_lines content)"
  shows "load_extras files path family = load_lines path family 0 (file_lines content)"
proof -
  have "map_sum id ((@) []) r = r" for r :: "nprefix list res" by (cases r) simp_all
  then show ?thesis
    using assms scan_loop_lines [OF assms(4), of path family 0 "[]"]
    by (auto simp: load_extras_def extras_max_file_bytes_def)
qed

section \<open>A printed list loads back\<close>

lemma trim_left_id:
  assumes "\<forall>r \<in> set rs. r \<noteq> [] \<and> hd r \<noteq> hd s" "s \<noteq> []"
  shows "trim_left_runes rs s = s"
proof -
  have "\<not> has_prefix s r" if "r \<in> set rs" for r
    using assms that by (cases r; cases s) (auto simp: has_prefix_def)
  then have "List.find (has_prefix s) rs = None" by (simp add: find_None_iff)
  then show ?thesis by (simp add: trim_left_runes.simps [of rs s] space_width_def)
qed

lemma trim_space_prefix_chars:
  assumes "s \<noteq> []" "list_all prefix_char s"
  shows "trim_space s = s"
proof -
  have r: "\<forall>r \<in> set space_runes. r \<noteq> [] \<and> \<not> prefix_char (hd r) \<and> \<not> prefix_char (last r)"
    by (simp add: space_runes_def prefix_char_def is_digit_def less_eq_char_def)
  have c: "prefix_char (hd s)" "prefix_char (last s)" using assms by (simp_all add: list_all_iff)
  then have "trim_left_runes space_runes s = s"
    using assms r by (intro trim_left_id) auto
  moreover have "trim_left_runes (map rev space_runes) (rev s) = rev s"
    using assms r c by (intro trim_left_id) (auto simp: hd_rev)
  ultimately show ?thesis by (simp add: trim_space_def)
qed

lemma prefix_char_not: "prefix_char c \<Longrightarrow> c \<noteq> CHR ''#''" "prefix_char c \<Longrightarrow> c \<noteq> CHR 0x0D" "prefix_char c \<Longrightarrow> c \<noteq> CHR 0xEF"
  by (auto simp: prefix_char_def is_digit_iff)

lemma prefix_string_nonempty: "prefix_string p \<noteq> []"
  by (simp add: prefix_string_def)

lemma file_lines_empty: "file_lines [] = []"
  by (simp add: file_lines_def)

lemma file_lines_print:
  assumes "list_all prefix_wf ps" "ps \<noteq> []"
  shows "file_lines (render_prefix_lines ps @ [nl]) = map prefix_string ps"
  using assms
proof (induction ps)
  case (Cons p ps)
  let ?s = "render_prefix_lines (p # ps) @ [nl]"
  have "nl \<notin> set (prefix_string p)" using Cons.prems by simp
  then have nl: "\<forall>c \<in> set (prefix_string p). c \<noteq> nl" by blast
  have "takeWhile (\<lambda>d. d \<noteq> nl) ?s = prefix_string p"
    "tl (dropWhile (\<lambda>d. d \<noteq> nl) ?s) = (if ps = [] then [] else render_prefix_lines ps @ [nl])"
    using nl by (cases ps; simp add: render_prefix_lines_def takeWhile_append dropWhile_append)+
  then have "file_lines ?s = prefix_string p # file_lines (if ps = [] then [] else render_prefix_lines ps @ [nl])"
    using file_lines_step [of ?s] by simp
  then show ?case using Cons by (cases "ps = []") (simp_all add: file_lines_empty)
qed simp

lemma extras_line_print:
  assumes "canonical p" "matches_family p family"
  shows "extras_line path family n (drop_cr (prefix_string p)) = Inr (Some p)"
proof -
  have wf: "prefix_wf p" and m: "masked p = p" using assms by (simp_all add: canonical_def)
  note ne = prefix_string_nonempty [of p]
  have pl: "prefix_char c" if "c \<in> set (prefix_string p)" for c
    using prefix_string_chars [OF wf] that by (simp add: list_all_iff)
  have "drop_cr (prefix_string p) = prefix_string p"
    using pl prefix_char_not(2) ne by (auto simp: drop_cr_def dest!: last_in_set)
  moreover have "cut_at (CHR ''#'') (prefix_string p) = prefix_string p"
    unfolding cut_at_def takeWhile_eq_all_conv using pl prefix_char_not(1) by blast
  moreover have "\<not> has_prefix (prefix_string p) utf8_bom"
    using ne pl prefix_char_not(3) by (cases "prefix_string p") (auto simp: has_prefix_def utf8_bom_def)
  ultimately have "clean_line n (drop_cr (prefix_string p)) = prefix_string p"
    by (simp add: clean_line_def trim_prefix_def trim_space_prefix_chars prefix_string_chars wf ne)
  then show ?thesis
    using ne assms(2) m parse_prefix_string [OF wf] by (simp add: extras_line_def)
qed

lemma load_lines_print:
  assumes "list_all (extras_ok family) ps"
  shows "load_lines path family n (map prefix_string ps) = Inr ps"
  using assms by (induction ps arbitrary: n) (simp_all add: extras_ok_def extras_line_print)

lemma load_lines_blank: "load_lines path family n [[]] = Inr []"
  by (simp add: extras_line_def clean_line_def drop_cr_def trim_prefix_def has_prefix_def utf8_bom_def cut_at_def
      trim_space_def trim_left_runes.simps space_width_def Let_def)

lemma load_extras_printed:
  assumes "path \<noteq> []" "files path = FileRead reg sz (render_prefix_lines ps @ [nl]) None" "reg \<longrightarrow> sz \<le> 1048576"
    "list_all (extras_ok family) ps"
  shows "load_extras files path family = Inr ps"
proof -
  note by_line = load_extras_by_line [of path files reg sz "render_prefix_lines ps @ [nl]" family, OF assms(1,2,3)]
  show ?thesis
  proof (cases "ps = []")
    case True
    then have l: "file_lines (render_prefix_lines ps @ [nl]) = [[]]"
      by (simp add: render_prefix_lines_def file_lines_def)
    then show ?thesis using by_line True by (simp add: load_lines_blank del: load_lines.simps)
  next
    case False
    have wf: "list_all prefix_wf ps" using assms(4) by (simp add: list_all_iff extras_ok_def canonical_def)
    then have "list_all (\<lambda>l. length l < 4096) (map prefix_string ps)"
      by (simp add: list_all_iff prefix_string_short)
    then show ?thesis
      using by_line load_lines_print [OF assms(4)] by (simp add: file_lines_print [OF wf False])
  qed
qed

text \<open>Only the file named is looked at.\<close>

lemma load_extras_cong: "files path = files' path \<Longrightarrow> load_extras files path family = load_extras files' path family"
  by (simp add: load_extras_def)

text \<open>C16: For a file within the size limits the scanner loop of loadExtras equals a plain recursion over
  the lines of the file, each line handled with its number, the first error returned.\<close>

theorem load_extras_lines:
  assumes "path \<noteq> []" "files path = FileRead reg sz content None" "reg \<longrightarrow> sz \<le> 1048576"
    "list_all (\<lambda>l. length l < 4096) (file_lines content)"
  shows "load_extras files path family = load_lines path family 0 (file_lines content)"
  using assms by (rule load_extras_by_line)

section \<open>Concrete files\<close>

definition net_6 :: nprefix where "net_6 = Prefix (Addr (push_bit 112 0x2001) (Z6 [])) 16"

abbreviation net_c :: nprefix where "net_c \<equiv> Prefix (addr_from4 0xC0A80000) 16"

lemma net_6_canonical: "list_all (\<lambda>p. canonical p \<and> matches_family p 6) [net_6]"
  by code_simp

lemma net_c_canonical: "list_all (\<lambda>p. canonical p \<and> matches_family p 4) [net_c]"
  by code_simp

lemma load_extras_lines_witness:
  "load_extras (\<lambda>_. FileRead True 3 [CHR ''#'', nl] None) ''x'' 4 = load_lines ''x'' 4 0 [''#'']"
  using load_extras_lines [of "''x''" "\<lambda>_. FileRead True 3 [CHR ''#'', nl] None" True 3 "[CHR ''#'', nl]" 4]
  by (simp add: file_lines_def)

end
