(* ===== verification/FrrConfig.thy ===== *)
theory FrrConfig
  imports NetipText Config
begin

text \<open>
  The text of frr.conf: \<open>renderNetworks\<close> prints the prefixes of one family, \<open>splice\<close> puts
  the block between its marker comments, and the two splices of \<open>run\<close> give the next
  configuration. The results: what \<open>splice\<close> reports when a marker is missing or misplaced,
  that the text outside the block is kept, and that a second run on its own output changes
  nothing, so the program sees the file as unchanged. The sample \<open>printSample\<close> logs is the first five
  lines of a block.
\<close>

section \<open>renderNetworks and splice\<close>

definition render_networks :: "nprefix list \<Rightarrow> string \<Rightarrow> string" where
  "render_networks ps rmap =
     (if length ps = 0 then []
      else trim_right_nl (concat (map (\<lambda>p.
        ''  network '' @ prefix_string p @ '' route-map '' @ rmap @ [nl]) ps)))"

definition splice :: "string \<Rightarrow> string \<Rightarrow> string \<Rightarrow> string \<Rightarrow> string res" where
  "splice cfg begin end body =
     (case str_index cfg begin of
        None \<Rightarrow> Inl (wrapf [] (errors_new ErrBeginMissing) ('': '' @ go_quote begin))
      | Some bIdx \<Rightarrow>
          (case str_index cfg end of
             None \<Rightarrow> Inl (wrapf [] (errors_new ErrEndMissing) ('': '' @ go_quote end))
           | Some eIdx \<Rightarrow>
               if eIdx < bIdx then Inl (wrapf [] (errors_new ErrEndMissing) ('': '' @ go_quote end))
               else let afterBegin = bIdx + length begin;
                        afterBegin = (if afterBegin < length cfg \<and> cfg ! afterBegin = nl
                                      then afterBegin + 1 else afterBegin);
                        bodyText = (if body \<noteq> [] then body @ [nl] else body)
                    in Inr (take afterBegin cfg @ bodyText @ drop eIdx cfg)))"

text \<open>The two splices of \<open>run\<close>: the v4 block, then the v6 block.\<close>

definition frr_next :: "cliFlags \<Rightarrow> nprefix list \<Rightarrow> nprefix list \<Rightarrow> string \<Rightarrow> string res" where
  "frr_next f v4Agg v6Agg cur =
     (case markers f of (beginV4, endV4, beginV6, endV6) \<Rightarrow>
        case splice cur beginV4 endV4 (render_networks v4Agg (routeMap f)) of
          Inl e \<Rightarrow> Inl (wrapf ''splice v4: '' e [])
        | Inr next \<Rightarrow>
            (case splice next beginV6 endV6 (render_networks v6Agg (routeMap f)) of
               Inl e \<Rightarrow> Inl (wrapf ''splice v6: '' e [])
             | Inr next' \<Rightarrow> Inr next'))"

section \<open>The sample of a rendered block in the log\<close>

text \<open>
  The text \<open>printSample\<close> logs: \<open>strings.SplitN(s, sep, n)\<close> for a positive \<open>n\<close> leaves everything after the
  first \<open>n - 1\<close> separators in one piece, which is then cut off.
\<close>

fun split_n :: "char \<Rightarrow> string \<Rightarrow> nat \<Rightarrow> string list" where
  "split_n c s 0 = []"
| "split_n c s (Suc n) =
     (if n = 0 \<or> c \<notin> set s then [s]
      else takeWhile (\<lambda>d. d \<noteq> c) s # split_n c (tl (dropWhile (\<lambda>d. d \<noteq> c) s)) n)"

definition sample_lines :: nat where "sample_lines = 5"

definition sample_text :: "string \<Rightarrow> string" where
  "sample_text blk =
     (let lines = split_n nl blk (sample_lines + 1);
          lines = (if length lines > sample_lines then take sample_lines lines else lines)
      in str_join [nl] lines)"

lemma split_n_on: "take n (split_n c s (Suc n)) = take n (split_on c s)"
proof (induction n arbitrary: s)
  case (Suc n)
  have e: "takeWhile (\<lambda>d. d \<noteq> c) s = s" if "c \<notin> set s" using that by (auto simp: takeWhile_eq_all_conv)
  show ?case
    using Suc [of "tl (dropWhile (\<lambda>d. d \<noteq> c) s)"]
    by (subst split_on_skip) (auto simp del: split_n.simps(2) simp add: split_n.simps(2) [of c s] e)
qed simp

lemma sample_text_lines: "sample_text blk = str_join [nl] (take 5 (split_on nl blk))"
  using split_n_on [of 5 nl blk] by (auto simp: sample_text_def sample_lines_def Let_def simp del: split_n.simps)

section \<open>First occurrences\<close>

definition occurs :: "string \<Rightarrow> string \<Rightarrow> nat \<Rightarrow> bool" where
  "occurs s m i = (i + length m \<le> length s \<and> (\<forall>k < length m. s ! (i + k) = m ! k))"

lemma has_prefix_occurs: "has_prefix s m \<longleftrightarrow> occurs s m 0"
  by (auto simp: has_prefix_def occurs_def list_eq_iff_nth_eq)

lemma occurs_Suc: "occurs (c # s) m (Suc i) \<longleftrightarrow> occurs s m i"
  by (simp add: occurs_def)

lemma str_index_SomeD:
  "str_index s m = Some i \<Longrightarrow> occurs s m i \<and> (\<forall>j < i. \<not> occurs s m j)"
proof (induction s arbitrary: i)
  case Nil
  then show ?case by (auto simp: occurs_def split: if_splits)
next
  case (Cons c s)
  then show ?case
    by (cases i) (auto simp: has_prefix_occurs occurs_Suc less_Suc_eq_0_disj split: if_splits)
qed

lemma str_index_SomeI:
  "occurs s m i \<Longrightarrow> (\<forall>j < i. \<not> occurs s m j) \<Longrightarrow> str_index s m = Some i"
proof (induction s arbitrary: i)
  case Nil
  then show ?case by (auto simp: occurs_def)
next
  case (Cons c s)
  show ?case
  proof (cases i)
    case (Suc k)
    have "\<not> occurs (c # s) m 0" "\<forall>j < k. \<not> occurs s m j" "occurs s m k"
      using Cons.prems Suc occurs_Suc [of c s m] by auto
    then show ?thesis using Cons.IH Suc by (simp add: has_prefix_occurs)
  qed (use Cons.prems in \<open>simp add: has_prefix_occurs\<close>)
qed

lemma str_index_iff: "str_index s m = Some i \<longleftrightarrow> occurs s m i \<and> (\<forall>j < i. \<not> occurs s m j)"
  using str_index_SomeD str_index_SomeI by blast

lemma str_index_None: "str_index s m = None \<longleftrightarrow> (\<forall>i. \<not> occurs s m i)"
proof
  assume none: "str_index s m = None"
  show "\<forall>i. \<not> occurs s m i"
  proof (rule ccontr)
    assume "\<not> (\<forall>i. \<not> occurs s m i)"
    then obtain i where "occurs s m i" "\<forall>j < i. \<not> occurs s m j"
      using exists_least_iff [of "occurs s m"] by blast
    then show False using none str_index_SomeI by fastforce
  qed
qed (use str_index_SomeD in \<open>cases "str_index s m"; blast\<close>)

section \<open>Marker lines\<close>

text \<open>
  What the proofs use of a marker: two blanks, then the only exclamation mark, and no blank
  at the end. Two markers are told apart by a position where they differ.
\<close>

definition is_marker :: "string \<Rightarrow> bool" where
  "is_marker m = (3 < length m \<and> m ! 0 = CHR '' '' \<and> m ! 1 = CHR '' '' \<and> m ! 2 = CHR ''!''
     \<and> (\<forall>k < length m. m ! k = CHR ''!'' \<longrightarrow> k = 2) \<and> m ! (length m - 1) \<noteq> CHR '' '')"

definition differ :: "string \<Rightarrow> string \<Rightarrow> bool" where
  "differ m n = (\<exists>k < min (length m) (length n). m ! k \<noteq> n ! k)"

lemma markers_apart:
  assumes "is_marker m" "is_marker n" "differ m n" "occurs s m p" "occurs s n q" "p \<le> q"
  shows "p + length m \<le> q"
proof (rule ccontr)
  assume "\<not> ?thesis"
  then have lt: "q < p + length m" by simp
  have at_m: "s ! (p + k) = m ! k" if "k < length m" for k using assms(4) that by (simp add: occurs_def)
  have at_n: "s ! (q + k) = n ! k" if "k < length n" for k using assms(5) that by (simp add: occurs_def)
  have "n \<noteq> []" using assms(2) by (auto simp: is_marker_def)
  then have n3: "s ! q = CHR '' ''" "s ! (q + 1) = CHR '' ''" "s ! (q + 2) = CHR ''!''"
    using at_n [of 0] at_n [of 1] at_n [of 2] assms(2) by (simp_all add: is_marker_def)
  have "p \<noteq> q" using assms(3) at_m at_n unfolding differ_def by (metis min_less_iff_conj)
  then have pq: "p < q" using assms(6) by simp
  consider "q + 2 < p + length m" | "q + 2 = p + length m" | "q + 1 = p + length m"
    using lt by linarith
  then show False
  proof cases
    case 1
    then have "m ! (q + 2 - p) = CHR ''!''" using at_m [of "q + 2 - p"] n3 pq by simp
    then have "q + 2 - p = 2" using assms(1) 1 pq by (auto simp: is_marker_def)
    then show False using pq by simp
  next
    case 2
    have "3 < length m" using assms(1) by (simp add: is_marker_def)
    then have "q + 1 = p + (length m - 1)" "length m - 1 < length m" using 2 by linarith+
    then have "m ! (length m - 1) = CHR '' ''" using at_m [of "length m - 1"] n3(2) by simp
    then show False using assms(1) by (simp add: is_marker_def)
  next
    case 3
    have "3 < length m" using assms(1) by (simp add: is_marker_def)
    then have "q = p + (length m - 1)" "length m - 1 < length m" using 3 by linarith+
    then have "m ! (length m - 1) = CHR '' ''" using at_m [of "length m - 1"] n3(1) by simp
    then show False using assms(1) by (simp add: is_marker_def)
  qed
qed

section \<open>Occurrences in a spliced text\<close>

definition spliced :: "string \<Rightarrow> nat \<Rightarrow> string \<Rightarrow> nat \<Rightarrow> string" where
  "spliced cfg a text j = take a cfg @ text @ drop j cfg"

lemma spliced_nth:
  "n < a \<Longrightarrow> a \<le> length cfg \<Longrightarrow> spliced cfg a text j ! n = cfg ! n"
  "a \<le> n \<Longrightarrow> n < a + length text \<Longrightarrow> a \<le> length cfg \<Longrightarrow> spliced cfg a text j ! n = text ! (n - a)"
  "a \<le> length cfg \<Longrightarrow> j \<le> length cfg \<Longrightarrow> spliced cfg a text j ! (a + length text + d) = cfg ! (j + d)"
  by (simp_all add: spliced_def nth_append min_absorb2 add.assoc less_diff_conv2)

lemma occurs_left:
  assumes "q + length m \<le> a" "a \<le> length cfg"
  shows "occurs (spliced cfg a text j) m q \<longleftrightarrow> occurs cfg m q"
proof -
  have "spliced cfg a text j ! (q + k) = cfg ! (q + k)" if "k < length m" for k
    using assms that by (simp add: spliced_def nth_append)
  moreover have "q + length m \<le> length (spliced cfg a text j)" using assms by (simp add: spliced_def)
  ultimately show ?thesis using assms by (simp add: occurs_def)
qed

lemma occurs_right:
  assumes "a \<le> length cfg" "j \<le> length cfg"
  shows "occurs (spliced cfg a text j) m (a + length text + d) \<longleftrightarrow> occurs cfg m (j + d)"
proof -
  have "spliced cfg a text j ! (a + length text + d + k) = cfg ! (j + d + k)" if "j + d + k < length cfg" for k
    using assms that by (simp add: spliced_def nth_append add.assoc)
  moreover have "a + length text + d + length m \<le> length (spliced cfg a text j) \<longleftrightarrow> j + d + length m \<le> length cfg"
    using assms by (simp add: spliced_def) linarith
  ultimately show ?thesis by (auto simp: occurs_def)
qed

text \<open>Where the begin marker ends, with its newline if there is one.\<close>

definition after_begin :: "string \<Rightarrow> string \<Rightarrow> nat \<Rightarrow> nat" where
  "after_begin cfg b i =
     (if i + length b < length cfg \<and> cfg ! (i + length b) = nl then i + length b + 1 else i + length b)"

lemma occurs_marker:
  assumes "is_marker m" "occurs s m q"
  shows "s ! q = CHR '' ''" "s ! (q + 1) = CHR '' ''" "s ! (q + 2) = CHR ''!''" "q + 3 < length s"
proof -
  have at: "s ! (q + k) = m ! k" if "k < length m" for k using assms(2) that by (simp add: occurs_def)
  have "m \<noteq> []" using assms(1) by (auto simp: is_marker_def)
  then show "s ! q = CHR '' ''" "s ! (q + 1) = CHR '' ''" "s ! (q + 2) = CHR ''!''" "q + 3 < length s"
    using at [of 0] at [of 1] at [of 2] assms by (simp_all add: is_marker_def occurs_def)
qed

text \<open>The one place of a splice: a begin and an end marker in order, and a text without \<open>!\<close>.\<close>

definition splice_at :: "string \<Rightarrow> string \<Rightarrow> string \<Rightarrow> nat \<Rightarrow> nat \<Rightarrow> string \<Rightarrow> bool" where
  "splice_at cfg b e i j text =
     (is_marker b \<and> is_marker e \<and> differ b e \<and> str_index cfg b = Some i \<and> str_index cfg e = Some j
      \<and> i \<le> j \<and> CHR ''!'' \<notin> set text)"

lemma differ_sym: "differ m n \<longleftrightarrow> differ n m"
  by (auto simp: differ_def min.commute)

lemma splice_atD:
  assumes "splice_at cfg b e i j text"
  shows "i + length b \<le> j" "after_begin cfg b i \<le> j" "after_begin cfg b i \<le> length cfg"
    "j + length e \<le> length cfg" "i + length b \<le> after_begin cfg b i"
proof -
  have o: "occurs cfg b i" "occurs cfg e j"
    using assms by (auto simp: splice_at_def str_index_iff)
  show le: "i + length b \<le> j"
    using assms o by (intro markers_apart [of b e cfg]) (auto simp: splice_at_def)
  show "j + length e \<le> length cfg" using o by (simp add: occurs_def)
  have "cfg ! j = CHR '' ''" using occurs_marker [OF _ o(2)] assms by (simp add: splice_at_def)
  then show "after_begin cfg b i \<le> j" using le by (auto simp: after_begin_def Suc_le_eq order_le_less)
  then show "after_begin cfg b i \<le> length cfg" using \<open>j + length e \<le> length cfg\<close> by simp
  show "i + length b \<le> after_begin cfg b i" by (simp add: after_begin_def)
qed

text \<open>A marker never straddles the text that was put in.\<close>

lemma no_straddle:
  assumes sp: "splice_at cfg b e i j text" and m: "is_marker m" "m = b \<or> differ b m"
    and occ: "occurs (spliced cfg (after_begin cfg b i) text j) m q"
  shows "q + length m \<le> after_begin cfg b i \<or> after_begin cfg b i + length text \<le> q"
proof (rule ccontr)
  let ?a = "after_begin cfg b i" and ?s = "spliced cfg (after_begin cfg b i) text j"
  assume "\<not> ?thesis"
  then have neg: "?a < q + length m" "q < ?a + length text" by auto
  note d = splice_atD [OF sp]
  note bang = occurs_marker(3) [OF m(1) occ]
  have ob: "occurs cfg b i" "occurs cfg e j" using sp by (auto simp: splice_at_def str_index_iff)
  have obs: "occurs ?s b i" using ob(1) d by (simp add: occurs_left)
  have mb: "is_marker b" "is_marker e" using sp by (auto simp: splice_at_def)
  consider "q + 2 < ?a" | "?a \<le> q + 2" "q + 2 < ?a + length text" | "?a + length text \<le> q + 2" by linarith
  then show False
  proof cases
    case 1
    have cb: "cfg ! (q + 2) = CHR ''!''" using bang spliced_nth(1) [OF 1 d(3)] by simp
    show False
    proof (cases "m = b")
      case True
      have "q \<le> i" 
      proof (rule ccontr)
        assume "\<not> q \<le> i"
        then have "i < q" by simp
        show False
        proof (cases "q + 2 < i + length b")
          case True
          then have "b ! (q + 2 - i) = CHR ''!''"
            using ob(1) cb \<open>i < q\<close> unfolding occurs_def
            by (metis add_diff_inverse_nat add_less_cancel_left le_add1 less_imp_le_nat not_less trans_le_add1)
          moreover have "q + 2 - i < length b" using True \<open>i < q\<close> by linarith
          ultimately have "q + 2 - i = 2" using mb(1) unfolding is_marker_def by blast
          then show False using \<open>i < q\<close> by simp
        next
          case False
          then have e: "q + 2 = i + length b" using 1 by (simp add: after_begin_def split: if_splits)
          have "cfg ! (i + length b) = nl" using 1 unfolding e by (simp add: after_begin_def split: if_splits)
          then show False using cb unfolding e by simp
        qed
      qed
      then show False using True neg d by simp
    next
      case False
      then have df: "differ b m" using m(2) by simp
      show False
      proof (cases "q \<le> i")
        case True
        have "q + length m \<le> i"
          using True df by (intro markers_apart [OF m(1) mb(1) _ occ obs]) (simp_all add: differ_sym)
        then show False using neg d by simp
      next
        case False
        then have "i + length b \<le> q"
          using df by (intro markers_apart [OF mb(1) m(1) _ obs occ]) simp_all
        then show False using 1 by (auto simp: after_begin_def split: if_splits)
      qed
    qed
  next
    case 2
    then have "text ! (q + 2 - ?a) = CHR ''!''" using bang spliced_nth(2) [OF 2 d(3)] by simp
    moreover have "q + 2 - ?a < length text" using 2 by linarith
    ultimately show False using sp by (metis nth_mem splice_at_def)
  next
    case 3
    let ?d = "q + 2 - (?a + length text)"
    have "?a + length text + ?d = q + 2" using 3 by linarith
    then have "?s ! (q + 2) = cfg ! (j + ?d)"
      using spliced_nth(3) [OF d(3), of j "text" ?d] d(4) by simp
    moreover have "?d = 0 \<or> ?d = 1" using neg by linarith
    ultimately show False using bang occurs_marker(1,2) [OF mb(2) ob(2)] by auto
  qed
qed

lemma index_before:
  assumes sp: "splice_at cfg b e i j text" and m: "is_marker m" "m = b \<or> differ b m"
    and k: "str_index cfg m = Some k" "k + length m \<le> after_begin cfg b i"
  shows "str_index (spliced cfg (after_begin cfg b i) text j) m = Some k"
proof -
  let ?s = "spliced cfg (after_begin cfg b i) text j"
  note d = splice_atD [OF sp]
  have o: "occurs cfg m k" "\<And>q. q < k \<Longrightarrow> \<not> occurs cfg m q" using k(1) by (auto simp: str_index_iff)
  have "\<not> occurs ?s m q" if "q < k" for q
  proof
    assume "occurs ?s m q"
    moreover have "q + length m \<le> after_begin cfg b i" using that k(2) by simp
    ultimately show False using o(2) [OF that] d(3) by (simp add: occurs_left)
  qed
  then show ?thesis using o(1) k(2) d(3) by (simp add: str_index_iff occurs_left)
qed

lemma index_after:
  assumes sp: "splice_at cfg b e i j text" and m: "is_marker m" "m = b \<or> differ b m"
    and k: "str_index cfg m = Some k" "j \<le> k"
  shows "str_index (spliced cfg (after_begin cfg b i) text j) m =
    Some (after_begin cfg b i + length text + (k - j))"
proof -
  let ?a = "after_begin cfg b i"
  let ?s = "spliced cfg ?a text j"
  note d = splice_atD [OF sp]
  have j: "j \<le> length cfg" using d(4) by simp
  have o: "occurs cfg m k" "\<And>q. q < k \<Longrightarrow> \<not> occurs cfg m q" using k(1) by (auto simp: str_index_iff)
  have pos: "0 < length m" using m(1) unfolding is_marker_def by linarith
  have "\<not> occurs ?s m q" if q: "q < ?a + length text + (k - j)" for q
  proof
    assume occ: "occurs ?s m q"
    from no_straddle [OF sp m occ] show False
    proof
      assume l: "q + length m \<le> ?a"
      then have "q < k" using d(2) k(2) pos by linarith
      then show False using o(2) occ l d(3) by (simp add: occurs_left)
    next
      assume r: "?a + length text \<le> q"
      define t where "t = q - (?a + length text)"
      have "q = ?a + length text + t" "j + t < k" using r q k(2) by (auto simp: t_def)
      then show False using o(2) occ d(3) j by (simp add: occurs_right)
    qed
  qed
  moreover have "occurs ?s m (?a + length text + (k - j))"
    unfolding occurs_right [OF d(3) j] using o(1) k(2) by simp
  ultimately show ?thesis by (simp add: str_index_iff)
qed

definition body_text :: "string \<Rightarrow> string" where
  "body_text body = (if body \<noteq> [] then body @ [nl] else body)"

lemma splice_spliced:
  assumes "splice_at cfg b e i j (body_text body)"
  shows "splice cfg b e body = Inr (spliced cfg (after_begin cfg b i) (body_text body) j)"
  using assms
  by (auto simp: splice_at_def splice_def spliced_def Let_def body_text_def after_begin_def)

text \<open>The shape after a splice: the same place again, now holding the text.\<close>

lemma spliced_again:
  assumes sp: "splice_at cfg b e i j text" and t: "text = [] \<or> hd text \<noteq> nl"
  defines "a \<equiv> after_begin cfg b i" and "new \<equiv> spliced cfg (after_begin cfg b i) text j"
  shows "after_begin new b i = a" and "splice_at new b e i (a + length text) text"
    and "spliced new a text (a + length text) = new"
proof -
  note d = splice_atD [OF sp]
  have mk: "is_marker b" "is_marker e" "differ b e" "str_index cfg b = Some i" "str_index cfg e = Some j"
    using sp by (auto simp: splice_at_def)
  have oe: "cfg ! j = CHR '' ''" "j < length cfg"
    using occurs_marker(1,4) [OF mk(2), of cfg j] mk(5) by (simp_all add: str_index_iff)
  have len: "length (take a cfg) = a" using d by (simp add: a_def)
  have nxt: "new ! a \<noteq> nl" if "a < length new"
  proof (cases "text = []")
    case True
    have "new ! a = cfg ! j"
      using spliced_nth(3) [of a cfg j "text" 0] d oe True by (simp add: new_def a_def)
    then show ?thesis using oe by simp
  next
    case False
    then have "new ! a = hd text"
      using spliced_nth(2) [of a a "text" cfg j] d by (simp add: new_def a_def hd_conv_nth)
    then show ?thesis using t False by simp
  qed
  have alen: "a \<le> length new" using d by (simp add: new_def spliced_def a_def)
  have iaa: "new ! (i + length b) = cfg ! (i + length b)" if "i + length b < a"
    using spliced_nth(1) [OF that [unfolded a_def]] d by (simp add: new_def)
  show aa: "after_begin new b i = a"
  proof (cases "i + length b < a")
    case True
    then have "i + length b < length cfg \<and> cfg ! (i + length b) = nl" "a = i + length b + 1"
      by (auto simp: a_def after_begin_def split: if_splits)
    then show ?thesis using iaa True alen by (simp add: after_begin_def)
  next
    case False
    then have "a = i + length b" using d by (simp add: a_def)
    then show ?thesis using nxt by (simp add: after_begin_def)
  qed
  have "str_index new b = Some i"
    using index_before [OF sp mk(1) _ mk(4)] d by (simp add: new_def)
  moreover have "str_index new e = Some (a + length text)"
    using index_after [OF sp mk(2) _ mk(5)] mk(3) by (simp add: new_def a_def)
  ultimately show "splice_at new b e i (a + length text) text"
    using sp d by (simp add: splice_at_def a_def)
  show "spliced new a text (a + length text) = new"
    using d by (simp add: spliced_def new_def a_def)
qed

lemma splice_twice:
  assumes "splice_at cfg b e i j (body_text body)" "body = [] \<or> hd body \<noteq> nl"
  shows "splice (spliced cfg (after_begin cfg b i) (body_text body) j) b e body =
    Inr (spliced cfg (after_begin cfg b i) (body_text body) j)"
proof -
  have t: "body_text body = [] \<or> hd (body_text body) \<noteq> nl" using assms(2) by (auto simp: body_text_def)
  note s = spliced_again [OF assms(1) t]
  show ?thesis using splice_spliced [OF s(2)] s(1,3) by simp
qed

section \<open>Two blocks\<close>

lemma spliced_id_iff:
  assumes "a \<le> l" "l \<le> length cfg"
  shows "spliced cfg a t l = cfg \<longleftrightarrow> take (l - a) (drop a cfg) = t"
proof -
  have "cfg = take a cfg @ take (l - a) (drop a cfg) @ drop l cfg"
    using assms by (metis append_take_drop_id drop_drop le_add_diff_inverse2)
  then show ?thesis unfolding spliced_def by (metis append_same_eq same_append_eq)
qed

text \<open>
  Splicing one block moves another block, before or after it, and leaves it as it was;
  \<open>new\<close> is the text after the splice of the block \<open>b\<close>, \<open>e\<close>.
\<close>

lemma other_before:
  assumes sp: "splice_at cfg b e i j text" and ot: "splice_at cfg c f k l t"
    and df: "differ b c" "differ b f" and le: "l \<le> i"
  defines "new \<equiv> spliced cfg (after_begin cfg b i) text j"
  shows "splice_at new c f k l t" and "spliced cfg (after_begin cfg c k) t l = cfg \<Longrightarrow>
    spliced new (after_begin new c k) t l = new"
proof -
  let ?a = "after_begin cfg b i" and ?a' = "after_begin cfg c k"
  note d = splice_atD [OF sp] and o = splice_atD [OF ot]
  have mk: "is_marker c" "is_marker f" "is_marker b" "str_index cfg c = Some k" "str_index cfg f = Some l"
    using sp ot by (auto simp: splice_at_def)
  have lf: "l + length f \<le> i"
    using mk sp le df(2) by (intro markers_apart [of f b cfg]) (auto simp: splice_at_def str_index_iff differ_sym)
  have "str_index new c = Some k" "str_index new f = Some l"
    unfolding new_def using mk df d o lf by (auto intro!: index_before [OF sp])
  then show sa: "splice_at new c f k l t" using ot by (simp add: splice_at_def)
  have pre: "new ! n = cfg ! n" if "n < i" for n
    using that d unfolding new_def by (intro spliced_nth(1)) auto
  have "length new = ?a + length text + (length cfg - j)" "0 < length b"
    using d mk(3) by (auto simp: new_def spliced_def is_marker_def)
  then have len: "i < length new" using d by linarith
  have aa: "after_begin new c k = ?a'"
  proof -
    have "k + length c < i" using o lf mk(2) unfolding is_marker_def by linarith
    then show ?thesis using pre [of "k + length c"] len d by (simp add: after_begin_def)
  qed
  assume fx: "spliced cfg ?a' t l = cfg"
  have "take (l - ?a') (drop ?a' new) = take (l - ?a') (drop ?a' cfg)"
    using d o lf by (simp add: new_def spliced_def drop_take)
  then show "spliced new (after_begin new c k) t l = new"
    using fx spliced_id_iff [of ?a' l cfg t] spliced_id_iff [of ?a' l new t] o lf len
    by (simp add: aa)
qed

lemma other_after:
  assumes sp: "splice_at cfg b e i j text" and ot: "splice_at cfg c f k l t"
    and df: "differ b c" "differ b f" and le: "j \<le> k"
  defines "new \<equiv> spliced cfg (after_begin cfg b i) text j"
    and "k' \<equiv> after_begin cfg b i + length text + (k - j)"
    and "l' \<equiv> after_begin cfg b i + length text + (l - j)"
  shows "splice_at new c f k' l' t" and "spliced cfg (after_begin cfg c k) t l = cfg \<Longrightarrow>
    spliced new (after_begin new c k') t l' = new"
proof -
  let ?A = "after_begin cfg b i + length text" and ?a' = "after_begin cfg c k"
  note d = splice_atD [OF sp] and o = splice_atD [OF ot]
  have mk: "is_marker c" "is_marker f" "str_index cfg c = Some k" "str_index cfg f = Some l"
    using ot by (auto simp: splice_at_def)
  have "str_index new c = Some k'" "str_index new f = Some l'"
    unfolding new_def k'_def l'_def
    using index_after [OF sp mk(1) disjI2 [OF df(1)] mk(3) le]
      index_after [OF sp mk(2) disjI2 [OF df(2)] mk(4)] le o by simp_all
  moreover have "k' \<le> l'" unfolding k'_def l'_def using o le by linarith
  ultimately show sa: "splice_at new c f k' l' t" using ot by (simp add: splice_at_def)
  have suf: "drop (?A + n) new = drop (j + n) cfg" for n
    using d by (simp add: new_def spliced_def add.commute)
  have nth: "new ! (?A + n) = cfg ! (j + n)" for n
    using d unfolding new_def by (intro spliced_nth(3)) auto
  have len: "length new + j = ?A + length cfg" using d by (simp add: new_def spliced_def)
  have kc: "k' + length c = ?A + (k + length c - j)" "k + length c = j + (k + length c - j)"
    using le by (auto simp: k'_def)
  have aa: "after_begin new c k' = ?A + (?a' - j)"
    using nth [of "k + length c - j"] kc len le by (auto simp: after_begin_def)
  assume fx: "spliced cfg ?a' t l = cfg"
  have ja: "j \<le> ?a'" using le o by linarith
  have "drop (?A + (?a' - j)) new = drop ?a' cfg" using suf [of "?a' - j"] ja by simp
  moreover have "l' - (?A + (?a' - j)) = l - ?a'" using ja o by (simp add: l'_def)
  moreover have "?A + (?a' - j) \<le> l'" "l' \<le> length new" using ja o len d by (auto simp: l'_def)
  ultimately show "spliced new (after_begin new c k') t l' = new"
    using fx spliced_id_iff [of ?a' l cfg t] spliced_id_iff [of "?A + (?a' - j)" l' new t] o
    by (simp add: aa)
qed

text \<open>Both orders at once: the other block stays a block, on the same side, and keeps its text.\<close>

lemma other_block:
  assumes sp: "splice_at cfg b e i j text" and ot: "splice_at cfg c f k l t"
    and df: "differ b c" "differ b f" and sep: "l \<le> i \<or> j \<le> k"
  defines "a \<equiv> after_begin cfg b i" and "new \<equiv> spliced cfg (after_begin cfg b i) text j"
  shows "\<exists>k' l'. splice_at new c f k' l' t \<and> (l' \<le> i \<or> a + length text \<le> k')
    \<and> (spliced cfg (after_begin cfg c k) t l \<noteq> cfg \<or> spliced new (after_begin new c k') t l' = new)"
  using sep
proof
  assume "l \<le> i"
  then show ?thesis using other_before [OF sp ot df] unfolding new_def by blast
next
  assume le: "j \<le> k"
  show ?thesis
    using other_after [OF sp ot df le] unfolding new_def a_def by (intro exI conjI) auto
qed

text \<open>A file with a v4 and a v6 block, one after the other, in either order.\<close>

definition two_blocks :: "string \<Rightarrow> string \<Rightarrow> string \<Rightarrow> string \<Rightarrow> string \<Rightarrow> bool" where
  "two_blocks cfg b e c f =
     (case (str_index cfg b, str_index cfg e, str_index cfg c, str_index cfg f) of
        (Some i, Some j, Some k, Some l) \<Rightarrow> i \<le> j \<and> k \<le> l \<and> (l \<le> i \<or> j \<le> k)
      | _ \<Rightarrow> False)"

definition four_markers :: "string \<Rightarrow> string \<Rightarrow> string \<Rightarrow> string \<Rightarrow> bool" where
  "four_markers b e c f = (is_marker b \<and> is_marker e \<and> is_marker c \<and> is_marker f
     \<and> differ b e \<and> differ c f \<and> differ b c \<and> differ b f \<and> differ e c)"

definition plain_body :: "string \<Rightarrow> bool" where
  "plain_body s = (CHR ''!'' \<notin> set s \<and> (s = [] \<or> hd s \<noteq> nl))"

lemma splice_two_stable:
  assumes mk: "four_markers b e c f" and two: "two_blocks cfg b e c f"
    and body: "plain_body s" "plain_body t"
  shows "\<exists>n1 n2. splice cfg b e s = Inr n1 \<and> splice n1 c f t = Inr n2
    \<and> splice n2 b e s = Inr n2 \<and> splice n2 c f t = Inr n2 \<and> two_blocks n2 b e c f"
proof -
  have "CHR ''!'' \<notin> set (body_text s)" "CHR ''!'' \<notin> set (body_text t)"
    "body_text t = [] \<or> hd (body_text t) \<noteq> nl" "body_text s = [] \<or> hd (body_text s) \<noteq> nl"
    using body by (auto simp: plain_body_def body_text_def)
  note bt = this
  obtain i j k l where sp: "splice_at cfg b e i j (body_text s)" and ot: "splice_at cfg c f k l (body_text t)"
    and sep: "l \<le> i \<or> j \<le> k"
    using two mk bt by (auto simp: two_blocks_def splice_at_def four_markers_def split: option.splits)
  have df: "differ b c" "differ b f" "differ c b" "differ c e"
    using mk by (auto simp: four_markers_def differ_sym)
  define n1 where "n1 = spliced cfg (after_begin cfg b i) (body_text s) j"
  define j1 where "j1 = after_begin cfg b i + length (body_text s)"
  obtain k1 l1 where o1: "splice_at n1 c f k1 l1 (body_text t)" "l1 \<le> i \<or> j1 \<le> k1"
    using other_block [OF sp ot df(1,2) sep] unfolding n1_def j1_def by blast
  have s1: "splice_at n1 b e i j1 (body_text s)" "spliced n1 (after_begin n1 b i) (body_text s) j1 = n1"
    using spliced_again [OF sp bt(4)] unfolding n1_def j1_def by simp_all
  define n2 where "n2 = spliced n1 (after_begin n1 c k1) (body_text t) l1"
  define l2 where "l2 = after_begin n1 c k1 + length (body_text t)"
  obtain i2 j2 where s2: "splice_at n2 b e i2 j2 (body_text s)"
    "spliced n2 (after_begin n2 b i2) (body_text s) j2 = n2" "j2 \<le> k1 \<or> l2 \<le> i2"
    using other_block [OF o1(1) s1(1) df(3,4)] o1(2) s1(2) unfolding n2_def l2_def by blast
  have "splice_at n2 c f k1 l2 (body_text t)"
    using spliced_again [OF o1(1)] bt unfolding n2_def l2_def by simp
  then have tb: "two_blocks n2 b e c f" using s2(1,3) by (auto simp: two_blocks_def splice_at_def)
  have "splice cfg b e s = Inr n1" using splice_spliced [OF sp] by (simp add: n1_def)
  moreover have "splice n1 c f t = Inr n2" using splice_spliced [OF o1(1)] by (simp add: n2_def)
  moreover have "splice n2 b e s = Inr n2" using splice_spliced [OF s2(1)] s2(2) by simp
  moreover have "splice n2 c f t = Inr n2"
    using splice_twice [OF o1(1)] body by (simp add: n2_def plain_body_def)
  ultimately show ?thesis using tb by blast
qed

section \<open>The markers and blocks of the program\<close>

abbreviation bang_free :: "string \<Rightarrow> bool" where "bang_free s \<equiv> CHR ''!'' \<notin> set s"

lemma is_marker_line:
  assumes "bang_free t" "t \<noteq> []" "last t \<noteq> CHR '' ''"
  shows "is_marker (''  !'' @ t)"
proof -
  have "k = 2" if "k < length (''  !'' @ t)" "(''  !'' @ t) ! k = CHR ''!''" for k
  proof (rule ccontr)
    assume ne: "k \<noteq> 2"
    consider "k = 0" | "k = 1" | "3 \<le> k" using ne by linarith
    then show False
    proof cases
      case 3
      then have "t ! (k - 3) = CHR ''!''" "k - 3 < length t"
        using that by (simp_all add: numeral_3_eq_3 nth_Cons' split: if_splits)
      then show False using assms(1) by (metis nth_mem)
    qed (use that in simp_all)
  qed
  moreover have "(''  !'' @ t) ! (length (''  !'' @ t) - 1) = last t"
    using assms(2) by (simp add: last_conv_nth nth_Cons' nth_append)
  ultimately show ?thesis using assms(2,3) by (auto simp: is_marker_def)
qed

lemma differ_at: "k < length m \<Longrightarrow> k < length n \<Longrightarrow> m ! k \<noteq> n ! k \<Longrightarrow> differ m n"
  by (auto simp: differ_def)

lemma four_markers_frr:
  assumes "bang_free (markerPrefix fl)" "markers fl = (b, e, c, f)"
  shows "four_markers b e c f"
proof -
  let ?p = "markerPrefix fl"
  have eqs: "b = ''  !'' @ '' BEGIN-'' @ ?p @ ''-V4''" "e = ''  !'' @ '' END-'' @ ?p @ ''-V4''"
    "c = ''  !'' @ '' BEGIN-'' @ ?p @ ''-V6''" "f = ''  !'' @ '' END-'' @ ?p @ ''-V6''"
    using assms(2) by (simp_all add: markers_def)
  have mk: "is_marker b" "is_marker e" "is_marker c" "is_marker f"
    unfolding eqs by (rule is_marker_line; simp add: assms(1))+
  have at4: "b ! 4 = CHR ''B''" "e ! 4 = CHR ''E''" "c ! 4 = CHR ''B''" "f ! 4 = CHR ''E''"
    and len: "4 < length b" "4 < length e" "4 < length c" "4 < length f"
    unfolding eqs by simp_all
  have "differ b c"
    unfolding eqs by (rule differ_at [of "12 + length ?p"]) (simp_all add: nth_append nth_Cons')
  then show ?thesis
    using mk at4 len by (auto simp: four_markers_def intro: differ_at [of 4])
qed

lemma prefix_string_bang_free:
  assumes "prefix_wf p"
  shows "bang_free (prefix_string p)"
  using prefix_string_chars [OF assms] by (auto simp: list_all_iff prefix_char_def is_digit_iff)

lemma trim_right_take: "\<exists>k. trim_right_nl s = take k s"
  unfolding trim_right_nl_def
  by (rule exI [of _ "length (dropWhile (\<lambda>c. c = nl) (rev s))"])
    (metis append_eq_conv_conj length_rev rev_append rev_rev_ident takeWhile_dropWhile_id)

lemma plain_render:
  assumes "bang_free rmap" "list_all canonical ps"
  shows "plain_body (render_networks ps rmap)"
proof (cases ps)
  case (Cons p qs)
  let ?line = "\<lambda>p. ''  network '' @ prefix_string p @ '' route-map '' @ rmap @ [nl]"
  let ?s = "concat (map ?line ps)"
  obtain k where k: "trim_right_nl ?s = take k ?s" using trim_right_take by blast
  have "bang_free (?line q)" if "q \<in> set ps" for q
    using assms that prefix_string_bang_free [of q]
    by (auto simp: list_all_iff canonical_def prefix_wf_def)
  then have "bang_free ?s" unfolding set_concat set_map by blast
  then have "bang_free (take k ?s)" by (meson in_set_takeD)
  moreover have "take k ?s = [] \<or> hd (take k ?s) \<noteq> nl" by (cases k) (auto simp: Cons)
  ultimately show ?thesis using k Cons by (simp add: plain_body_def render_networks_def del: concat.simps list.map)
qed (simp add: plain_body_def render_networks_def)

text \<open>The layout the program expects of frr.conf: both blocks present, not nested.\<close>

definition frr_layout :: "cliFlags \<Rightarrow> string \<Rightarrow> bool" where
  "frr_layout f cur = (case markers f of (beginV4, endV4, beginV6, endV6) \<Rightarrow>
     two_blocks cur beginV4 endV4 beginV6 endV6)"

lemma frr_next_stable:
  assumes "bang_free (markerPrefix f)" "bang_free (routeMap f)"
    "list_all canonical v4" "list_all canonical v6" "frr_layout f cur"
  shows "\<exists>next. frr_next f v4 v6 cur = Inr next \<and> frr_next f v4 v6 next = Inr next \<and> frr_layout f next"
proof -
  obtain b4 e4 b6 e6 where m: "markers f = (b4, e4, b6, e6)" by (metis prod_cases4)
  have "four_markers b4 e4 b6 e6" using assms(1) m by (rule four_markers_frr)
  moreover have "two_blocks cur b4 e4 b6 e6" using assms(5) m by (simp add: frr_layout_def)
  ultimately obtain n1 n2 where
    "splice cur b4 e4 (render_networks v4 (routeMap f)) = Inr n1"
    "splice n1 b6 e6 (render_networks v6 (routeMap f)) = Inr n2"
    "splice n2 b4 e4 (render_networks v4 (routeMap f)) = Inr n2"
    "splice n2 b6 e6 (render_networks v6 (routeMap f)) = Inr n2" "two_blocks n2 b4 e4 b6 e6"
    using splice_two_stable plain_render [OF assms(2,3)] plain_render [OF assms(2,4)] by blast
  then show ?thesis by (simp add: frr_next_def frr_layout_def m)
qed

section \<open>What a splice keeps and reports\<close>

lemma splice_keeps_outside:
  assumes "is_marker b" "is_marker e" "differ b e" "splice cfg b e body = Inr new"
  shows "\<exists>pre old post sep. sep \<in> {[], [nl]} \<and> cfg = pre @ b @ sep @ old @ e @ post
    \<and> new = pre @ b @ sep @ body_text body @ e @ post"
proof -
  obtain i j where ij: "str_index cfg b = Some i" "str_index cfg e = Some j" "i \<le> j"
    using assms(4) by (auto simp: splice_def split: option.splits if_splits)
  then have "splice_at cfg b e i j []" using assms(1-3) by (simp add: splice_at_def)
  note d = splice_atD [OF this]
  let ?a = "after_begin cfg b i"
  have new: "new = take ?a cfg @ body_text body @ drop j cfg"
    using assms(4) ij by (auto simp: splice_def Let_def body_text_def after_begin_def)
  have sub: "take (length m) (drop q s) = m" if "occurs s m q" for s m q
    using that by (auto simp: occurs_def list_eq_iff_nth_eq)
  have post: "drop j cfg = e @ drop (j + length e) cfg"
    using sub [of cfg e j] ij(2) by (metis append_take_drop_id drop_drop add.commute str_index_iff)
  have tb: "take (i + length b) cfg = take i cfg @ b"
    using sub [of cfg b i] ij(1) by (metis str_index_iff take_add)
  have "\<exists>sep \<in> {[], [nl]}. take ?a cfg = take i cfg @ b @ sep"
  proof (cases "?a = i + length b")
    case False
    then have "i + length b < length cfg" "cfg ! (i + length b) = nl" "?a = Suc (i + length b)"
      by (auto simp: after_begin_def split: if_splits)
    then have "take ?a cfg = take i cfg @ b @ [nl]" using tb by (simp add: take_Suc_conv_app_nth)
    then show ?thesis by blast
  qed (use tb in simp)
  then obtain sep where sep: "sep \<in> {[], [nl]}" "take ?a cfg = take i cfg @ b @ sep" by blast
  have "cfg = take ?a cfg @ take (j - ?a) (drop ?a cfg) @ drop j cfg"
    using d(2) by (metis append_take_drop_id drop_drop le_add_diff_inverse2)
  then have "cfg = take i cfg @ b @ sep @ take (j - ?a) (drop ?a cfg) @ e @ drop (j + length e) cfg"
    unfolding post sep(2) append_assoc .
  moreover have "new = take i cfg @ b @ sep @ body_text body @ e @ drop (j + length e) cfg"
    unfolding new post sep(2) append_assoc ..
  ultimately show ?thesis using sep(1) by blast
qed

lemma splice_errors:
  "case splice cfg begin end body of
     Inl err \<Rightarrow> errors_is err ErrBeginMissing = (\<not> str_contains cfg begin)
       \<and> errors_is err ErrEndMissing = str_contains cfg begin
   | Inr new \<Rightarrow> str_contains cfg begin \<and> str_contains cfg end"
  by (auto simp: splice_def str_contains_def Let_def split: option.split)

text \<open>The first splice of \<open>run\<close> and the second, on the markers of the program.\<close>

lemma frr_markers:
  assumes "bang_free (markerPrefix f)" "markers f = (b4, e4, b6, e6)"
  shows "is_marker b4" "is_marker e4" "is_marker b6" "is_marker e6" "differ b4 e4" "differ b6 e6"
  using four_markers_frr [OF assms] by (simp_all add: four_markers_def)

text \<open>C20: On a frr.conf with both marker blocks, splicing the rendered v4 and v6 blocks succeeds, doing it
  again on the result gives the same text, and the result has both blocks again.\<close>

theorem frr_next_idempotent:
  assumes "bang_free (markerPrefix f)" "bang_free (routeMap f)"
    "list_all canonical v4" "list_all canonical v6" "frr_layout f cur"
  shows "\<exists>next. frr_next f v4 v6 cur = Inr next \<and> frr_next f v4 v6 next = Inr next \<and> frr_layout f next"
  using assms by (rule frr_next_stable)

text \<open>C19: splice with the markers of the program keeps every byte of the configuration outside the block
  between the begin and the end marker, and puts exactly the body there.\<close>

theorem frr_splice_frame:
  assumes "bang_free (markerPrefix f)" "markers f = (b, e, b6, e6) \<or> markers f = (b4, e4, b, e)"
    "splice cfg b e body = Inr new"
  shows "\<exists>pre old post sep. sep \<in> {[], [nl]} \<and> cfg = pre @ b @ sep @ old @ e @ post
    \<and> new = pre @ b @ sep @ body_text body @ e @ post"
proof (rule splice_keeps_outside [OF _ _ _ assms(3)])
  show "is_marker b" "is_marker e" "differ b e"
    using assms(2) frr_markers [OF assms(1)] by auto
qed

section \<open>A concrete configuration\<close>

abbreviation feed_flags :: cliFlags where
  "feed_flags \<equiv> no_flags\<lparr>markerPrefix := ''X'', routeMap := ''M''\<rparr>"

abbreviation frr_text :: string where
  "frr_text \<equiv> str_join [nl] [''  ! BEGIN-X-V4'', ''  ! END-X-V4'', ''  ! BEGIN-X-V6'', ''  ! END-X-V6'']"

lemma frr_next_idempotent_witness:
  "\<exists>next. frr_next feed_flags [net_a, net_b] [] frr_text = Inr next
    \<and> frr_next feed_flags [net_a, net_b] [] next = Inr next \<and> frr_layout feed_flags next"
  by (rule frr_next_idempotent) (simp_all add: nets_canonical frr_layout_def markers_def two_blocks_def has_prefix_def)

lemma frr_splice_frame_witness:
  "\<exists>new pre old post sep. splice frr_text ''  ! BEGIN-X-V4'' ''  ! END-X-V4'' ''body'' = Inr new
    \<and> sep \<in> {[], [nl]} \<and> frr_text = pre @ ''  ! BEGIN-X-V4'' @ sep @ old @ ''  ! END-X-V4'' @ post
    \<and> new = pre @ ''  ! BEGIN-X-V4'' @ sep @ body_text ''body'' @ ''  ! END-X-V4'' @ post"
proof -
  obtain new where n: "splice frr_text ''  ! BEGIN-X-V4'' ''  ! END-X-V4'' ''body'' = Inr new"
    by (simp add: splice_def has_prefix_def)
  have "\<exists>pre old post sep. sep \<in> {[], [nl]} \<and> frr_text = pre @ ''  ! BEGIN-X-V4'' @ sep @ old @ ''  ! END-X-V4'' @ post
    \<and> new = pre @ ''  ! BEGIN-X-V4'' @ sep @ body_text ''body'' @ ''  ! END-X-V4'' @ post"
    by (rule frr_splice_frame [OF _ _ n, where f = feed_flags and ?b6.0 = "''  ! BEGIN-X-V6''" and ?e6.0 = "''  ! END-X-V6''"])
      (simp_all add: markers_def)
  then show ?thesis using n by blast
qed

end
