(* ===== verification/Files.thy ===== *)
theory Files
  imports Go_Prelude
begin

text \<open>
  The operating system the program runs on, as an explicit state, and \<open>atomicWrite\<close> of
  main.go. A file system maps paths to files; an environment decides, for each system call by
  its number, whether it fails, how much of a failing write reached the file, what the clock
  shows, which random names \<open>os.CreateTemp\<close> draws, how an external command or an HTTP request ends and
  whether the context is done. Every
  change of the file system is also recorded, so that a statement about all recorded states is a
  statement about a process killed at any point. The results: \<open>atomicWrite\<close> either installs the
  new contents or leaves the path as it was, at every moment, touches no other existing file, and
  cannot fail unless a system call does.
\<close>

section \<open>State and environment\<close>

text \<open>A path stands for the file it names: one spelling per file.\<close>

type_synonym path = string

record inode =
  bytes :: string
  perm :: nat
  mtime :: int

type_synonym file_system = "path \<Rightarrow> inode option"

text \<open>
  An external command: the program, its arguments, its standard input, and the deadline of its own the
  code puts on it besides the context of the cycle.
\<close>

datatype command = Command (program: path) (args: "string list") (stdin: string) (deadline: "int option")

text \<open>A request: the URL and the timeout of the client.\<close>

type_synonym request = "string \<times> int"

text \<open>What an HTTP request comes to: it cannot be built, it fails, or there is a response.\<close>

datatype http_result = ReqErr go_error | DoErr go_error | Resp (status_code: int) (body: string)

text \<open>
  The state: the files, the number of system calls so far, every state of the files since the
  start, the external commands with the files they saw and whether they succeeded, the
  requests, the SSH sessions with the
  host and the script sent, the waits, and what was written to standard output.
\<close>

record world =
  fs :: file_system
  calls :: nat
  history :: "file_system list"
  commands :: "(command \<times> file_system \<times> bool) list"
  requests :: "request list"
  sessions :: "(string \<times> string) list"
  sleeps :: "int list"
  stdout :: string

record os_env =
  fault :: "nat \<Rightarrow> go_error option"
  partial :: "nat \<Rightarrow> nat"
  clock :: "nat \<Rightarrow> int"
  random_name :: "nat \<Rightarrow> nat \<Rightarrow> string"
  outcome :: "nat \<Rightarrow> command \<Rightarrow> go_error option"
  http :: "nat \<Rightarrow> request \<Rightarrow> http_result"
  ctx_err :: "nat \<Rightarrow> go_error option"

text \<open>One system call: the next file system and the result, or the failure it may leave behind.\<close>

definition tick :: "file_system \<Rightarrow> world \<Rightarrow> world" where
  "tick s w = w\<lparr>fs := s, calls := Suc (calls w), history := history w @ [s]\<rparr>"

definition os_call :: "os_env \<Rightarrow> file_system \<Rightarrow> file_system \<Rightarrow> 'a \<Rightarrow> world \<Rightarrow> 'a res \<times> world" where
  "os_call E failed done r w =
     (case fault E (calls w) of
        Some e \<Rightarrow> (Inl e, tick failed w)
      | None \<Rightarrow> (Inr r, tick done w))"

text \<open>\<open>filepath.Dir\<close> of a clean path.\<close>

definition dir_of :: "path \<Rightarrow> path" where
  "dir_of p =
     (let d = rev (dropWhile (\<lambda>c. c \<noteq> CHR ''/'') (rev p))
      in if d = [] then ''.'' else if d = ''/'' then d else butlast d)"

section \<open>System calls\<close>

text \<open>
  \<open>os.CreateTemp\<close>: random names until one does not exist, 10000 attempts at most, then an
  empty file of mode 0600 is created under it. With \<open>dir\<close> and \<open>pattern\<close> taken from a path the
  name is the path, a dot or infix, the random part and a suffix.
\<close>

function temp_name :: "os_env \<Rightarrow> path \<Rightarrow> string \<Rightarrow> world \<Rightarrow> nat \<Rightarrow> path option" where
  "temp_name E pre suf w k =
     (if 10000 \<le> k then None
      else let name = pre @ random_name E (calls w) k @ suf in
        if fs w name = None then Some name else temp_name E pre suf w (Suc k))"
  by pat_completeness auto
termination by (relation "measure (\<lambda>(E, pre, suf, w, k). 10000 - k)") auto

declare temp_name.simps [simp del]

definition create_temp :: "os_env \<Rightarrow> path \<Rightarrow> string \<Rightarrow> world \<Rightarrow> path res \<times> world" where
  "create_temp E pre suf w =
     (case temp_name E pre suf w 0 of
        None \<Rightarrow> (Inl (GoErr [] ''createtemp: file exists''), tick (fs w) w)
      | Some name \<Rightarrow>
          os_call E (fs w) ((fs w)(name \<mapsto> \<lparr>bytes = [], perm = 384, mtime = clock E (calls w)\<rparr>)) name w)"

text \<open>A write appends to the open file; a failing one may have appended a part.\<close>

definition append_bytes :: "os_env \<Rightarrow> path \<Rightarrow> string \<Rightarrow> world \<Rightarrow> file_system" where
  "append_bytes E p data w =
     (fs w)(p := map_option (\<lambda>f. f\<lparr>bytes := bytes f @ data, mtime := clock E (calls w)\<rparr>) (fs w p))"

definition os_write :: "os_env \<Rightarrow> path \<Rightarrow> string \<Rightarrow> world \<Rightarrow> unit res \<times> world" where
  "os_write E p data w =
     os_call E (append_bytes E p (take (partial E (calls w)) data) w) (append_bytes E p data w) () w"

definition os_chmod :: "os_env \<Rightarrow> path \<Rightarrow> nat \<Rightarrow> world \<Rightarrow> unit res \<times> world" where
  "os_chmod E p m w =
     os_call E (fs w) ((fs w)(p := map_option (\<lambda>f. f\<lparr>perm := m\<rparr>) (fs w p))) () w"

definition os_close :: "os_env \<Rightarrow> path \<Rightarrow> world \<Rightarrow> unit res \<times> world" where
  "os_close E p w = os_call E (fs w) (fs w) () w"

definition os_remove :: "os_env \<Rightarrow> path \<Rightarrow> world \<Rightarrow> unit res \<times> world" where
  "os_remove E p w =
     (if fs w p = None then (Inl (errors_new FsErrNotExist), tick (fs w) w)
      else os_call E (fs w) ((fs w)(p := None)) () w)"

definition os_rename :: "os_env \<Rightarrow> path \<Rightarrow> path \<Rightarrow> world \<Rightarrow> unit res \<times> world" where
  "os_rename E p q w =
     (if fs w p = None then (Inl (errors_new FsErrNotExist), tick (fs w) w)
      else os_call E (fs w) ((fs w)(p := None, q := fs w p)) () w)"

definition os_read_file :: "os_env \<Rightarrow> path \<Rightarrow> world \<Rightarrow> string res \<times> world" where
  "os_read_file E p w =
     (case fs w p of
        None \<Rightarrow> (Inl (errors_new FsErrNotExist), tick (fs w) w)
      | Some f \<Rightarrow> os_call E (fs w) (fs w) (bytes f) w)"

definition os_mkdir_all :: "os_env \<Rightarrow> world \<Rightarrow> unit res \<times> world" where
  "os_mkdir_all E w = os_call E (fs w) (fs w) () w"

definition os_stat :: "os_env \<Rightarrow> path \<Rightarrow> world \<Rightarrow> int res \<times> world" where
  "os_stat E p w =
     (case fs w p of
        None \<Rightarrow> (Inl (errors_new FsErrNotExist), tick (fs w) w)
      | Some f \<Rightarrow> os_call E (fs w) (fs w) (mtime f) w)"

text \<open>An external command runs on the file system as it is; only its end is observed.\<close>

definition os_exec :: "os_env \<Rightarrow> command \<Rightarrow> world \<Rightarrow> unit res \<times> world" where
  "os_exec E c w =
     (let r = outcome E (calls w) c;
          w' = (tick (fs w) w)\<lparr>commands := commands w @ [(c, fs w, r = None)]\<rparr>
      in case r of Some e \<Rightarrow> (Inl e, w') | None \<Rightarrow> (Inr (), w'))"

section \<open>atomicWrite\<close>

definition config_file_mode :: nat where "config_file_mode = 416"

definition atomic_write :: "os_env \<Rightarrow> path \<Rightarrow> string \<Rightarrow> world \<Rightarrow> unit res \<times> world" where
  "atomic_write E path data w =
     (case create_temp E (path @ ''.'') [] w of
        (Inl e, w) \<Rightarrow> (Inl (wrapf ''create temp: '' e []), w)
      | (Inr tmpName, w) \<Rightarrow>
     (case os_write E tmpName data w of
        (Inl e, w) \<Rightarrow>
          (Inl (wrapf ''write tmp: '' e []), snd (os_remove E tmpName (snd (os_close E tmpName w))))
      | (Inr _, w) \<Rightarrow>
     (case os_chmod E tmpName config_file_mode w of
        (Inl e, w) \<Rightarrow>
          (Inl (wrapf ''chmod tmp: '' e []), snd (os_remove E tmpName (snd (os_close E tmpName w))))
      | (Inr _, w) \<Rightarrow>
     (case os_close E tmpName w of
        (Inl e, w) \<Rightarrow> (Inl (wrapf ''close tmp: '' e []), snd (os_remove E tmpName w))
      | (Inr _, w) \<Rightarrow>
     (case os_rename E tmpName path w of
        (Inl e, w) \<Rightarrow> (Inl (wrapf ''rename: '' e []), snd (os_remove E tmpName w))
      | (Inr _, w) \<Rightarrow> (Inr (), w))))))"

section \<open>Work on a temporary file leaves the rest alone\<close>

lemma tick_simps [simp]:
  "fs (tick s w) = s" "calls (tick s w) = Suc (calls w)" "history (tick s w) = history w @ [s]"
  "commands (tick s w) = commands w"
  by (simp_all add: tick_def)

definition intact :: "path \<Rightarrow> file_system \<Rightarrow> file_system \<Rightarrow> bool" where
  "intact tmp s0 s \<longleftrightarrow> (\<forall>q. q \<noteq> tmp \<longrightarrow> s q = s0 q)"

text \<open>From \<open>w0\<close> to \<open>w\<close> only \<open>tmp\<close> changed, at every recorded moment, and no command ran.\<close>

definition quiet :: "path \<Rightarrow> world \<Rightarrow> world \<Rightarrow> bool" where
  "quiet tmp w0 w \<longleftrightarrow> intact tmp (fs w0) (fs w) \<and> commands w = commands w0
     \<and> (\<exists>hs. history w = history w0 @ hs \<and> list_all (intact tmp (fs w0)) hs)"

lemma intact_upd: "intact tmp s0 s \<Longrightarrow> intact tmp s0 (s(tmp := v))"
  by (simp add: intact_def)

lemma quiet_refl: "quiet tmp w w"
  by (simp add: quiet_def intact_def)

lemma quiet_tick: "quiet tmp w0 w \<Longrightarrow> intact tmp (fs w0) s \<Longrightarrow> quiet tmp w0 (tick s w)"
  by (auto simp: quiet_def)

lemma quiet_call:
  assumes "quiet tmp w0 w" "intact tmp (fs w0) failed" "intact tmp (fs w0) done"
  shows "quiet tmp w0 (snd (os_call E failed done r w))"
  using assms by (auto simp: os_call_def quiet_tick split: option.split)

lemma quiet_fs: "quiet tmp w0 w \<Longrightarrow> intact tmp (fs w0) (fs w)"
  by (simp add: quiet_def)

lemma quiet_ops:
  assumes "quiet tmp w0 w"
  shows "quiet tmp w0 (snd (os_write E tmp d w))" "quiet tmp w0 (snd (os_chmod E tmp m w))"
    "quiet tmp w0 (snd (os_close E p w))" "quiet tmp w0 (snd (os_remove E tmp w))"
    "quiet tmp w0 (snd (os_read_file E p w))"
  using assms quiet_fs [OF assms]
  by (auto simp: os_write_def os_chmod_def os_close_def os_remove_def os_read_file_def append_bytes_def
      intro!: quiet_call quiet_tick intact_upd split: option.split)

text \<open>The temporary name: new, and longer than the path it is built from.\<close>

lemma temp_name_fresh:
  "temp_name E pre suf w k = Some name \<Longrightarrow> fs w name = None \<and> length pre \<le> length name"
  by (induction E pre suf w k rule: temp_name.induct)
    (auto simp: temp_name.simps [of _ _ _ w] Let_def temp_name.simps split: if_splits)

lemma os_call_Inr: "os_call E failed done r w = (Inr x, w') \<longleftrightarrow> fault E (calls w) = None \<and> x = r \<and> w' = tick done w"
  by (auto simp: os_call_def split: option.split)

lemma os_call_Inl: "os_call E failed done r w = (Inl e, w') \<longleftrightarrow> fault E (calls w) = Some e \<and> w' = tick failed w"
  by (auto simp: os_call_def split: option.split)

lemma create_temp_Inr:
  assumes "create_temp E pre suf w = (Inr tmp, w')"
  shows "fs w tmp = None" and "length pre \<le> length tmp"
    and "w' = tick ((fs w)(tmp \<mapsto> \<lparr>bytes = [], perm = 384, mtime = clock E (calls w)\<rparr>)) w"
  using assms temp_name_fresh [of E pre suf w 0]
  by (auto simp: create_temp_def os_call_Inr split: option.splits)

lemma create_temp_Inl: "create_temp E pre suf w = (Inl e, w') \<Longrightarrow> w' = tick (fs w) w"
  by (auto simp: create_temp_def os_call_Inl split: option.splits)

lemma create_temp_quiet: "create_temp E pre suf w = (Inr tmp, w') \<Longrightarrow> quiet tmp w w'"
  using create_temp_Inr(3) [of E pre suf w tmp w']
  by (simp add: quiet_tick quiet_refl intact_def)

lemma os_rename_Inl: "os_rename E p q w = (Inl e, w') \<Longrightarrow> w' = tick (fs w) w"
  by (auto simp: os_rename_def os_call_Inl split: if_splits)

lemma os_rename_Inr:
  "os_rename E p q w = (Inr u, w') \<Longrightarrow> \<exists>f. fs w p = Some f \<and> w' = tick ((fs w)(p := None, q \<mapsto> f)) w"
  by (auto simp: os_rename_def os_call_Inr split: if_splits)

text \<open>The steps up to the rename: the temporary file holds the data.\<close>

lemma staged_file:
  assumes "create_temp E pre suf w0 = (Inr tmp, w1)" "os_write E tmp data w1 = (Inr u, w2)"
    "os_chmod E tmp m w2 = (Inr v, w3)" "os_close E tmp w3 = (Inr x, w4)"
  shows "quiet tmp w0 w4" and "fs w4 tmp = Some \<lparr>bytes = data, perm = m, mtime = clock E (calls w1)\<rparr>"
proof -
  note w1 = create_temp_Inr(3) [OF assms(1)]
  show "quiet tmp w0 w4"
    using create_temp_quiet [OF assms(1)] assms quiet_ops(1-3) by (metis snd_conv)
  have "w2 = tick (append_bytes E tmp data w1) w1" using assms(2) by (simp add: os_write_def os_call_Inr)
  moreover have "w3 = tick ((fs w2)(tmp := map_option (\<lambda>f. f\<lparr>perm := m\<rparr>) (fs w2 tmp))) w2"
    using assms(3) by (simp add: os_chmod_def os_call_Inr)
  moreover have "w4 = tick (fs w3) w3" using assms(4) by (simp add: os_close_def os_call_Inr)
  ultimately show "fs w4 tmp = Some \<lparr>bytes = data, perm = m, mtime = clock E (calls w1)\<rparr>"
    by (simp add: append_bytes_def w1)
qed

lemma quiet_rename:
  assumes "quiet tmp w0 w" "fs w tmp = Some f" "fs w0 tmp = None" "tmp \<noteq> p"
    "os_rename E tmp p w = (Inr u, w')"
  shows "fs w' = (fs w0)(p \<mapsto> f)" and "commands w' = commands w0"
    and "\<exists>hs. history w' = history w0 @ hs @ [fs w'] \<and> list_all (intact tmp (fs w0)) hs"
proof -
  have w': "w' = tick ((fs w)(tmp := None, p \<mapsto> f)) w"
    using os_rename_Inr [OF assms(5)] assms(2) by simp
  show "fs w' = (fs w0)(p \<mapsto> f)"
    using assms(1,3,4) by (auto simp: w' quiet_def intact_def fun_eq_iff)
  show "commands w' = commands w0" using assms(1) by (simp add: w' quiet_def)
  show "\<exists>hs. history w' = history w0 @ hs @ [fs w'] \<and> list_all (intact tmp (fs w0)) hs"
    using assms(1) by (auto simp: w' quiet_def)
qed

text \<open>The same for one call, and for the way the cache and the marker are written.\<close>

lemma create_temp_quiet_from:
  "quiet tmp w0 w \<Longrightarrow> create_temp E pre suf w = (Inr tmp, w') \<Longrightarrow> quiet tmp w0 w'"
  using create_temp_Inr(3) [of E pre suf w tmp w'] by (simp add: quiet_tick quiet_fs intact_upd)

lemma mkdir_effect: "os_mkdir_all E w = (r, w') \<Longrightarrow> w' = tick (fs w) w"
  by (auto simp: os_mkdir_all_def os_call_def split: option.splits)

lemma quiet_ops_eq:
  assumes "quiet tmp w0 w"
  shows "os_write E tmp d w = (r, w') \<Longrightarrow> quiet tmp w0 w'" "os_chmod E tmp m w = (r, w') \<Longrightarrow> quiet tmp w0 w'"
    "os_close E p w = (r, w') \<Longrightarrow> quiet tmp w0 w'" "os_remove E tmp w = (r, w') \<Longrightarrow> quiet tmp w0 w'"
    "os_rename E tmp q w = (Inl e, w') \<Longrightarrow> quiet tmp w0 w'"
  using quiet_ops(1) [OF assms, of E d] quiet_ops(2) [OF assms, of E m] quiet_ops(3) [OF assms, of E p]
    quiet_ops(4) [OF assms, of E] quiet_tick [OF assms quiet_fs [OF assms]] os_rename_Inl [of E tmp q w e w']
  by simp_all

section \<open>What atomicWrite does\<close>

lemma atomic_write_Inr:
  assumes "atomic_write E path data w = (Inr u, w')"
  obtains tmp hs t where "fs w tmp = None" "tmp \<noteq> path"
    "fs w' = (fs w)(path \<mapsto> \<lparr>bytes = data, perm = config_file_mode, mtime = t\<rparr>)"
    "history w' = history w @ hs @ [fs w']" "list_all (intact tmp (fs w)) hs" "commands w' = commands w"
proof -
  obtain tmp w1 w2 w3 w4 where s: "create_temp E (path @ ''.'') [] w = (Inr tmp, w1)"
    "os_write E tmp data w1 = (Inr (), w2)" "os_chmod E tmp config_file_mode w2 = (Inr (), w3)"
    "os_close E tmp w3 = (Inr (), w4)" "os_rename E tmp path w4 = (Inr (), w')"
    using assms by (auto simp: atomic_write_def split: prod.splits sum.splits)
  have fresh: "fs w tmp = None" "tmp \<noteq> path" using create_temp_Inr(1,2) [OF s(1)] by auto
  note st = staged_file [OF s(1-4)]
  obtain hs where "history w' = history w @ hs @ [fs w']" "list_all (intact tmp (fs w)) hs"
    using quiet_rename(3) [OF st fresh s(5)] by blast
  then show thesis using that fresh quiet_rename(1,2) [OF st fresh s(5)] by blast
qed

lemma atomic_write_Inl:
  assumes "atomic_write E path data w = (Inl e, w')"
  obtains tmp where "tmp \<noteq> path" "fs w tmp = None \<or> fs w' = fs w" "quiet tmp w w'"
proof (cases "create_temp E (path @ ''.'') [] w")
  case (Pair r w1)
  show thesis
  proof (cases r)
    case (Inl e1)
    then have "w' = tick (fs w) w"
      using assms Pair create_temp_Inl by (auto simp: atomic_write_def)
    then show thesis
      using that [of "CHR ''x'' # path"] quiet_tick [OF quiet_refl] by (simp add: intact_def)
  next
    case (Inr tmp)
    note q1 = create_temp_quiet [OF Pair [unfolded Inr]]
    have fresh: "fs w tmp = None" "tmp \<noteq> path" using create_temp_Inr(1,2) [OF Pair [unfolded Inr]] by auto
    have qw: "quiet tmp w w2" if "os_write E tmp data w1 = (x, w2)" for x w2
      using quiet_ops(1) [OF q1, of E data] that by simp
    have qm: "quiet tmp w w3" if "quiet tmp w w2" "os_chmod E tmp m w2 = (x, w3)" for x w2 w3 m
      using quiet_ops(2) [OF that(1), of E m] that(2) by simp
    have qc: "quiet tmp w w3" if "quiet tmp w w2" "os_close E tmp w2 = (x, w3)" for x w2 w3
      using quiet_ops(3) [OF that(1), of E tmp] that(2) by simp
    have qr: "quiet tmp w w3" if "quiet tmp w w2" "os_rename E tmp path w2 = (Inl x, w3)" for x w2 w3
      using os_rename_Inl [OF that(2)] quiet_tick [OF that(1) quiet_fs [OF that(1)]] by simp
    have "quiet tmp w w'"
      using assms Pair Inr
      by (auto simp: atomic_write_def split: prod.splits sum.splits
          dest: qw qm qc qr intro!: quiet_ops(3,4))
    then show thesis using that fresh by blast
  qed
qed

lemma temp_name_first: "fs w (pre @ random_name E (calls w) 0 @ suf) = None \<Longrightarrow>
  temp_name E pre suf w 0 = Some (pre @ random_name E (calls w) 0 @ suf)"
  by (simp add: temp_name.simps)

text \<open>Without a failing system call, and with a free first name, it succeeds.\<close>

lemma atomic_write_succeeds:
  assumes "\<And>n. fault E n = None" "fs w (path @ ''.'' @ random_name E (calls w) 0) = None"
  shows "fst (atomic_write E path data w) = Inr ()"
  using assms temp_name_first [of w "path @ ''.''" E "[]"]
  by (simp add: atomic_write_def create_temp_def os_call_def os_write_def os_chmod_def os_close_def
      os_rename_def append_bytes_def)

definition contents :: "world \<Rightarrow> path \<Rightarrow> string option" where
  "contents w p = map_option bytes (fs w p)"

text \<open>
  The interface of a store that replaces a file as a whole: \<open>put\<close> installs the data or
  leaves the path alone, and no other existing file changes. The rollback of the FRR
  configuration, the feed cache and the target output are its clients.
\<close>

locale atomic_store =
  fixes put :: "path \<Rightarrow> string \<Rightarrow> 'w \<Rightarrow> unit res \<times> 'w" and look :: "'w \<Rightarrow> path \<Rightarrow> string option"
  assumes put_ok: "put p d w = (Inr u, w') \<Longrightarrow> look w' p = Some d"
    and put_fail: "put p d w = (Inl e, w') \<Longrightarrow> look w' p = look w p"
    and put_other: "put p d w = (r, w') \<Longrightarrow> q \<noteq> p \<Longrightarrow> look w q = Some c \<Longrightarrow> look w' q = Some c"
begin

lemma put_either: "put p d w = (r, w') \<Longrightarrow> look w' p = look w p \<or> look w' p = Some d"
  by (cases r) (auto dest: put_ok put_fail)

lemma put_same:
  assumes "look w p = Some d" "put p d w = (r, w')" "look w q = Some c"
  shows "look w' q = Some c"
  using assms put_either [of p d w r w'] put_other [of p d w r w' q c] by (cases "q = p") auto

lemma put_back:
  assumes "look w p = Some c" "put p d w = (Inr u, w1)" "put p c w1 = (r, w2)"
  shows "look w2 p = Some (case r of Inl _ \<Rightarrow> d | Inr _ \<Rightarrow> c)"
  using assms put_ok [OF assms(2)] by (cases r) (auto dest: put_ok put_fail)

end

interpretation aw: atomic_store "atomic_write E" contents for E
proof
  fix p d w u w' e r q c
  show "atomic_write E p d w = (Inr u, w') \<Longrightarrow> contents w' p = Some d"
    by (erule atomic_write_Inr) (simp add: contents_def)
  show "atomic_write E p d w = (Inl e, w') \<Longrightarrow> contents w' p = contents w p"
    by (erule atomic_write_Inl) (simp add: contents_def quiet_def intact_def)
  show "contents w' q = Some c"
    if w: "atomic_write E p d w = (r, w')" and q: "q \<noteq> p" "contents w q = Some c"
  proof (cases r)
    case (Inl e)
    obtain tmp where "fs w tmp = None \<or> fs w' = fs w" "quiet tmp w w'"
      using atomic_write_Inl [of E p d w e w'] w Inl by metis
    then show ?thesis using q by (cases "q = tmp") (auto simp: contents_def quiet_def intact_def)
  next
    case (Inr u)
    then show ?thesis using w q by (auto simp: contents_def elim: atomic_write_Inr)
  qed
qed

lemma atomic_write_moments:
  assumes "atomic_write E path data w = (r, w')"
  obtains hs where "history w' = history w @ hs" "commands w' = commands w"
    "list_all (\<lambda>s. s path = fs w path
       \<or> map_option bytes (s path) = Some data \<and> map_option perm (s path) = Some config_file_mode) hs"
proof (cases r)
  case (Inl e)
  obtain tmp where "tmp \<noteq> path" "quiet tmp w w'"
    using atomic_write_Inl [of E path data w e w'] assms Inl by metis
  then show thesis using that by (fastforce simp: quiet_def intact_def list_all_iff)
next
  case (Inr u)
  obtain tmp hs t where h: "tmp \<noteq> path"
    "fs w' = (fs w)(path \<mapsto> \<lparr>bytes = data, perm = config_file_mode, mtime = t\<rparr>)"
    "history w' = history w @ hs @ [fs w']" "list_all (intact tmp (fs w)) hs" "commands w' = commands w"
    using atomic_write_Inr [of E path data w u w'] assms Inr by metis
  then show thesis
    by (intro that [of "hs @ [fs w']"]) (auto simp: intact_def list_all_iff)
qed

section \<open>A file that is kept\<close>

text \<open>The file at \<open>q\<close> is the same at the end and at every recorded moment between.\<close>

definition keeps :: "path \<Rightarrow> world \<Rightarrow> world \<Rightarrow> bool" where
  "keeps q w w' \<longleftrightarrow> fs w' q = fs w q \<and> (\<exists>hs. history w' = history w @ hs \<and> list_all (\<lambda>s. s q = fs w q) hs)"

lemma keeps_refl: "keeps q w w"
  by (simp add: keeps_def)

lemma keeps_trans: "keeps q w w' \<Longrightarrow> keeps q w' w'' \<Longrightarrow> keeps q w w''"
  by (auto simp: keeps_def)

lemma keeps_tick: "keeps q w (tick (fs w) w)"
  by (simp add: keeps_def)

lemma quiet_keeps: "quiet tmp w w' \<Longrightarrow> q \<noteq> tmp \<Longrightarrow> keeps q w w'"
  by (auto simp: quiet_def intact_def keeps_def list_all_iff)

text \<open>Two names for the temporary file: nothing changed at all.\<close>

lemma quiet_all_keeps: "(\<And>t. quiet t w w') \<Longrightarrow> keeps q w w'"
  using quiet_keeps [of "CHR ''x'' # q" w w' q] by simp

lemma quiet_either_keeps:
  assumes "fs w tmp = None \<or> (\<forall>t. quiet t w w')" "quiet tmp w w'" "fs w q \<noteq> None"
  shows "keeps q w w'"
  using assms quiet_keeps [of tmp w w' q] quiet_all_keeps [of w w' q] by (cases "q = tmp") auto

section \<open>What file operations leave alone\<close>

text \<open>Everything of the state but the files and their history.\<close>

definition effects :: "world \<Rightarrow>
    (command \<times> file_system \<times> bool) list \<times> request list \<times> (string \<times> string) list \<times> int list \<times> string" where
  "effects w = (commands w, requests w, sessions w, sleeps w, stdout w)"

lemma effects_tick [simp]: "effects (tick s w) = effects w"
  by (simp add: effects_def tick_def)

lemma effects_call: "os_call E x y r w = (a, w') \<Longrightarrow> effects w' = effects w"
  by (auto simp: os_call_def split: option.splits)

lemma effects_ops:
  "os_write E p d w = (a1, w') \<Longrightarrow> effects w' = effects w"
  "os_chmod E p m w = (a2, w') \<Longrightarrow> effects w' = effects w"
  "os_close E p w = (a2, w') \<Longrightarrow> effects w' = effects w"
  "os_remove E p w = (a2, w') \<Longrightarrow> effects w' = effects w"
  "os_rename E p q w = (a2, w') \<Longrightarrow> effects w' = effects w"
  "os_read_file E p w = (a3, w') \<Longrightarrow> effects w' = effects w"
  "create_temp E pre suf w = (a3, w') \<Longrightarrow> effects w' = effects w"
  by (auto simp: os_write_def os_chmod_def os_close_def os_remove_def os_rename_def os_read_file_def
      create_temp_def dest: effects_call split: option.splits if_splits)

lemma effects_snd [simp]:
  "effects (snd (os_remove E p w)) = effects w" "effects (snd (os_close E p w)) = effects w"
  by (rule effects_ops, rule prod.collapse [symmetric])+

lemma effects_atomic_write: "atomic_write E p d w = (a, w') \<Longrightarrow> effects w' = effects w"
  by (auto simp: atomic_write_def dest!: effects_ops split: prod.splits sum.splits)

section \<open>Properties\<close>

text \<open>C23: atomicWrite is an all-or-nothing replacement: on success the path holds the data with mode 0640
  and no other file changed; on an error the path and every other existing file are as before.\<close>

theorem atomic_write_all_or_nothing:
  "case atomic_write E path data w of
     (Inr _, w') \<Rightarrow> contents w' path = Some data \<and> map_option perm (fs w' path) = Some config_file_mode
       \<and> list_all (\<lambda>q. q = path \<or> fs w' q = fs w q) qs
   | (Inl _, w') \<Rightarrow> fs w' path = fs w path \<and> list_all (\<lambda>q. fs w q = None \<or> fs w' q = fs w q) qs"
proof -
  obtain r w' where rw: "atomic_write E path data w = (r, w')" by fastforce
  show ?thesis
  proof (cases r)
    case (Inl e)
    obtain tmp where "tmp \<noteq> path" "fs w tmp = None \<or> fs w' = fs w" "quiet tmp w w'"
      using atomic_write_Inl [of E path data w e w'] rw Inl by metis
    then have "fs w' path = fs w path" "fs w q = None \<or> fs w' q = fs w q" for q
      by (auto simp: quiet_def intact_def, cases "q = tmp", auto)
    then show ?thesis using rw Inl by (simp add: list_all_iff)
  next
    case (Inr u)
    then show ?thesis
      using rw by (auto simp: contents_def list_all_iff elim!: atomic_write_Inr split: if_splits)
  qed
qed

lemma atomic_write_crash_safe:
  "\<exists>hs. history (snd (atomic_write E path data w)) = history w @ hs
     \<and> list_all (\<lambda>s. s path = fs w path \<or> map_option bytes (s path) = Some data) hs"
proof -
  obtain r w' where rw: "atomic_write E path data w = (r, w')" by fastforce
  obtain hs where "history w' = history w @ hs"
    "list_all (\<lambda>s. s path = fs w path
       \<or> map_option bytes (s path) = Some data \<and> map_option perm (s path) = Some config_file_mode) hs"
    using atomic_write_moments [OF rw] by blast
  then show ?thesis using rw by (auto simp: list_all_iff)
qed

section \<open>A concrete environment\<close>

text \<open>The environment and the start state the witnesses use: nothing fails, time stands still.\<close>

abbreviation calm :: os_env where
  "calm \<equiv> \<lparr>fault = \<lambda>_. None, partial = \<lambda>_. 0, clock = \<lambda>_. 0, random_name = \<lambda>_ _. ''1'',
     outcome = \<lambda>_ _. None, http = \<lambda>_ _. DoErr (GoErr [] ''timeout''), ctx_err = \<lambda>_. None\<rparr>"

abbreviation start_world :: "file_system \<Rightarrow> world" where
  "start_world s \<equiv> \<lparr>fs = s, calls = 0, history = [], commands = [], requests = [], sessions = [], sleeps = [], stdout = []\<rparr>"

abbreviation old_file :: file_system where
  "old_file \<equiv> [''f'' \<mapsto> \<lparr>bytes = ''old'', perm = 416, mtime = 0\<rparr>]"

end
