(* ===== verification/Rollback.thy ===== *)
theory Rollback
  imports Files Config
begin

text \<open>
  rollback.go: installing a new FRR configuration with a syntax check before, a reload after, and
  the previous file put back when the reload fails. The two hooks are modelled by their production
  bindings, \<open>vtysh -C\<close> and \<open>frr-reload.py\<close>, as external commands. The results: success
  means the new file is live and the reload of exactly that file succeeded; a rejected candidate
  never touches the live file; after a failed reload the previous contents are back unless writing
  them failed, which the error then says; and at every moment the live file is the old or the new one.
\<close>

section \<open>The hooks\<close>

text \<open>
  How a command ends, killed at its deadline or not, is the outcome the environment gives. The check
  has no deadline of its own, a reload has.
\<close>

definition vtysh_check :: "path \<Rightarrow> command" where
  "vtysh_check p = Command ''/usr/bin/vtysh'' [''-C'', ''-f'', p] [] None"

definition frr_reload_cmd :: "path \<Rightarrow> int \<Rightarrow> path \<Rightarrow> command" where
  "frr_reload_cmd script t p = Command script [''--reload'', p] [] (Some t)"

definition frr_syntax_check :: "os_env \<Rightarrow> path \<Rightarrow> world \<Rightarrow> unit res \<times> world" where
  "frr_syntax_check E p w =
     (case os_exec E (vtysh_check p) w of
        (Inl e, w) \<Rightarrow> (Inl (wrapf ''vtysh -C: '' e []), w)
      | (Inr _, w) \<Rightarrow> (Inr (), w))"

definition frr_reload :: "os_env \<Rightarrow> path \<Rightarrow> path \<Rightarrow> int \<Rightarrow> world \<Rightarrow> unit res \<times> world" where
  "frr_reload E p script t w =
     (case os_exec E (frr_reload_cmd script t p) w of
        (Inl e, w) \<Rightarrow> (Inl (wrapf ''frr-reload: '' e []), w)
      | (Inr _, w) \<Rightarrow> (Inr (), w))"

section \<open>applyFRRConfigOpts\<close>

text \<open>The struct \<open>applyOpts\<close>.\<close>

record applyOpts =
  opt_frrReloadScript :: path
  opt_frrReloadTimeout :: int
  opt_skipReload :: bool

definition no_backup_text :: string where
  "no_backup_text = '' (no backup to restore '' @ [CHR 0xE2, CHR 0x80, CHR 0x94] @ '' fresh install path)''"

text \<open>The rollback: from the failed reload on.\<close>

definition roll_back :: "os_env \<Rightarrow> path \<Rightarrow> applyOpts \<Rightarrow> go_error \<Rightarrow> string option \<Rightarrow> world \<Rightarrow> unit res \<times> world" where
  "roll_back E livePath opts reloadErr backup w =
     (case backup of
        None \<Rightarrow>
          (Inl (wrapf ''reload: '' reloadErr no_backup_text), w)
      | Some old \<Rightarrow>
     (case atomic_write E livePath old w of
        (Inl restoreErr, w) \<Rightarrow>
          (Inl (errors_join (wrapf ''reload: '' reloadErr []) (wrapf ''restore: '' restoreErr [])), w)
      | (Inr _, w) \<Rightarrow>
     (case frr_reload E livePath (opt_frrReloadScript opts) (opt_frrReloadTimeout opts) w of
        (Inl e, w) \<Rightarrow>
          (Inl (errors_join (wrapf ''reload: '' reloadErr []) (wrapf ''rollback reload: '' e [])), w)
      | (Inr _, w) \<Rightarrow> (Inl (wrapf ''reload failed, backup restored: '' reloadErr []), w))))"

text \<open>The steps after the syntax check: backup, write, reload.\<close>

definition install_live :: "os_env \<Rightarrow> path \<Rightarrow> string \<Rightarrow> applyOpts \<Rightarrow> world \<Rightarrow> unit res \<times> world" where
  "install_live E livePath newContents opts w =
     (case os_read_file E livePath w of
        (readRes, w) \<Rightarrow>
     (case (case readRes of
              Inl readErr \<Rightarrow> if errors_is readErr FsErrNotExist then Inr None
                            else Inl (wrapf ''read live for backup: '' readErr [])
            | Inr b \<Rightarrow> Inr (Some b)) of
        Inl e \<Rightarrow> (Inl e, w)
      | Inr backup \<Rightarrow>
     (case atomic_write E livePath newContents w of
        (Inl e, w) \<Rightarrow> (Inl (wrapf ''write live: '' e []), w)
      | (Inr _, w) \<Rightarrow>
     (case frr_reload E livePath (opt_frrReloadScript opts) (opt_frrReloadTimeout opts) w of
        (Inr _, w) \<Rightarrow> (Inr (), w)
      | (Inl reloadErr, w) \<Rightarrow> roll_back E livePath opts reloadErr backup w))))"

text \<open>The steps on the staged candidate; the deferred removal runs on every way out.\<close>

definition check_staged :: "os_env \<Rightarrow> path \<Rightarrow> path \<Rightarrow> string \<Rightarrow> applyOpts \<Rightarrow> world \<Rightarrow> unit res \<times> world" where
  "check_staged E livePath stagedPath newContents opts w =
     (case os_write E stagedPath newContents w of
        (Inl e, w) \<Rightarrow> (Inl (wrapf ''write staging: '' e []), snd (os_close E stagedPath w))
      | (Inr _, w) \<Rightarrow>
     (case os_close E stagedPath w of
        (Inl e, w) \<Rightarrow> (Inl (wrapf ''close staging: '' e []), w)
      | (Inr _, w) \<Rightarrow>
     (case frr_syntax_check E stagedPath w of
        (Inl e, w) \<Rightarrow> (Inl (wrapf ''syntax check: '' e []), w)
      | (Inr _, w) \<Rightarrow> install_live E livePath newContents opts w)))"

definition apply_frr_config_opts ::
  "os_env \<Rightarrow> path \<Rightarrow> string \<Rightarrow> applyOpts \<Rightarrow> world \<Rightarrow> unit res \<times> world" where
  "apply_frr_config_opts E livePath newContents opts w =
     (if opt_skipReload opts then atomic_write E livePath newContents w
      else case create_temp E (livePath @ ''.staging.'') [] w of
        (Inl e, w) \<Rightarrow> (Inl (wrapf ''create staging temp: '' e []), w)
      | (Inr stagedPath, w) \<Rightarrow>
          (case check_staged E livePath stagedPath newContents opts w of
             (r, w) \<Rightarrow> (r, snd (os_remove E stagedPath w))))"

definition apply_frr_config :: "os_env \<Rightarrow> path \<Rightarrow> string \<Rightarrow> world \<Rightarrow> unit res \<times> world" where
  "apply_frr_config E livePath newContents w =
     apply_frr_config_opts E livePath newContents
       \<lparr>opt_frrReloadScript = ''/usr/lib/frr/frr-reload.py'', opt_frrReloadTimeout = 3 * minute, opt_skipReload = False\<rparr> w"

section \<open>The live file is the old or the new one at every moment\<close>

definition safe :: "path \<Rightarrow> string option set \<Rightarrow> file_system \<Rightarrow> bool" where
  "safe p ds s \<longleftrightarrow> map_option bytes (s p) \<in> ds"

definition steady :: "path \<Rightarrow> string option set \<Rightarrow> world \<Rightarrow> world \<Rightarrow> bool" where
  "steady p ds w0 w \<longleftrightarrow> safe p ds (fs w) \<and> (\<exists>hs. history w = history w0 @ hs \<and> list_all (safe p ds) hs)"

lemma steady_refl: "contents w p \<in> ds \<Longrightarrow> steady p ds w w"
  by (simp add: steady_def safe_def contents_def)

lemma steady_safe: "steady p ds w0 w \<Longrightarrow> safe p ds (fs w)"
  by (simp add: steady_def)

lemma steady_tick: "steady p ds w0 w \<Longrightarrow> safe p ds s \<Longrightarrow> steady p ds w0 (tick s w)"
  by (auto simp: steady_def)

lemma steady_call:
  assumes "steady p ds w0 w" "safe p ds failed" "safe p ds done"
  shows "steady p ds w0 (snd (os_call E failed done r w))"
  using assms by (auto simp: os_call_def steady_tick split: option.split)

lemma safe_upd: "q \<noteq> p \<Longrightarrow> safe p ds (s(q := v)) = safe p ds s"
  by (simp add: safe_def)

lemma steady_ops:
  assumes "steady p ds w0 w" "q \<noteq> p"
  shows "steady p ds w0 (snd (os_write E q d w))" "steady p ds w0 (snd (os_remove E q w))"
    "steady p ds w0 (snd (os_close E r w))" "steady p ds w0 (snd (os_read_file E r w))"
  using assms steady_safe [OF assms(1)]
  by (auto simp: os_write_def os_close_def os_remove_def os_read_file_def append_bytes_def safe_upd
      intro!: steady_call steady_tick split: option.split)

lemma steady_exec: "steady p ds w0 w \<Longrightarrow> steady p ds w0 (snd (os_exec E c w))"
  by (auto simp: os_exec_def steady_def Let_def split: option.split)

lemma steady_create_temp:
  assumes "steady p ds w0 w" "create_temp E pre suf w = (Inr tmp, w')" "length p < length pre"
  shows "steady p ds w0 w'" "tmp \<noteq> p"
proof -
  note c = create_temp_Inr [OF assms(2)]
  show "tmp \<noteq> p" using c(2) assms(3) by auto
  then show "steady p ds w0 w'"
    unfolding c(3) using steady_safe [OF assms(1)] by (intro steady_tick [OF assms(1)]) (simp add: safe_upd)
qed

lemma steady_atomic_write:
  assumes "steady p ds w0 w" "Some d \<in> ds" "atomic_write E p d w = (r, w')"
  shows "steady p ds w0 w'"
proof -
  obtain hs where h: "history w' = history w @ hs"
    "list_all (\<lambda>s. s p = fs w p
       \<or> map_option bytes (s p) = Some d \<and> map_option perm (s p) = Some config_file_mode) hs"
    using atomic_write_moments [OF assms(3)] by blast
  have "safe p ds (fs w')"
    using aw.put_either [OF assms(3)] assms(2) steady_safe [OF assms(1)]
    by (auto simp: safe_def contents_def)
  moreover have "list_all (safe p ds) hs"
    using h(2) assms(2) steady_safe [OF assms(1)] by (auto simp: list_all_iff safe_def)
  ultimately show ?thesis using assms(1) h(1) by (auto simp: steady_def)
qed

lemma steady_hooks:
  assumes "steady p ds w0 w"
  shows "steady p ds w0 (snd (frr_reload E q s t w))" "steady p ds w0 (snd (frr_syntax_check E q w))"
  using steady_exec [OF assms, of E "frr_reload_cmd s t q"] steady_exec [OF assms, of E "vtysh_check q"]
  by (auto simp: frr_reload_def frr_syntax_check_def split: prod.split sum.split)

lemma steady_roll_back:
  assumes "steady p ds w0 w" "backup = None \<or> backup \<in> ds"
  shows "steady p ds w0 (snd (roll_back E p opts e backup w))"
proof (cases backup)
  case (Some old)
  obtain r w1 where aw: "atomic_write E p old w = (r, w1)" by fastforce
  then have "steady p ds w0 w1" using steady_atomic_write assms Some by blast
  then show ?thesis
    using aw steady_hooks(1) [of p ds w0 w1 E p "opt_frrReloadScript opts" "opt_frrReloadTimeout opts"]
    by (auto simp: roll_back_def Some split: sum.split prod.split)
qed (use assms in \<open>simp add: roll_back_def\<close>)

lemma steady_install:
  assumes "steady p ds w0 w" "Some new \<in> ds"
  shows "steady p ds w0 (snd (install_live E p new opts w))"
proof -
  obtain rr w1 where rd: "os_read_file E p w = (rr, w1)" by fastforce
  have s1: "steady p ds w0 w1" using steady_ops(4) [OF assms(1), of _ E p] rd
    by (metis assms(1) not_Cons_self snd_conv steady_ops(4))
  have b: "Some c \<in> ds" if "rr = Inr c" for c
    using rd that steady_safe [OF assms(1)]
    by (auto simp: os_read_file_def os_call_Inr safe_def split: option.splits)
  obtain ar w2 where aw: "atomic_write E p new w1 = (ar, w2)" by fastforce
  have s2: "steady p ds w0 w2" using steady_atomic_write [OF s1 assms(2) aw] .
  obtain fr w3 where fr: "frr_reload E p (opt_frrReloadScript opts) (opt_frrReloadTimeout opts) w2 = (fr, w3)" by fastforce
  have s3: "steady p ds w0 w3" using steady_hooks(1) [OF s2] fr by (metis snd_conv)
  show ?thesis
    using rd aw fr s1 s2 s3 b
    by (auto simp: install_live_def intro!: steady_roll_back split: sum.split)
qed

lemma steady_apply:
  assumes "steady p ds w0 w" "Some new \<in> ds"
  shows "steady p ds w0 (snd (apply_frr_config_opts E p new opts w))"
proof (cases "opt_skipReload opts")
  case True
  then show ?thesis
    using steady_atomic_write [OF assms] by (simp add: apply_frr_config_opts_def prod_eq_iff)
next
  case False
  obtain cr w1 where ct: "create_temp E (p @ ''.staging.'') [] w = (cr, w1)" by fastforce
  show ?thesis
  proof (cases cr)
    case (Inl e)
    then show ?thesis
      using False ct create_temp_Inl steady_tick [OF assms(1) steady_safe [OF assms(1)]]
      by (auto simp: apply_frr_config_opts_def)
  next
    case (Inr st)
    note s1 = steady_create_temp [OF assms(1) ct [unfolded Inr], simplified]
    obtain wr w2 where wr: "os_write E st new w1 = (wr, w2)" by fastforce
    have s2: "steady p ds w0 w2" using steady_ops(1) [OF s1] wr by (metis snd_conv)
    obtain cl w3 where cl: "os_close E st w2 = (cl, w3)" by fastforce
    have s3: "steady p ds w0 w3" using steady_ops(3) [OF s2 s1(2)] cl by (metis snd_conv)
    obtain sc w4 where sc: "frr_syntax_check E st w3 = (sc, w4)" by fastforce
    have s4: "steady p ds w0 w4" using steady_hooks(2) [OF s3] sc by (metis snd_conv)
    have "steady p ds w0 (snd (check_staged E p st new opts w1))"
      using wr cl sc s3 s4 steady_install [OF s4 assms(2)]
      by (auto simp: check_staged_def split: sum.split)
    then show ?thesis
      using False ct Inr steady_ops(2) [OF _ s1(2)]
      by (auto simp: apply_frr_config_opts_def split: prod.split)
  qed
qed

theorem apply_frr_crash_safe:
  "\<exists>hs. history (snd (apply_frr_config_opts E live new opts w)) = history w @ hs
     \<and> list_all (\<lambda>s. map_option bytes (s live) = contents w live \<or> map_option bytes (s live) = Some new) hs"
  using steady_apply [OF steady_refl [of w live "{contents w live, Some new}"], of new E opts]
  by (auto simp: steady_def safe_def list_all_iff)

section \<open>Success, rejection and rollback\<close>

text \<open>What an external command leaves: its record, nothing else.\<close>

lemma os_exec_effect:
  assumes "os_exec E c w = (r, w')"
  shows "fs w' = fs w" "commands w' = commands w @ [(c, fs w, r = Inr ())]"
  using assms by (auto simp: os_exec_def Let_def split: option.splits)

lemma hook_effect:
  assumes "frr_syntax_check E p w = (r, w')"
  shows "fs w' = fs w" "commands w' = commands w @ [(vtysh_check p, fs w, r = Inr ())]"
proof -
  obtain q w1 where x: "os_exec E (vtysh_check p) w = (q, w1)" by fastforce
  have "w' = w1" "(r = Inr ()) = (q = Inr ())"
    using assms x by (auto simp: frr_syntax_check_def split: sum.splits)
  then show "fs w' = fs w" "commands w' = commands w @ [(vtysh_check p, fs w, r = Inr ())]"
    using os_exec_effect [OF x] by simp_all
qed

lemma reload_effect:
  assumes "frr_reload E p s t w = (r, w')"
  shows "fs w' = fs w" "commands w' = commands w @ [(frr_reload_cmd s t p, fs w, r = Inr ())]"
proof -
  obtain q w1 where x: "os_exec E (frr_reload_cmd s t p) w = (q, w1)" by fastforce
  have "w' = w1" "(r = Inr ()) = (q = Inr ())"
    using assms x by (auto simp: frr_reload_def split: sum.splits)
  then show "fs w' = fs w" "commands w' = commands w @ [(frr_reload_cmd s t p, fs w, r = Inr ())]"
    using os_exec_effect [OF x] by simp_all
qed

lemma commands_ops:
  "commands (snd (os_write E q d w)) = commands w" "commands (snd (os_remove E q w)) = commands w"
  "commands (snd (os_close E q w)) = commands w" "commands (snd (os_read_file E q w)) = commands w"
  "commands (snd (create_temp E pre suf w)) = commands w"
  by (auto simp: os_write_def os_remove_def os_close_def os_read_file_def create_temp_def os_call_def
      split: option.split)

lemma commands_atomic_write: "atomic_write E p d w = (r, w') \<Longrightarrow> commands w' = commands w"
  using atomic_write_moments by metis

lemma remove_other: "q \<noteq> p \<Longrightarrow> fs (snd (os_remove E q w)) p = fs w p"
  by (auto simp: os_remove_def os_call_def split: option.split)

lemma read_effect: "os_read_file E p w = (r, w') \<Longrightarrow> fs w' = fs w"
  "os_read_file E p w = (Inr c, w') \<Longrightarrow> contents w p = Some c"
  by (auto simp: os_read_file_def os_call_def contents_def split: option.splits)

text \<open>The staged candidate holds the new contents when it is checked; the live file is untouched.\<close>

lemma staged_contents:
  assumes "create_temp E (p @ ''.staging.'') [] w = (Inr st, w1)"
    "os_write E st new w1 = (Inr u, w2)" "os_close E st w2 = (Inr v, w3)"
  shows "contents w3 st = Some new" "contents w3 p = contents w p" "st \<noteq> p"
proof -
  note c = create_temp_Inr [OF assms(1)]
  show ne: "st \<noteq> p" using c(2) by auto
  have w2: "w2 = tick (append_bytes E st new w1) w1" using assms(2) by (simp add: os_write_def os_call_Inr)
  have w3: "w3 = tick (fs w2) w2" using assms(3) by (simp add: os_close_def os_call_Inr)
  show "contents w3 st = Some new" by (simp add: w3 w2 append_bytes_def contents_def c(3))
  show "contents w3 p = contents w p" using ne by (simp add: w3 w2 append_bytes_def contents_def c(3))
qed

text \<open>The three outcomes of a rollback.\<close>

lemma roll_back_cases:
  assumes "roll_back E p opts re backup w = (r, w')"
  obtains (none) "backup = None" "r = Inl (wrapf ''reload: '' re no_backup_text)" "w' = w"
  | (stuck) old e where "backup = Some old"
      "r = Inl (errors_join (wrapf ''reload: '' re []) (wrapf ''restore: '' e []))"
      "contents w' p = contents w p" "commands w' = commands w"
  | (restored) old e s ok where "backup = Some old" "r = Inl e" "contents w' p = Some old"
      "commands w' = commands w @ [(frr_reload_cmd (opt_frrReloadScript opts) (opt_frrReloadTimeout opts) p, s, ok)]" "map_option bytes (s p) = Some old"
proof (cases backup)
  case None
  then show thesis using assms none by (simp add: roll_back_def)
next
  case (Some old)
  obtain ar w1 where aw: "atomic_write E p old w = (ar, w1)" by fastforce
  show thesis
  proof (cases ar)
    case (Inl e)
    have "r = Inl (errors_join (wrapf ''reload: '' re []) (wrapf ''restore: '' e []))" "w' = w1"
      using assms Some aw Inl by (simp_all add: roll_back_def)
    then show thesis
      using aw Inl aw.put_fail [of E p old w e w1] commands_atomic_write [OF aw] by (intro stuck [OF Some]) simp_all
  next
    case (Inr u)
    then have "contents w1 p = Some old" using aw by (simp add: aw.put_ok [of E p old w u])
    moreover obtain fr w2 where fr: "frr_reload E p (opt_frrReloadScript opts) (opt_frrReloadTimeout opts) w1 = (fr, w2)" by fastforce
    moreover have "\<exists>e. r = Inl e" "w' = w2" using assms Some aw Inr fr by (auto simp: roll_back_def split: sum.splits)
    ultimately show thesis
      using restored [OF Some] reload_effect [OF fr] commands_atomic_write [OF aw] by (auto simp: contents_def)
  qed
qed

text \<open>The two errors that report a failed reload and leave the new file in place.\<close>

definition new_file_kept :: "go_error \<Rightarrow> bool" where
  "new_file_kept e \<longleftrightarrow>
     (\<exists>re. e = wrapf ''reload: '' re no_backup_text)
     \<or> (\<exists>re rs. e = errors_join (wrapf ''reload: '' re []) (wrapf ''restore: '' rs []))"

lemma install_live_cases:
  assumes "install_live E p new opts w = (r, w')"
  obtains (ok) "r = Inr ()" "contents w' p = Some new"
      "commands w' = commands w @ [(frr_reload_cmd (opt_frrReloadScript opts) (opt_frrReloadTimeout opts) p, fs w', True)]"
  | (old) e where "r = Inl e" "contents w' p = contents w p" "commands w' = commands w"
  | (reverted) e s1 s2 ok where "r = Inl e" "contents w' p = contents w p" "map_option bytes (s2 p) = contents w p"
      "commands w' = commands w @ [(frr_reload_cmd (opt_frrReloadScript opts) (opt_frrReloadTimeout opts) p, s1, False),
         (frr_reload_cmd (opt_frrReloadScript opts) (opt_frrReloadTimeout opts) p, s2, ok)]"
  | (kept) e s where "r = Inl e" "new_file_kept e" "contents w' p = Some new"
      "commands w' = commands w @ [(frr_reload_cmd (opt_frrReloadScript opts) (opt_frrReloadTimeout opts) p, s, False)]"
proof -
  obtain rr w1 where rd: "os_read_file E p w = (rr, w1)" by fastforce
  have f1: "fs w1 = fs w" and c1: "commands w1 = commands w"
    using read_effect(1) [OF rd] commands_ops(4) [of E p w] rd by simp_all
  define b where "b = (case rr of
              Inl readErr \<Rightarrow> if errors_is readErr FsErrNotExist then Inr None
                            else Inl (wrapf ''read live for backup: '' readErr [])
            | Inr b \<Rightarrow> Inr (Some b))"
  show thesis
  proof (cases b)
    case (Inl e)
    then have "(r, w') = (Inl e, w1)" using assms rd by (simp add: install_live_def b_def)
    then show thesis using old [of e] f1 c1 by (simp add: contents_def)
  next
    case (Inr backup)
    have bk: "backup = Some c \<Longrightarrow> contents w p = Some c" for c
      using Inr read_effect(2) [of E p w c w1] rd by (auto simp: b_def split: sum.splits if_splits)
    obtain ar w2 where aw: "atomic_write E p new w1 = (ar, w2)" by fastforce
    show thesis
    proof (cases ar)
      case (Inl e)
      then have "r = Inl (wrapf ''write live: '' e [])" "w' = w2"
        using assms rd aw \<open>b = Inr backup\<close> by (simp_all add: install_live_def b_def)
      moreover have "contents w2 p = contents w p" "commands w2 = commands w"
        using aw.put_fail [of E p new w1 e w2] aw Inl f1 commands_atomic_write [OF aw] c1 by (simp_all add: contents_def)
      ultimately show thesis using old by blast
    next
      case (Inr u)
      have new2: "contents w2 p = Some new" using aw Inr by (simp add: aw.put_ok [of E p new w1 u])
      have c2: "commands w2 = commands w" using commands_atomic_write [OF aw] c1 by simp
      obtain fr w3 where fr: "frr_reload E p (opt_frrReloadScript opts) (opt_frrReloadTimeout opts) w2 = (fr, w3)" by fastforce
      note eff = reload_effect [OF fr]
      show thesis
      proof (cases fr)
        case (Inr v)
        then have "r = Inr ()" "w' = w3"
          using assms rd aw \<open>ar = Inr u\<close> fr \<open>b = Inr backup\<close> by (simp_all add: install_live_def b_def)
        then show thesis using ok eff new2 c2 Inr by (simp add: contents_def)
      next
        case (Inl re)
        then have rb: "roll_back E p opts re backup w3 = (r, w')"
          using assms rd aw \<open>ar = Inr u\<close> fr \<open>b = Inr backup\<close> by (simp add: install_live_def b_def)
        have new3: "contents w3 p = Some new" using new2 eff(1) by (simp add: contents_def)
        have c3: "commands w3 = commands w @ [(frr_reload_cmd (opt_frrReloadScript opts) (opt_frrReloadTimeout opts) p, fs w2, False)]"
          using eff(2) c2 Inl by simp
        from rb show thesis
        proof (cases rule: roll_back_cases)
          case none
          then show thesis using kept [of _ "fs w2"] new3 c3 by (auto simp: new_file_kept_def)
        next
          case (stuck old e)
          then show thesis using kept [of _ "fs w2"] new3 c3 by (auto simp: new_file_kept_def)
        next
          case (restored c e s ok)
          then show thesis using reverted [of e s "fs w2" ok] bk c3 by simp
        qed
      qed
    qed
  qed
qed

lemma check_passed:
  assumes "frr_syntax_check E p w = (Inr u, w')"
  shows "outcome E (calls w' - 1) (vtysh_check p) = None"
  using assms
  by (auto simp: frr_syntax_check_def os_exec_def Let_def split: option.splits)

text \<open>The run up to the syntax check, and past it.\<close>

lemma apply_frr_cases:
  assumes "apply_frr_config_opts E p new opts w = (r, w')" "\<not> opt_skipReload opts"
  obtains (early) e where "r = Inl e" "contents w' p = contents w p" "commands w' = commands w"
  | (rejected) e st s where "r = Inl e" "contents w' p = contents w p" "map_option bytes (s st) = Some new"
      "commands w' = commands w @ [(vtysh_check st, s, False)]"
  | (checked) w3 w5 st where "install_live E p new opts w3 = (r, w5)" "contents w3 p = contents w p"
      "contents w' p = contents w5 p" "contents w3 st = Some new"
      "commands w3 = commands w @ [(vtysh_check st, fs w3, True)]" "commands w' = commands w5"
      "outcome E (calls w3 - 1) (vtysh_check st) = None"
proof -
  obtain cr w1 where ct: "create_temp E (p @ ''.staging.'') [] w = (cr, w1)" by fastforce
  have c1: "commands w1 = commands w" using commands_ops(5) ct by (metis snd_conv)
  show thesis
  proof (cases cr)
    case (Inl e)
    then have "w' = tick (fs w) w" "r = Inl (wrapf ''create staging temp: '' e [])"
      using assms ct create_temp_Inl by (auto simp: apply_frr_config_opts_def)
    then show thesis using early by (simp add: contents_def)
  next
    case (Inr st)
    note ct' = ct [unfolded Inr]
    have ne: "st \<noteq> p" using create_temp_Inr(2) [OF ct'] by auto
    obtain q w5 where q: "check_staged E p st new opts w1 = (q, w5)" by fastforce
    have w': "r = q" "w' = snd (os_remove E st w5)"
      using assms ct Inr q by (simp_all add: apply_frr_config_opts_def)
    have fin: "contents w' p = contents w5 p" "commands w' = commands w5"
      using remove_other [OF ne] commands_ops(2) by (simp_all add: w' contents_def)
    have q1: "quiet st w w1" using create_temp_quiet [OF ct'] .
    obtain wr w2 where wr: "os_write E st new w1 = (wr, w2)" by fastforce
    obtain cl w3 where cl: "os_close E st w2 = (cl, w3)" by fastforce
    have q2: "quiet st w w2" and q3: "quiet st w w3"
      using quiet_ops(1) [OF q1, of E new] quiet_ops(3) [of st w w2 E st] wr cl by simp_all
    have quiet_end: "contents x p = contents w p" "commands x = commands w" if "quiet st w x" for x
      using that ne by (simp_all add: quiet_def intact_def contents_def)
    show thesis
    proof (cases "\<exists>u v. wr = Inr u \<and> cl = Inr v")
      case False
      then have "\<exists>e. q = Inl e" "w5 = snd (os_close E st w2) \<or> w5 = w3"
        using q wr cl by (auto simp: check_staged_def split: sum.splits)
      then show thesis
        using early w'(1) fin quiet_end(1) [of w5] quiet_end(2) [of w5] quiet_ops(3) [OF q2, of E st] q3 by auto
    next
      case True
      then obtain u v where uv: "wr = Inr u" "cl = Inr v" by blast
      have st: "contents w3 st = Some new"
        using staged_contents(1) [OF ct'] wr cl uv by simp
      obtain sc w4 where sc: "frr_syntax_check E st w3 = (sc, w4)" by fastforce
      note eff = hook_effect [OF sc]
      show thesis
      proof (cases sc)
        case (Inl e)
        then have "q = Inl (wrapf ''syntax check: '' e [])" "w5 = w4"
          using q wr cl uv sc by (simp_all add: check_staged_def)
        then show thesis
          using rejected [of _ "fs w3" st] w'(1) fin eff Inl st quiet_end(1,2) [OF q3] by (simp add: contents_def)
      next
        case (Inr x)
        then have "install_live E p new opts w4 = (r, w5)"
          using q wr cl uv sc w'(1) by (simp add: check_staged_def)
        then show thesis
          using checked [of w4 w5 st] fin eff Inr st quiet_end(1,2) [OF q3] check_passed [OF sc [unfolded Inr]]
          by (simp add: contents_def)
      qed
    qed
  qed
qed

text \<open>Commands are only ever added.\<close>

definition grows :: "world \<Rightarrow> world \<Rightarrow> bool" where
  "grows w w' \<longleftrightarrow> (\<exists>cs. commands w' = commands w @ cs)"

lemma grows_refl: "grows w w"
  by (simp add: grows_def)

lemma grows_trans: "grows w w' \<Longrightarrow> grows w' w'' \<Longrightarrow> grows w w''"
  by (auto simp: grows_def)

lemma grows_same: "commands w' = commands w \<Longrightarrow> grows w w'"
  by (simp add: grows_def)

lemma grows_reload: "grows w (snd (frr_reload E p s t w))"
  using reload_effect(2) [of E p s t w] by (metis grows_def prod.collapse)

lemma grows_roll_back: "grows w (snd (roll_back E p opts e b w))"
proof (cases b)
  case (Some old)
  obtain a w1 where aw: "atomic_write E p old w = (a, w1)" by fastforce
  note g = grows_same [OF commands_atomic_write [OF aw]]
  show ?thesis
    using aw g grows_trans [OF g grows_reload]
    by (auto simp: roll_back_def Some split: sum.split prod.split) (metis snd_conv)+
qed (simp add: roll_back_def grows_refl)

lemma grows_install: "grows w (snd (install_live E p new opts w))"
proof -
  obtain rr w1 where rd: "os_read_file E p w = (rr, w1)" by fastforce
  obtain a w2 where aw: "atomic_write E p new w1 = (a, w2)" by fastforce
  obtain fr w3 where fr: "frr_reload E p (opt_frrReloadScript opts) (opt_frrReloadTimeout opts) w2 = (fr, w3)" by fastforce
  have g1: "grows w w1" using commands_ops(4) [of E p w] rd by (simp add: grows_same)
  have g2: "grows w w2" using g1 commands_atomic_write [OF aw] by (simp add: grows_def)
  have g3: "grows w w3" using grows_trans [OF g2 grows_reload [of w2 E p "opt_frrReloadScript opts" "opt_frrReloadTimeout opts"]] fr by simp
  show ?thesis
    using rd aw fr g1 g2 g3 grows_trans [OF g3 grows_roll_back]
    by (auto simp: install_live_def split: sum.split)
qed

lemma grows_apply:
  assumes "apply_frr_config_opts E p new opts w = (r, w')"
  shows "grows w w'"
proof (cases "opt_skipReload opts")
  case True
  then show ?thesis using assms by (simp add: apply_frr_config_opts_def grows_same commands_atomic_write)
next
  case False
  from assms False show ?thesis
  proof (cases rule: apply_frr_cases)
    case (checked w3 w5 st)
    then have "grows w w3" "grows w3 w5" "grows w5 w'"
      using grows_install [of w3 E p new opts] by (simp_all add: grows_def)
    then show ?thesis using grows_trans by blast
  qed (auto simp: grows_def)
qed

lemma apply_frr_done:
  assumes "apply_frr_config_opts E live new opts w = (Inr u, w')"
  shows "contents w' live = Some new \<and> (opt_skipReload opts \<or>
    (\<exists>st s1 s2. commands w' = commands w @
        [(vtysh_check st, s1, True), (frr_reload_cmd (opt_frrReloadScript opts) (opt_frrReloadTimeout opts) live, s2, True)]
      \<and> map_option bytes (s1 st) = Some new \<and> map_option bytes (s2 live) = Some new))"
proof (cases "opt_skipReload opts")
  case True
  then show ?thesis using assms aw.put_ok [of E live new w u w'] by (simp add: apply_frr_config_opts_def)
next
  case False
  from assms False show ?thesis
  proof (cases rule: apply_frr_cases)
    case (checked w3 w5 st)
    from checked(1) show ?thesis
    proof (cases rule: install_live_cases)
      case ok
      then show ?thesis using checked by (auto simp: contents_def)
    qed simp_all
  qed simp_all
qed

section \<open>Properties\<close>

theorem apply_frr_success:
  assumes "apply_frr_config_opts E live new opts w = (Inr u, w')"
  shows "contents w' live = Some new \<and> (opt_skipReload opts \<or>
    (\<exists>st s1 s2. commands w' = commands w @
        [(vtysh_check st, s1, True), (frr_reload_cmd (opt_frrReloadScript opts) (opt_frrReloadTimeout opts) live, s2, True)]
      \<and> map_option bytes (s1 st) = Some new \<and> map_option bytes (s2 live) = Some new))"
  using assms by (rule apply_frr_done)


text \<open>C22: If vtysh -C rejects the candidate, the call fails, the live file is unchanged and no command
  other than the failed check ran, so nothing is reloaded.\<close>

theorem apply_frr_rejected:
  assumes "\<And>n p. outcome E n (vtysh_check p) \<noteq> None" "\<not> opt_skipReload opts"
  shows "\<exists>e w' cs. apply_frr_config_opts E live new opts w = (Inl e, w')
    \<and> contents w' live = contents w live \<and> commands w' = commands w @ cs
    \<and> list_all (\<lambda>(c, s, ok). program c = ''/usr/bin/vtysh'' \<and> \<not> ok) cs"
proof -
  obtain r w' where rw: "apply_frr_config_opts E live new opts w = (r, w')" by fastforce
  from rw assms(2) show ?thesis
  proof (cases rule: apply_frr_cases)
    case (early e)
    then show ?thesis using rw by auto
  next
    case (rejected e st s)
    then show ?thesis using rw by (auto simp: vtysh_check_def)
  next
    case (checked w3 w5 st)
    then show ?thesis using assms(1) by blast
  qed
qed

section \<open>Without failing system calls\<close>

text \<open>
  The names \<open>os.CreateTemp\<close> draws first are free and, being decimal numbers, have no dot.
\<close>

definition names_free :: "os_env \<Rightarrow> path \<Rightarrow> file_system \<Rightarrow> bool" where
  "names_free E p s \<longleftrightarrow> (\<forall>n. CHR ''.'' \<notin> set (random_name E n 0)
     \<and> s (p @ ''.'' @ random_name E n 0) = None \<and> s (p @ ''.staging.'' @ random_name E n 0) = None)"

lemma names_freeD:
  assumes "names_free E p s" "st = p @ ''.staging.'' @ random_name E m 0"
  shows "s (p @ ''.'' @ random_name E n 0) = None" "s st = None" "st \<noteq> p @ ''.'' @ random_name E n 0"
    "p @ ''.'' @ random_name E n 0 \<noteq> p"
proof -
  show "s (p @ ''.'' @ random_name E n 0) = None" "s st = None" "p @ ''.'' @ random_name E n 0 \<noteq> p"
    using assms by (simp_all add: names_free_def)
  have "CHR ''.'' \<notin> set (random_name E n 0)" using assms(1) by (simp add: names_free_def)
  moreover have "CHR ''.'' \<in> set (''staging.'' @ random_name E m 0)" by simp
  ultimately have "random_name E n 0 \<noteq> ''staging.'' @ random_name E m 0" by metis
  then show "st \<noteq> p @ ''.'' @ random_name E n 0" using assms(2) by auto
qed

text \<open>Where every file operation succeeds, \<open>atomicWrite\<close> changes its path only.\<close>

lemma atomic_write_calm:
  assumes "\<And>n. fault E n = None" "fs w (p @ ''.'' @ random_name E (calls w) 0) = None"
  obtains w' f where "atomic_write E p d w = (Inr (), w')" "fs w' = (fs w)(p \<mapsto> f)" "bytes f = d"
proof -
  obtain r w' where rw: "atomic_write E p d w = (r, w')" by fastforce
  then have r: "r = Inr ()" using atomic_write_succeeds [OF assms, where data = d] by simp
  show thesis
    using that rw [unfolded r] by (metis atomic_write_Inr [OF rw [unfolded r]] inode.select_convs(1))
qed

lemma install_live_calm:
  assumes "\<And>n. fault E n = None" "names_free E p s" "st = p @ ''.staging.'' @ random_name E m 0"
    "\<And>q. q \<noteq> st \<Longrightarrow> fs w q = s q"
  shows "(\<And>n. outcome E n (frr_reload_cmd (opt_frrReloadScript opts) (opt_frrReloadTimeout opts) p) = None) \<Longrightarrow>
      \<exists>w'. install_live E p new opts w = (Inr (), w')"
    and "(\<And>n. outcome E n (frr_reload_cmd (opt_frrReloadScript opts) (opt_frrReloadTimeout opts) p) \<noteq> None) \<Longrightarrow> contents w p = Some old \<Longrightarrow>
      \<exists>e w'. install_live E p new opts w = (Inl e, w') \<and> contents w' p = Some old"
proof -
  note free = names_freeD [OF assms(2,3)]
  obtain rr w1 where rd: "os_read_file E p w = (rr, w1)" by fastforce
  have f1: "fs w1 = fs w" using read_effect(1) [OF rd] .
  have rr: "rr = (case fs w p of None \<Rightarrow> Inl (errors_new FsErrNotExist) | Some f \<Rightarrow> Inr (bytes f))"
    using rd assms(1) by (auto simp: os_read_file_def os_call_def split: option.splits)
  obtain w2 f where w2: "atomic_write E p new w1 = (Inr (), w2)" "fs w2 = (fs w1)(p \<mapsto> f)"
    using atomic_write_calm [OF assms(1), of w1 p] free f1 assms(4) by metis
  obtain fr w3 where fr: "frr_reload E p (opt_frrReloadScript opts) (opt_frrReloadTimeout opts) w2 = (fr, w3)" by fastforce
  show "\<exists>w'. install_live E p new opts w = (Inr (), w')"
    if ok: "\<And>n. outcome E n (frr_reload_cmd (opt_frrReloadScript opts) (opt_frrReloadTimeout opts) p) = None"
  proof -
    have "fr = Inr ()" using fr ok by (simp add: frr_reload_def os_exec_def)
    then show ?thesis using rd rr w2 fr by (auto simp: install_live_def split: option.splits)
  qed
  show "\<exists>e w'. install_live E p new opts w = (Inl e, w') \<and> contents w' p = Some old"
    if bad: "\<And>n. outcome E n (frr_reload_cmd (opt_frrReloadScript opts) (opt_frrReloadTimeout opts) p) \<noteq> None" and old: "contents w p = Some old"
  proof -
    obtain e where e: "fr = Inl e"
      using fr bad [of "calls w2"] by (auto simp: frr_reload_def os_exec_def Let_def split: option.splits)
    have "fs w3 = (fs w1)(p \<mapsto> f)" using reload_effect(1) [OF fr] w2(2) by simp
    then obtain w4 f' where w4: "atomic_write E p old w3 = (Inr (), w4)" "fs w4 = (fs w3)(p \<mapsto> f')" "bytes f' = old"
      using atomic_write_calm [OF assms(1), of w3 p old] free f1 assms(4)
      by (metis (no_types, lifting) fun_upd_other)
    obtain g w5 where g: "frr_reload E p (opt_frrReloadScript opts) (opt_frrReloadTimeout opts) w4 = (g, w5)" by fastforce
    note reload_effect(1) [OF g]
    then show ?thesis
      using rd rr w2 fr e w4 g old
      by (auto simp: install_live_def roll_back_def contents_def split: sum.split)
  qed
qed

text \<open>The run up to the installation when the candidate passes the check.\<close>

lemma apply_frr_calm:
  assumes "\<And>n. fault E n = None" "names_free E p (fs w)" "\<not> opt_skipReload opts"
    "\<And>n q. outcome E n (vtysh_check q) = None"
  obtains w4 st m where "st = p @ ''.staging.'' @ random_name E m 0" "\<And>q. q \<noteq> st \<Longrightarrow> fs w4 q = fs w q"
    "\<And>r w5. install_live E p new opts w4 = (r, w5) \<Longrightarrow>
        \<exists>w'. apply_frr_config_opts E p new opts w = (r, w') \<and> contents w' p = contents w5 p"
proof -
  let ?st = "p @ ''.staging.'' @ random_name E (calls w) 0"
  note free = names_freeD [OF assms(2) refl]
  have "temp_name E (p @ ''.staging.'') [] w 0 = Some ?st"
    using temp_name_first [of w "p @ ''.staging.''" E "[]"] free(2) by simp
  then obtain w1 where ct: "create_temp E (p @ ''.staging.'') [] w = (Inr ?st, w1)"
    using assms(1) by (simp add: create_temp_def os_call_def)
  obtain w2 where wr: "os_write E ?st new w1 = (Inr (), w2)" using assms(1) by (simp add: os_write_def os_call_def)
  obtain w3 where cl: "os_close E ?st w2 = (Inr (), w3)" using assms(1) by (simp add: os_close_def os_call_def)
  obtain w4 where sc: "frr_syntax_check E ?st w3 = (Inr (), w4)"
    using assms(4) by (simp add: frr_syntax_check_def os_exec_def)
  have "quiet ?st w w3"
    using create_temp_quiet [OF ct] wr cl quiet_ops(1,3) by (metis snd_conv)
  then have same: "q \<noteq> ?st \<Longrightarrow> fs w4 q = fs w q" for q
    using hook_effect(1) [OF sc] by (simp add: quiet_def intact_def)
  have "\<exists>w'. apply_frr_config_opts E p new opts w = (r, w') \<and> contents w' p = contents w5 p"
    if "install_live E p new opts w4 = (r, w5)" for r w5
    using that assms(3) ct wr cl sc remove_other [of ?st p E w5]
    by (simp add: apply_frr_config_opts_def check_staged_def contents_def)
  then show thesis using that same by blast
qed

lemma apply_frr_ok:
  assumes "\<And>n. fault E n = None" "names_free E live (fs w)" "\<not> opt_skipReload opts"
    "\<And>n q. outcome E n (vtysh_check q) = None"
    "\<And>n. outcome E n (frr_reload_cmd (opt_frrReloadScript opts) (opt_frrReloadTimeout opts) live) = None"
  shows "\<exists>w'. apply_frr_config_opts E live new opts w = (Inr (), w')"
proof -
  obtain w4 st m where s: "st = live @ ''.staging.'' @ random_name E m 0" "\<And>q. q \<noteq> st \<Longrightarrow> fs w4 q = fs w q"
    "\<And>r w5. install_live E live new opts w4 = (r, w5) \<Longrightarrow>
        \<exists>w'. apply_frr_config_opts E live new opts w = (r, w') \<and> contents w' live = contents w5 live"
    by (rule apply_frr_calm [OF assms(1-4), where new = new]) (rule that)
  obtain w5 where "install_live E live new opts w4 = (Inr (), w5)"
    using install_live_calm(1) [OF assms(1,2) s(1,2) assms(5)] by blast
  then show ?thesis using s(3) by blast
qed

lemma apply_frr_back:
  assumes "\<And>n. fault E n = None" "names_free E live (fs w)" "\<not> opt_skipReload opts"
    "\<And>n q. outcome E n (vtysh_check q) = None"
    "\<And>n. outcome E n (frr_reload_cmd (opt_frrReloadScript opts) (opt_frrReloadTimeout opts) live) \<noteq> None" "contents w live = Some old"
  shows "\<exists>e w'. apply_frr_config_opts E live new opts w = (Inl e, w') \<and> contents w' live = Some old"
proof -
  obtain w4 st m where s: "st = live @ ''.staging.'' @ random_name E m 0" "\<And>q. q \<noteq> st \<Longrightarrow> fs w4 q = fs w q"
    "\<And>r w5. install_live E live new opts w4 = (r, w5) \<Longrightarrow>
        \<exists>w'. apply_frr_config_opts E live new opts w = (r, w') \<and> contents w' live = contents w5 live"
    by (rule apply_frr_calm [OF assms(1-4), where new = new]) (rule that)
  have "contents w4 live = Some old" using s(1,2) assms(6) by (simp add: contents_def)
  then obtain e w5 where "install_live E live new opts w4 = (Inl e, w5)" "contents w5 live = Some old"
    using install_live_calm(2) [OF assms(1,2) s(1,2) assms(5)] by blast
  then show ?thesis using s(3) by metis
qed

theorem apply_frr_restores:
  assumes "\<And>n. fault E n = None" "names_free E live (fs w)" "\<not> opt_skipReload opts"
    "\<And>n q. outcome E n (vtysh_check q) = None"
    "\<And>n. outcome E n (frr_reload_cmd (opt_frrReloadScript opts) (opt_frrReloadTimeout opts) live) \<noteq> None" "contents w live = Some old"
  shows "\<exists>e w'. apply_frr_config_opts E live new opts w = (Inl e, w') \<and> contents w' live = Some old"
  using assms by (rule apply_frr_back)

section \<open>Concrete runs\<close>

abbreviation live_opts :: applyOpts where
  "live_opts \<equiv> \<lparr>opt_frrReloadScript = ''reload'', opt_frrReloadTimeout = 5, opt_skipReload = False\<rparr>"

text \<open>The command whose program is \<open>p\<close> fails, every other one succeeds.\<close>

abbreviation failing :: "string \<Rightarrow> os_env" where
  "failing p \<equiv> calm\<lparr>outcome := \<lambda>_ c. if program c = p then Some (GoErr [] ''exit 1'') else None\<rparr>"

lemma apply_frr_success_witness:
  "\<exists>w'. apply_frr_config_opts calm ''f'' ''new'' live_opts (start_world old_file) = (Inr (), w')
     \<and> contents w' ''f'' = Some ''new''"
proof -
  obtain w' where "apply_frr_config_opts calm ''f'' ''new'' live_opts (start_world old_file) = (Inr (), w')"
    using apply_frr_ok [of calm "''f''" "start_world old_file" live_opts "''new''"] by (auto simp: names_free_def)
  then show ?thesis using apply_frr_success [of calm "''f''" "''new''" live_opts "start_world old_file" "()" w'] by simp
qed

lemma apply_frr_restores_witness:
  "\<exists>e w'. apply_frr_config_opts (failing ''reload'') ''f'' ''new'' live_opts (start_world old_file) = (Inl e, w')
     \<and> contents w' ''f'' = Some ''old''"
  by (rule apply_frr_restores) (simp_all add: vtysh_check_def frr_reload_cmd_def contents_def names_free_def)


lemma apply_frr_rejected_witness:
  "\<exists>e w' cs. apply_frr_config_opts (failing ''/usr/bin/vtysh'') ''f'' ''new'' live_opts (start_world old_file) = (Inl e, w')
    \<and> contents w' ''f'' = Some ''old'' \<and> commands w' = cs
    \<and> list_all (\<lambda>(c, s, ok). program c = ''/usr/bin/vtysh'' \<and> \<not> ok) cs"
  using apply_frr_rejected [of "failing ''/usr/bin/vtysh''" live_opts "''f''" "''new''" "start_world old_file"]
  by (simp add: vtysh_check_def contents_def)

end
