(* ===== verification/Json.thy ===== *)
theory Json
  imports Go_Prelude
begin

text \<open>
  \<open>encoding/json\<close> of the standard library as far as the program uses it: the syntax of a value, the
  strings with their escapes and with invalid UTF-8 replaced, the limit on nesting, and the compact
  text the encoder writes. A decoder stops after the first value, so what follows it is kept as the
  rest. The results: whatever a string literal decodes to is valid UTF-8, and a printed value is read
  back.
\<close>

section \<open>UTF-8\<close>

abbreviation byte :: "char \<Rightarrow> nat" where "byte c \<equiv> of_char c"

definition byte_in :: "nat \<Rightarrow> nat \<Rightarrow> string \<Rightarrow> nat \<Rightarrow> bool" where
  "byte_in lo hi s i = (i < length s \<and> lo \<le> byte (s ! i) \<and> byte (s ! i) \<le> hi)"

text \<open>\<open>utf8.DecodeRune\<close>: the length of the rune the text starts with, zero if its encoding is invalid.\<close>

definition rune_len :: "string \<Rightarrow> nat" where
  "rune_len s =
     (if s = [] then 0
      else let b = byte (hd s) in
        if b < 0x80 then 1
        else if 0xC2 \<le> b \<and> b \<le> 0xDF then (if byte_in 0x80 0xBF s 1 then 2 else 0)
        else if 0xE0 \<le> b \<and> b \<le> 0xEF then
          (if byte_in (if b = 0xE0 then 0xA0 else 0x80) (if b = 0xED then 0x9F else 0xBF) s 1
              \<and> byte_in 0x80 0xBF s 2 then 3 else 0)
        else if 0xF0 \<le> b \<and> b \<le> 0xF4 then
          (if byte_in (if b = 0xF0 then 0x90 else 0x80) (if b = 0xF4 then 0x8F else 0xBF) s 1
              \<and> byte_in 0x80 0xBF s 2 \<and> byte_in 0x80 0xBF s 3 then 4 else 0)
        else 0)"

definition rune_bytes :: "nat \<Rightarrow> string" where
  "rune_bytes n =
     (if n < 0x80 then [char_of n]
      else if n < 0x800 then [char_of (0xC0 + n div 64), char_of (0x80 + n mod 64)]
      else if n < 0x10000 then
        [char_of (0xE0 + n div 4096), char_of (0x80 + n div 64 mod 64), char_of (0x80 + n mod 64)]
      else [char_of (0xF0 + n div 262144), char_of (0x80 + n div 4096 mod 64),
            char_of (0x80 + n div 64 mod 64), char_of (0x80 + n mod 64)])"

lemma rune_len_Nil [simp]: "rune_len [] = 0" by (simp add: rune_len_def)

lemma drop_rune_length: "0 < rune_len s \<Longrightarrow> length (drop (rune_len s) s) < length s"
  by (cases s) simp_all

text \<open>\<open>U+FFFD\<close>, which replaces what is invalid.\<close>

definition replacement :: string where "replacement = [CHR 0xEF, CHR 0xBF, CHR 0xBD]"

function utf8_valid :: "string \<Rightarrow> bool" where
  "utf8_valid s = (if rune_len s = 0 then s = [] else utf8_valid (drop (rune_len s) s))"
  by pat_completeness auto
termination by (relation "measure length") (auto dest: drop_rune_length)

declare utf8_valid.simps [simp del]

section \<open>String literals\<close>

fun hex4 :: "string \<Rightarrow> (nat \<times> string) option" where
  "hex4 (a # b # c # d # s) =
     (case (hex_val a, hex_val b, hex_val c, hex_val d) of
        (Some a, Some b, Some c, Some d) \<Rightarrow> Some (((a * 16 + b) * 16 + c) * 16 + d, s)
      | _ \<Rightarrow> None)"
| "hex4 s = None"

definition surrogate :: "nat \<Rightarrow> bool" where "surrogate n = (0xD800 \<le> n \<and> n < 0xE000)"

text \<open>A second \<open>\u\<close> escape that completes a surrogate pair: the rune (\<open>utf16.DecodeRune\<close>) and the rest.\<close>

definition low_half :: "nat \<Rightarrow> string \<Rightarrow> (nat \<times> string) option" where
  "low_half high s =
     (if has_prefix s [CHR 0x5C, CHR ''u''] then
        (case hex4 (drop 2 s) of
           None \<Rightarrow> None
         | Some (low, r) \<Rightarrow>
             if high < 0xDC00 \<and> 0xDC00 \<le> low \<and> low < 0xE000
             then Some ((high - 0xD800) * 0x400 + (low - 0xDC00) + 0x10000, r) else None)
      else None)"

definition simple_escape :: "char \<Rightarrow> char option" where
  "simple_escape e =
     (if e = CHR 0x22 \<or> e = CHR 0x5C \<or> e = CHR ''/'' then Some e
      else if e = CHR ''b'' then Some (CHR 8) else if e = CHR ''f'' then Some (CHR 12)
      else if e = CHR ''n'' then Some (CHR 10) else if e = CHR ''r'' then Some (CHR 13)
      else if e = CHR ''t'' then Some (CHR 9) else None)"

text \<open>The next piece of a literal, decoded, and the rest; control characters are not allowed.\<close>

definition string_piece :: "string \<Rightarrow> (string \<times> string) option" where
  "string_piece s =
     (case s of
        [] \<Rightarrow> None
      | c # t \<Rightarrow>
          if c = CHR 0x5C then
            (case t of
               [] \<Rightarrow> None
             | e # r \<Rightarrow>
                 if e = CHR ''u'' then
                   (case hex4 r of
                      None \<Rightarrow> None
                    | Some (u, r) \<Rightarrow>
                        if surrogate u then
                          (case low_half u r of
                             None \<Rightarrow> Some (replacement, r)
                           | Some (n, r) \<Rightarrow> Some (rune_bytes n, r))
                        else Some (rune_bytes u, r))
                 else map_option (\<lambda>d. ([d], r)) (simple_escape e))
          else if byte c < 32 then None
          else if rune_len s = 0 then Some (replacement, t)
          else Some (take (rune_len s) s, drop (rune_len s) s))"

lemma hex4_length: "hex4 s = Some (n, r) \<Longrightarrow> length r < length s \<and> n < 65536"
proof (induction s rule: hex4.induct)
  case (1 a b c d s)
  then show ?case by (auto split: option.splits dest!: hex_val_bound)
qed auto

lemma low_half_length: "low_half h s = Some (n, r) \<Longrightarrow> length r < length s"
  by (auto simp: low_half_def split: if_splits option.splits dest!: hex4_length)

lemma string_piece_length: "string_piece s = Some (t, r) \<Longrightarrow> length r < length s"
  by (auto simp: string_piece_def split: list.splits if_splits option.splits dest!: hex4_length low_half_length)

text \<open>A literal after its opening quote.\<close>

function json_string :: "string \<Rightarrow> (string \<times> string) option" where
  "json_string s =
     (if s \<noteq> [] \<and> hd s = CHR 0x22 then Some ([], tl s)
      else case string_piece s of
        None \<Rightarrow> None
      | Some (t, r) \<Rightarrow> map_option (\<lambda>(u, r). (t @ u, r)) (json_string r))"
  by pat_completeness auto
termination by (relation "measure length") (auto dest: string_piece_length)

declare json_string.simps [simp del]

lemma json_string_length: "json_string s = Some (t, r) \<Longrightarrow> length r < length s"
proof (induction s arbitrary: t rule: json_string.induct)
  case (1 s)
  show ?case
    using "1.prems" "1.IH" by (fastforce simp: json_string.simps [of s] split: if_splits option.splits dest: string_piece_length)
qed

section \<open>Values\<close>

text \<open>Numbers keep their text only; the program has no field that takes one.\<close>

datatype json =
    JNull
  | JBool bool
  | JNum string
  | JStr string
  | JArr "json list"
  | JObj "(string \<times> json) list"

definition skip_ws :: "string \<Rightarrow> string" where
  "skip_ws = dropWhile (\<lambda>c. c = CHR '' '' \<or> c = CHR 9 \<or> c = CHR 13 \<or> c = CHR 10)"

definition digits_rest :: "string \<Rightarrow> string option" where
  "digits_rest s = (if s = [] \<or> \<not> is_digit (hd s) then None else Some (dropWhile is_digit s))"

definition frac_rest :: "string \<Rightarrow> string option" where
  "frac_rest s = (if has_prefix s ''.'' then digits_rest (tl s) else Some s)"

definition exp_rest :: "string \<Rightarrow> string option" where
  "exp_rest s =
     (if has_prefix s ''e'' \<or> has_prefix s ''E'' then
        (if has_prefix (tl s) ''+'' \<or> has_prefix (tl s) ''-'' then digits_rest (tl (tl s)) else digits_rest (tl s))
      else Some s)"

text \<open>What follows a number: no leading zeros, a fraction and an exponent with at least a digit.\<close>

definition number_rest :: "string \<Rightarrow> string option" where
  "number_rest s =
     (let s = (if has_prefix s ''-'' then tl s else s) in
      case (if has_prefix s ''0'' then Some (tl s) else digits_rest s) of
        None \<Rightarrow> None
      | Some s \<Rightarrow> (case frac_rest s of None \<Rightarrow> None | Some s \<Rightarrow> exp_rest s))"

lemma skip_ws_length: "length (skip_ws s) \<le> length s"
  unfolding skip_ws_def by (rule length_dropWhile_le)

lemma skip_ws_Cons: "skip_ws s = c # r \<Longrightarrow> length r < length s"
  using skip_ws_length [of s] by simp

lemma has_prefix_one: "has_prefix s [c] \<longleftrightarrow> s \<noteq> [] \<and> hd s = c"
  by (cases s) (auto simp: has_prefix_def)

lemma member_value_length:
  assumes "has_prefix (skip_ws s) [CHR 0x22]" "json_string (tl (skip_ws s)) = Some (k, r)" "has_prefix (skip_ws r) '':''"
  shows "length (tl (skip_ws r)) < length s"
  using assms json_string_length [OF assms(2)] skip_ws_length [of s] skip_ws_length [of r]
  by (cases "skip_ws s"; cases "skip_ws r") (auto simp: has_prefix_one)

text \<open>
  A value, the elements of an array after its bracket, the members of an object after its brace; \<open>d\<close> is
  the number of arrays and objects that may still be opened. The rest of a value is never longer
  than its text, so the two tests of lengths always hold; they are there for the recursion.
\<close>

function (sequential) json_value :: "nat \<Rightarrow> string \<Rightarrow> (json \<times> string) option"
  and json_elems :: "nat \<Rightarrow> string \<Rightarrow> (json list \<times> string) option"
  and json_members :: "nat \<Rightarrow> string \<Rightarrow> ((string \<times> json) list \<times> string) option" where
  "json_value d s0 =
     (case skip_ws s0 of
        [] \<Rightarrow> None
      | c # s \<Rightarrow>
          if c = CHR ''{'' then
            (if d = 0 then None
             else if has_prefix (skip_ws s) ''}'' then Some (JObj [], tl (skip_ws s))
             else map_option (\<lambda>(ms, r). (JObj ms, r)) (json_members (d - 1) s))
          else if c = CHR ''['' then
            (if d = 0 then None
             else if has_prefix (skip_ws s) '']'' then Some (JArr [], tl (skip_ws s))
             else map_option (\<lambda>(vs, r). (JArr vs, r)) (json_elems (d - 1) s))
          else if c = CHR 0x22 then map_option (\<lambda>(t, r). (JStr t, r)) (json_string s)
          else if has_prefix (c # s) ''null'' then Some (JNull, drop 3 s)
          else if has_prefix (c # s) ''true'' then Some (JBool True, drop 3 s)
          else if has_prefix (c # s) ''false'' then Some (JBool False, drop 4 s)
          else map_option (\<lambda>r. (JNum (take (length (c # s) - length r) (c # s)), r)) (number_rest (c # s)))"
| "json_elems d s =
     (case json_value d s of
        None \<Rightarrow> None
      | Some (v, r) \<Rightarrow>
          (case skip_ws r of
             [] \<Rightarrow> None
           | c # r \<Rightarrow>
               if c = CHR '']'' then Some ([v], r)
               else if c = CHR '','' \<and> length r < length s
               then map_option (\<lambda>(vs, r). (v # vs, r)) (json_elems d r)
               else None))"
| "json_members d s =
     (if \<not> has_prefix (skip_ws s) [CHR 0x22] then None
      else case json_string (tl (skip_ws s)) of
        None \<Rightarrow> None
      | Some (k, r) \<Rightarrow>
          if \<not> has_prefix (skip_ws r) '':'' then None
          else case json_value d (tl (skip_ws r)) of
            None \<Rightarrow> None
          | Some (v, r) \<Rightarrow>
              (case skip_ws r of
                 [] \<Rightarrow> None
               | c # r \<Rightarrow>
                   if c = CHR ''}'' then Some ([(k, v)], r)
                   else if c = CHR '','' \<and> length r < length s
                   then map_option (\<lambda>(ms, r). ((k, v) # ms, r)) (json_members d r)
                   else None))"
  by pat_completeness auto

termination
proof (relation "measure (case_sum (\<lambda>(d, s). 2 * length s) (case_sum (\<lambda>(d, s). 2 * length s + 1) (\<lambda>(d, s). 2 * length s + 1)))",
    goal_cases)
  case 1
  then show ?case by simp
qed (auto dest!: skip_ws_Cons member_value_length)

declare json_value.simps [simp del] json_elems.simps [simp del] json_members.simps [simp del]

text \<open>The rest of a value is shorter than its text.\<close>

lemma digits_rest_length: "digits_rest s = Some r \<Longrightarrow> length r \<le> length s"
  by (auto simp: digits_rest_def length_dropWhile_le split: if_splits)

lemma number_rest_length:
  assumes "number_rest s = Some r"
  shows "length r < length s"
proof -
  have d: "length y < length x" if "digits_rest x = Some y" for x y
    using that by (cases x) (auto simp: digits_rest_def less_Suc_eq_le length_dropWhile_le split: if_splits)
  have f: "length y \<le> length x" if "frac_rest x = Some y" for x y
    using that digits_rest_length [of "tl x" y] by (auto simp: frac_rest_def split: if_splits)
  have e: "length y \<le> length x" if "exp_rest x = Some y" for x y
    using that digits_rest_length [of "tl x" y] digits_rest_length [of "tl (tl x)" y]
    by (auto simp: exp_rest_def split: if_splits)
  have z: "length (tl x) < length x" if "has_prefix x ''0''" for x using that by (cases x) (auto simp: has_prefix_def)
  define x where x: "x = (if has_prefix s ''-'' then tl s else s)"
  obtain y where y: "(if has_prefix x ''0'' then Some (tl x) else digits_rest x) = Some y"
      and r: "\<exists>z. frac_rest y = Some z \<and> exp_rest z = Some r"
    using assms by (simp only: number_rest_def Let_def x [symmetric] split: option.splits) auto
  have y: "length y < length x" using y d [of x y] z [of x] by (cases "has_prefix x ''0''") auto
  have "length x \<le> length s" by (simp add: x)
  then show ?thesis using y r f e by fastforce
qed

lemma json_rest_shorter:
  "json_value d s = Some (v, r) \<Longrightarrow> length r < length s"
  "json_elems d s = Some (vs, r) \<Longrightarrow> length r < length s"
  "json_members d s = Some (ms, r) \<Longrightarrow> length r < length s"
proof (induction d s and d s and d s arbitrary: v r and vs r and ms r
    rule: json_value_json_elems_json_members.induct)
  case (1 d s0)
  show ?case
  proof (cases "skip_ws s0")
    case (Cons c s)
    have l: "length s < length s0" using skip_ws_Cons [OF Cons] .
    show ?thesis
      using "1.prems" "1.IH" [OF Cons] l skip_ws_length [of s] json_string_length [of s] number_rest_length [of "c # s"]
      by (fastforce simp: json_value.simps [of _ s0] Cons split: if_splits)
  qed (use "1.prems" in \<open>simp add: json_value.simps [of _ s0]\<close>)
next
  case (2 d s)
  then show ?case
    by (fastforce simp: json_elems.simps [of _ s] split: option.splits list.splits if_splits dest: skip_ws_Cons)
next
  case (3 d s)
  show ?case
    using "3.prems" "3.IH" member_value_length [of s]
    by (fastforce simp: json_members.simps [of _ s] split: option.splits list.splits if_splits dest: skip_ws_Cons)
qed

section \<open>One rune\<close>

text \<open>A text that is exactly one validly encoded rune.\<close>

definition one_rune :: "string \<Rightarrow> bool" where "one_rune p \<longleftrightarrow> 0 < rune_len p \<and> rune_len p = length p"

lemma rune_len_values: "rune_len s \<in> {0, 1, 2, 3, 4}"
  by (simp add: rune_len_def Let_def)

lemma byte_in_less: "byte_in lo hi s i \<Longrightarrow> i < length s"
  by (simp add: byte_in_def)

lemma rune_len_le: "rune_len s \<le> length s"
proof (cases "s = []")
  case False
  then have "1 \<le> length s" by (simp add: Suc_le_eq)
  then show ?thesis unfolding rune_len_def Let_def by (auto dest!: byte_in_less)
qed simp

lemma rune_len_one: "s \<noteq> [] \<Longrightarrow> rune_len s = 1 \<longleftrightarrow> byte (hd s) < 0x80"
  by (simp add: rune_len_def Let_def)

lemma rune_len_cases:
  obtains "rune_len s = 0"
  | c t where "s = c # t" "rune_len s = 1" "byte c < 0x80"
  | c d t where "s = c # d # t" "rune_len s = 2" "0x80 \<le> byte c"
  | c d e t where "s = c # d # e # t" "rune_len s = 3" "0x80 \<le> byte c"
  | c d e f t where "s = c # d # e # f # t" "rune_len s = 4" "0x80 \<le> byte c"
proof (cases "rune_len s = 0")
  case False
  then have ne: "s \<noteq> []" by auto
  note l = rune_len_le [of s] rune_len_values [of s] rune_len_one [OF ne]
  obtain c t where s: "s = c # t" using ne by (cases s) auto
  consider "rune_len s = 1" | "rune_len s = 2" | "rune_len s = 3" | "rune_len s = 4" using l(2) False by auto
  then show ?thesis
  proof cases
    case 1
    then show ?thesis using that(2) [OF s] l(3) s by simp
  next
    case 2
    then obtain d t' where "t = d # t'" using l(1) s by (cases t) auto
    then show ?thesis using that(3) [of c d t'] 2 l(3) s by simp
  next
    case 3
    then obtain d e t' where "t = d # e # t'" using l(1) s by (cases t; cases "tl t") auto
    then show ?thesis using that(4) [of c d e t'] 3 l(3) s by simp
  next
    case 4
    then obtain d e f t' where "t = d # e # f # t'" using l(1) s by (cases t; cases "tl t"; cases "tl (tl t)") auto
    then show ?thesis using that(5) [of c d e f t'] 4 l(3) s by simp
  qed
qed (use that(1) in simp)

lemma rune_len_take: "0 < rune_len s \<Longrightarrow> rune_len (take (rune_len s) s @ x) = rune_len s"
proof (cases s rule: rune_len_cases)
  case (2 c t)
  then show ?thesis by (simp add: rune_len_def)
next
  case (3 c d t)
  then show ?thesis by (simp add: rune_len_def byte_in_def Let_def split: if_splits)
next
  case (4 c d e t)
  then show ?thesis by (simp add: rune_len_def byte_in_def Let_def nth_Cons' split: if_splits)
next
  case (5 c d e f t)
  then show ?thesis by (simp add: rune_len_def byte_in_def Let_def nth_Cons' split: if_splits)
qed simp

lemma one_rune_take: "0 < rune_len s \<Longrightarrow> one_rune (take (rune_len s) s)"
  using rune_len_take [of s "[]"] by (cases s rule: rune_len_cases) (auto simp: one_rune_def)

lemma one_rune_append: "one_rune p \<Longrightarrow> rune_len (p @ x) = length p"
  using rune_len_take [of p x] by (cases "p = []") (simp_all add: one_rune_def)

lemma utf8_valid_append: "one_rune p \<Longrightarrow> utf8_valid (p @ s) = utf8_valid s"
  using one_rune_append [of p s] by (subst utf8_valid.simps) (auto simp: one_rune_def)

lemma utf8_valid_Nil [simp]: "utf8_valid []" by (simp add: utf8_valid.simps)

text \<open>A non-empty valid text is a rune and a valid text.\<close>

lemma utf8_valid_split:
  assumes "utf8_valid s" "s \<noteq> []"
  obtains p t where "s = p @ t" "one_rune p" "utf8_valid t" "length t < length s"
proof -
  have "0 < rune_len s" using assms by (subst (asm) utf8_valid.simps) (auto split: if_splits)
  then show thesis
    using that [of "take (rune_len s) s" "drop (rune_len s) s"] assms one_rune_take drop_rune_length
    by (subst (asm) (2) utf8_valid.simps) simp
qed

lemma one_rune_ascii: "byte c < 0x80 \<Longrightarrow> one_rune [c]"
  by (simp add: one_rune_def rune_len_def)

lemma one_rune_replacement: "one_rune replacement"
  by (simp add: one_rune_def replacement_def rune_len_def byte_in_def)

lemma one_rune_bytes:
  assumes "\<not> surrogate n" "n < 0x110000"
  shows "one_rune (rune_bytes n)"
proof -
  have m: "byte (char_of k) = k" if "k < 256" for k using that by (simp add: of_char_mod_256 take_bit_nat_eq_self)
  consider "n < 0x80" | "0x80 \<le> n" "n < 0x800" | "0x800 \<le> n" "n < 0x10000" | "0x10000 \<le> n" by linarith
  then show ?thesis
  proof cases
    case 1
    then show ?thesis by (simp add: rune_bytes_def one_rune_ascii m)
  next
    case 2
    have "2 \<le> n div 64" "n div 64 < 32" using 2 by auto
    then show ?thesis using 2 by (simp add: rune_bytes_def one_rune_def rune_len_def byte_in_def m)
  next
    case 3
    define a b where "a = n div 4096" and "b = n div 64 mod 64"
    have ab: "n div 64 = a * 64 + b" "b < 64"
      using div_mult_mod_eq [of "n div 64" 64] by (simp_all add: a_def b_def div_mult2_eq [of n 64 64, simplified])
    have "a < 16" using 3 by (auto simp: a_def)
    moreover have "a = 0 \<longrightarrow> 32 \<le> b" using 3 ab by auto
    moreover have "a = 13 \<longrightarrow> b < 32"
    proof
      assume "a = 13"
      then have "\<not> 32 \<le> b" using ab assms(1) by (auto simp: surrogate_def)
      then show "b < 32" by simp
    qed
    ultimately show ?thesis
      using 3 ab(2) mod_less_divisor [of 64 n, OF zero_less_numeral] by (auto simp: rune_bytes_def one_rune_def rune_len_def byte_in_def m a_def [symmetric] b_def [symmetric] nth_Cons')
  next
    case 4
    define a b where "a = n div 262144" and "b = n div 4096 mod 64"
    have ab: "n div 4096 = a * 64 + b" "b < 64"
      using div_mult_mod_eq [of "n div 4096" 64] by (simp_all add: a_def b_def div_mult2_eq [of n 4096 64, simplified])
    have "a < 5" using assms by (auto simp: a_def)
    moreover have "a = 0 \<longrightarrow> 16 \<le> b" using 4 ab by auto
    moreover have "a = 4 \<longrightarrow> b < 16" using assms(2) ab by auto
    ultimately show ?thesis
      using 4 ab(2) mod_less_divisor [of 64 n, OF zero_less_numeral] mod_less_divisor [of 64 "n div 64", OF zero_less_numeral]
      by (auto simp: rune_bytes_def one_rune_def rune_len_def byte_in_def m a_def [symmetric] b_def [symmetric] nth_Cons')
  qed
qed

text \<open>Whatever is decoded is valid UTF-8.\<close>

lemma string_piece_rune:
  assumes "string_piece s = Some (t, r)"
  shows "one_rune t"
proof -
  have e: "one_rune [d]" if "simple_escape c = Some d" for c d
    using that by (auto simp: simple_escape_def split: if_splits intro!: one_rune_ascii)
  have l: "one_rune (rune_bytes n)" if "low_half u x = Some (n, y)" "surrogate u" for u x n y
    using that by (intro one_rune_bytes) (auto simp: low_half_def surrogate_def split: if_splits option.splits)
  show ?thesis
  proof (cases s)
    case (Cons c x)
    show ?thesis
    proof (cases "c = CHR 0x5C")
      case False
      then show ?thesis
        using assms Cons one_rune_replacement one_rune_take [of s] by (auto simp: string_piece_def split: if_splits)
    next
      case True
      show ?thesis
      proof (cases "x = [] \<or> hd x \<noteq> CHR ''u''")
        case True
        then show ?thesis
          using assms Cons \<open>c = _\<close> e by (auto simp: string_piece_def split: list.splits if_splits)
      next
        case False
        then obtain y u z where x: "x = CHR ''u'' # y" and h: "hex4 y = Some (u, z)"
          using assms Cons \<open>c = _\<close> by (cases x) (auto simp: string_piece_def split: option.splits)
        show ?thesis
        proof (cases "surrogate u")
          case True
          then show ?thesis
            using assms Cons \<open>c = _\<close> x h l one_rune_replacement by (auto simp: string_piece_def split: option.splits)
        next
          case False
          then have "one_rune (rune_bytes u)" using hex4_length [OF h] by (intro one_rune_bytes) auto
          then show ?thesis
            using assms Cons \<open>c = _\<close> x h False by (simp add: string_piece_def)
        qed
      qed
    qed
  qed (use assms in \<open>simp add: string_piece_def\<close>)
qed

lemma json_string_valid: "json_string s = Some (t, r) \<Longrightarrow> utf8_valid t"
proof (induction s arbitrary: t rule: json_string.induct)
  case (1 s)
  show ?case
    using "1.prems" "1.IH"
    by (fastforce simp: json_string.simps [of s] utf8_valid_append split: if_splits option.splits dest: string_piece_rune)
qed

section \<open>The text the encoder writes\<close>

text \<open>With \<open>SetEscapeHTML\<close> left on; the two line separators are escaped as well.\<close>

definition escape_ascii :: "char \<Rightarrow> string" where
  "escape_ascii c =
     (if c = CHR 0x22 \<or> c = CHR 0x5C then [CHR 0x5C, c]
      else if c = CHR 8 then [CHR 0x5C, CHR ''b''] else if c = CHR 12 then [CHR 0x5C, CHR ''f'']
      else if c = CHR 10 then [CHR 0x5C, CHR ''n''] else if c = CHR 13 then [CHR 0x5C, CHR ''r'']
      else if c = CHR 9 then [CHR 0x5C, CHR ''t'']
      else if byte c < 32 \<or> c \<in> {CHR ''<'', CHR ''>'', CHR ''&''}
      then CHR 0x5C # ''u00'' @ [hex_digit (byte c div 16), hex_digit (byte c mod 16)]
      else [c])"

definition escape_rune :: "string \<Rightarrow> string" where
  "escape_rune p =
     (if length p = 1 then escape_ascii (hd p)
      else if p = [CHR 0xE2, CHR 0x80, CHR 0xA8] then CHR 0x5C # ''u2028''
      else if p = [CHR 0xE2, CHR 0x80, CHR 0xA9] then CHR 0x5C # ''u2029''
      else p)"

function json_escape :: "string \<Rightarrow> string" where
  "json_escape s =
     (if s = [] then []
      else if rune_len s = 0 then CHR 0x5C # ''ufffd'' @ json_escape (tl s)
      else escape_rune (take (rune_len s) s) @ json_escape (drop (rune_len s) s))"
  by pat_completeness auto
termination by (relation "measure length") (auto dest: drop_rune_length)

declare json_escape.simps [simp del]

definition json_quote :: "string \<Rightarrow> string" where
  "json_quote s = CHR 0x22 # json_escape s @ [CHR 0x22]"

fun json_print :: "json \<Rightarrow> string" where
  "json_print JNull = ''null''"
| "json_print (JBool b) = (if b then ''true'' else ''false'')"
| "json_print (JNum t) = t"
| "json_print (JStr s) = json_quote s"
| "json_print (JArr vs) = ''['' @ str_join '','' (map json_print vs) @ '']''"
| "json_print (JObj ms) = ''{'' @ str_join '','' (map (\<lambda>(k, v). json_quote k @ '':'' @ json_print v) ms) @ ''}''"

section \<open>A printed value is read back\<close>

lemma escape_ascii_read:
  assumes "byte c < 0x80"
  shows "string_piece (escape_ascii c @ x) = Some ([c], x)" "hd (escape_ascii c @ x) \<noteq> CHR 0x22"
    "escape_ascii c \<noteq> []"
proof -
  have h: "hex_val (CHR ''0'') = Some 0" by (simp add: hex_val_def is_digit_def less_eq_char_def digit_val_def)
  have c: "rune_bytes (byte c) = [c]" using assms by (simp add: rune_bytes_def)
  have n: "byte c div 16 * 16 + byte c mod 16 = byte c" by simp
  have d: "byte c div 16 < 16" "byte c mod 16 < 16" using assms by auto
  have s: "\<not> surrogate (byte c)" using assms by (simp add: surrogate_def)
  have u: "string_piece (CHR 0x5C # ''u00'' @ [hex_digit (byte c div 16), hex_digit (byte c mod 16)] @ x) = Some ([c], x)"
    using h c n s hex_val_digit [OF d(1)] hex_val_digit [OF d(2)] by (simp add: string_piece_def)
  have r: "rune_len (c # y) = 1" for y using assms by (simp add: rune_len_def)
  show "string_piece (escape_ascii c @ x) = Some ([c], x)" "hd (escape_ascii c @ x) \<noteq> CHR 0x22" "escape_ascii c \<noteq> []"
    using u r [of x] by (auto simp: escape_ascii_def string_piece_def simple_escape_def)
qed

lemma escape_rune_read:
  assumes "one_rune p"
  shows "string_piece (escape_rune p @ x) = Some (p, x)" "hd (escape_rune p @ x) \<noteq> CHR 0x22" "escape_rune p \<noteq> []"
proof -
  have ne: "p \<noteq> []" using assms by (auto simp: one_rune_def)
  have h: "hex_val (CHR ''0'') = Some 0" "hex_val (CHR ''2'') = Some 2" "hex_val (CHR ''8'') = Some 8" "hex_val (CHR ''9'') = Some 9"
    by (simp_all add: hex_val_def is_digit_def less_eq_char_def digit_val_def)
  consider c where "p = [c]" "byte c < 0x80" | c t where "p = c # t" "t \<noteq> []" "0x80 \<le> byte c"
    using assms by (cases p rule: rune_len_cases) (auto simp: one_rune_def)
  then have "string_piece (escape_rune p @ x) = Some (p, x) \<and> hd (escape_rune p @ x) \<noteq> CHR 0x22 \<and> escape_rune p \<noteq> []"
  proof cases
    case 1
    then show ?thesis using escape_ascii_read [OF 1(2)] by (simp add: escape_rune_def)
  next
    case 2
    have "string_piece (p @ x) = Some (p, x)" "c \<noteq> CHR 0x22"
      using 2 one_rune_append [OF assms, of x] assms by (auto simp: string_piece_def one_rune_def)
    moreover have "string_piece (CHR 0x5C # ''u2028'' @ x) = Some ([CHR 0xE2, CHR 0x80, CHR 0xA8], x)"
      "string_piece (CHR 0x5C # ''u2029'' @ x) = Some ([CHR 0xE2, CHR 0x80, CHR 0xA9], x)"
      using h by (simp_all add: string_piece_def surrogate_def rune_bytes_def char_of_def bit_simps bit_numeral_rec)
    ultimately show ?thesis using 2 by (auto simp: escape_rune_def)
  qed
  then show "string_piece (escape_rune p @ x) = Some (p, x)" "hd (escape_rune p @ x) \<noteq> CHR 0x22" "escape_rune p \<noteq> []"
    by blast+
qed

lemma json_escape_append: "one_rune p \<Longrightarrow> json_escape (p @ s) = escape_rune p @ json_escape s"
  using one_rune_append [of p s] by (subst json_escape.simps) (auto simp: one_rune_def)

lemma json_escape_ascii: "json_escape [] = []" "byte c < 0x80 \<Longrightarrow> json_escape (c # s) = escape_ascii c @ json_escape s"
  using json_escape_append [OF one_rune_ascii, of c s] by (simp_all add: json_escape.simps [of "[]"] escape_rune_def)

lemma json_escape_read: "utf8_valid s \<Longrightarrow> json_string (json_escape s @ CHR 0x22 # x) = Some (s, x)"
proof (induction "length s" arbitrary: s rule: less_induct)
  case less
  show ?case
  proof (cases "s = []")
    case True
    then show ?thesis by (simp add: json_escape.simps json_string.simps)
  next
    case False
    then obtain p t where s: "s = p @ t" "one_rune p" "utf8_valid t" "length t < length s"
      using utf8_valid_split less.prems by metis
    note r = escape_rune_read(1,2) [OF s(2), of "json_escape t @ CHR 0x22 # x"] escape_rune_read(3) [OF s(2)]
    show ?thesis
      using r less.hyps [OF s(4,3)] unfolding s(1) json_escape_append [OF s(2)]
      by (subst json_string.simps) simp
  qed
qed

lemma json_quote_read: "utf8_valid s \<Longrightarrow> \<exists>t. json_quote s @ x = CHR 0x22 # t \<and> json_string t = Some (s, x)"
  using json_escape_read by (simp add: json_quote_def)

fun printable :: "json \<Rightarrow> bool" where
  "printable (JNum t) = False"
| "printable (JStr s) = utf8_valid s"
| "printable (JArr vs) = list_all printable vs"
| "printable (JObj ms) = list_all (\<lambda>(k, v). utf8_valid k \<and> printable v) ms"
| "printable v = True"

text \<open>How many arrays and objects are open at once.\<close>

fun json_depth :: "json \<Rightarrow> nat" where
  "json_depth (JArr vs) = Suc (fold (\<lambda>v n. max (json_depth v) n) vs 0)"
| "json_depth (JObj ms) = Suc (fold (\<lambda>(k, v) n. max (json_depth v) n) ms 0)"
| "json_depth v = 0"

lemma fold_max_le: "fold (\<lambda>v n. max (f v) n) vs m \<le> d \<longleftrightarrow> m \<le> d \<and> (\<forall>v \<in> set vs. f v \<le> (d :: nat))"
  by (induction vs arbitrary: m) auto

lemma fold_max_snd_le:
  "fold (\<lambda>(k, v). max (f v)) ms m \<le> d \<longleftrightarrow> m \<le> d \<and> (\<forall>(k, v) \<in> set ms. f v \<le> (d :: nat))"
  by (induction ms arbitrary: m) auto

lemma skip_ws_stop: "c \<notin> {CHR '' '', CHR 9, CHR 13, CHR 10} \<Longrightarrow> skip_ws (c # s) = c # s"
  by (auto simp: skip_ws_def)

lemma json_elems_read:
  assumes "vs \<noteq> []" "\<And>v x. v \<in> set vs \<Longrightarrow> json_value d (json_print v @ x) = Some (v, x)"
  shows "json_elems d (str_join '','' (map json_print vs) @ CHR '']'' # x) = Some (vs, x)"
  using assms
proof (induction vs)
  case (Cons v vs)
  show ?case
  proof (cases vs)
    case Nil
    then show ?thesis
      using Cons.prems(2) [of v "CHR '']'' # x"] by (simp add: json_elems.simps skip_ws_stop)
  next
    case c: (Cons u us)
    have "json_elems d (str_join '','' (map json_print vs) @ CHR '']'' # x) = Some (vs, x)"
      using Cons.IH Cons.prems c by simp
    then show ?thesis
      using Cons.prems(2) [of v "CHR '','' # str_join '','' (map json_print vs) @ CHR '']'' # x"] c
      by (simp add: json_elems.simps skip_ws_stop)
  qed
qed simp

definition member_text :: "string \<times> json \<Rightarrow> string" where
  "member_text = (\<lambda>(k, v). json_quote k @ '':'' @ json_print v)"

lemma json_members_read:
  assumes "ms \<noteq> []" "\<And>k v x. (k, v) \<in> set ms \<Longrightarrow> utf8_valid k \<and> json_value d (json_print v @ x) = Some (v, x)"
  shows "json_members d (str_join '','' (map member_text ms) @ CHR ''}'' # x) = Some (ms, x)"
  using assms
proof (induction ms)
  case (Cons m ms)
  obtain k v where m: "m = (k, v)" by (cases m)
  have k: "utf8_valid k" and v: "json_value d (json_print v @ y) = Some (v, y)" for y
    using Cons.prems(2) [of k v] m by auto
  obtain t where t: "\<And>y. json_quote k @ y = CHR 0x22 # t @ y" and r: "\<And>y. json_string (t @ y) = Some (k, y)"
    using json_escape_read [OF k] by (auto simp: json_quote_def intro: that [of "json_escape k @ [CHR 0x22]"])
  have one: "has_prefix (c # s) [c]" for c s by (simp add: has_prefix_def)
  show ?case
  proof (cases ms)
    case Nil
    then show ?thesis
      using v [of "CHR ''}'' # x"] r
      by (simp add: json_members.simps m member_text_def t skip_ws_stop one)
  next
    case c: (Cons u us)
    have "json_members d (str_join '','' (map member_text ms) @ CHR ''}'' # x) = Some (ms, x)"
      by (rule Cons.IH) (use Cons.prems(2) c in auto)
    then show ?thesis
      using v [of "CHR '','' # str_join '','' (map member_text ms) @ CHR ''}'' # x"] r c
      by (simp add: json_members.simps m member_text_def t skip_ws_stop one)
  qed
qed simp

lemma json_print_head: "printable v \<Longrightarrow> \<exists>c t. json_print v = c # t \<and> c \<in> {CHR ''n'', CHR ''t'', CHR ''f'', CHR 0x22, CHR ''['', CHR ''{''}"
  by (cases v) (auto simp: json_quote_def)

lemma str_join_head: "str_join sep ((c # t) # xs) = c # str_join sep (t # xs)"
  by (cases xs) simp_all

theorem json_value_read:
  "printable v \<Longrightarrow> json_depth v \<le> d \<Longrightarrow> json_value d (json_print v @ x) = Some (v, x)"
proof (induction v arbitrary: d x)
  case (JStr s)
  then obtain t where "json_quote s @ x = CHR 0x22 # t" "json_string t = Some (s, x)"
    using json_quote_read by fastforce
  then show ?case by (simp add: json_value.simps skip_ws_stop)
next
  case (JArr vs)
  obtain e where d: "d = Suc e" using JArr.prems(2) by (cases d) auto
  have v: "json_value e (json_print v @ y) = Some (v, y)" if "v \<in> set vs" for v y
    using JArr.IH [OF that] JArr.prems that d by (auto simp: fold_max_le list_all_iff)
  show ?case
  proof (cases vs)
    case Nil
    then show ?thesis by (simp add: json_value.simps skip_ws_stop has_prefix_def d)
  next
    case (Cons u us)
    obtain c t where c: "json_print u = c # t" "c \<in> {CHR ''n'', CHR ''t'', CHR ''f'', CHR 0x22, CHR ''['', CHR ''{''}"
      using json_print_head [of u] JArr.prems(1) Cons by auto
    then have "\<not> has_prefix (skip_ws (str_join '','' (map json_print vs) @ CHR '']'' # x)) '']''"
      using Cons by (auto simp: str_join_head skip_ws_stop has_prefix_def)
    then show ?thesis
      using json_elems_read [of vs e x, OF _ v] Cons by (simp add: json_value.simps skip_ws_stop d del: str_join.simps list.map)
  qed
next
  case (JObj ms)
  obtain e where d: "d = Suc e" using JObj.prems(2) by (cases d) auto
  have v: "utf8_valid k \<and> json_value e (json_print v @ y) = Some (v, y)" if "(k, v) \<in> set ms" for k v y
    using JObj.IH [OF that, of v] JObj.prems that d by (fastforce simp: fold_max_snd_le list_all_iff)
  have p: "json_print (JObj ms) = CHR ''{'' # str_join '','' (map member_text ms) @ ''}''"
    by (simp add: member_text_def)
  show ?case
  proof (cases ms)
    case Nil
    then show ?thesis by (simp add: json_value.simps skip_ws_stop has_prefix_def d)
  next
    case (Cons u us)
    obtain t where "member_text u = CHR 0x22 # t" by (cases u) (simp add: member_text_def json_quote_def)
    then have "\<not> has_prefix (skip_ws (str_join '','' (map member_text ms) @ CHR ''}'' # x)) ''}''"
      using Cons by (simp add: str_join_head skip_ws_stop has_prefix_def)
    then show ?thesis
      unfolding p using json_members_read [of ms e x, OF _ v] Cons
      by (simp add: json_value.simps skip_ws_stop d del: str_join.simps list.map json_print.simps)
  qed
qed (simp_all add: json_value.simps skip_ws_stop has_prefix_def)

end
