(* ===== verification/RipeFeed.thy ===== *)
theory RipeFeed
  imports Json
begin

text \<open>
  The answer of RIPE Stat: the structs \<open>ripeResp\<close>, \<open>ripeData\<close> and \<open>ripeResources\<close> of main.go, how
  \<open>json.Decoder\<close> fills them and what \<open>json.Encoder\<close> writes for them. Field names match up to Unicode
  case, unknown members are skipped, a null leaves a string or struct as it was, and a value of the
  wrong type makes the decoding fail. The results: whatever decodes is valid UTF-8, and encoding and
  decoding it again gives the same response.
\<close>

section \<open>The structs\<close>

text \<open>A slice is \<open>None\<close> when it is nil, which the encoder writes as null.\<close>

type_synonym slice = "string list option"

record ripeResources =
  res_IPv4 :: slice
  res_IPv6 :: slice

record ripeData =
  Resources :: ripeResources

record ripeResp =
  Status :: string
  Data :: ripeData

definition elements :: "slice \<Rightarrow> string list" where
  "elements s = (case s of None \<Rightarrow> [] | Some xs \<Rightarrow> xs)"

text \<open>The two lists the program reads: \<open>raw.Data.Resources.IPv4\<close> and \<open>IPv6\<close>.\<close>

definition IPv4 :: "ripeResp \<Rightarrow> string list" where "IPv4 raw = elements (res_IPv4 (Resources (Data raw)))"

definition IPv6 :: "ripeResp \<Rightarrow> string list" where "IPv6 raw = elements (res_IPv6 (Resources (Data raw)))"

definition no_resp :: ripeResp where
  "no_resp = \<lparr>Status = [], Data = \<lparr>Resources = \<lparr>res_IPv4 = None, res_IPv6 = None\<rparr>\<rparr>\<rparr>"

section \<open>Decoding\<close>

text \<open>
  \<open>foldName\<close>: two names match if their runes have the same smallest case fold. Among the runes beyond
  ASCII only the long s and the Kelvin sign fold to ASCII letters.
\<close>

fun fold_name :: "string \<Rightarrow> string" where
  "fold_name (a # b # c # s) =
     (if [a, b] = [CHR 0xC5, CHR 0xBF] then CHR ''s'' # fold_name (c # s)
      else if [a, b, c] = [CHR 0xE2, CHR 0x84, CHR 0xAA] then CHR ''k'' # fold_name s
      else char_lower a # fold_name (b # c # s))"
| "fold_name [a, b] = (if [a, b] = [CHR 0xC5, CHR 0xBF] then ''s'' else [char_lower a, char_lower b])"
| "fold_name [a] = [char_lower a]"
| "fold_name [] = []"

text \<open>A value into a string that holds \<open>old\<close>, into a slice of strings, and into a struct by its fields.\<close>

definition decode_string :: "json \<Rightarrow> string \<Rightarrow> string option" where
  "decode_string v old = (case v of JStr s \<Rightarrow> Some s | JNull \<Rightarrow> Some old | _ \<Rightarrow> None)"

definition decode_slice :: "json \<Rightarrow> slice option" where
  "decode_slice v =
     (case v of
        JNull \<Rightarrow> Some None
      | JArr vs \<Rightarrow> map_option Some (those (map (\<lambda>v. decode_string v []) vs))
      | _ \<Rightarrow> None)"

definition decode_struct :: "(string \<Rightarrow> json \<Rightarrow> 'a \<Rightarrow> 'a option) \<Rightarrow> json \<Rightarrow> 'a \<Rightarrow> 'a option" where
  "decode_struct field v x =
     (case v of
        JNull \<Rightarrow> Some x
      | JObj ms \<Rightarrow> foldl (\<lambda>r (k, v). case r of None \<Rightarrow> None | Some x \<Rightarrow> field (fold_name k) v x) (Some x) ms
      | _ \<Rightarrow> None)"

definition resources_field :: "string \<Rightarrow> json \<Rightarrow> ripeResources \<Rightarrow> ripeResources option" where
  "resources_field k v r =
     (if k = ''ipv4'' then map_option (\<lambda>s. r\<lparr>res_IPv4 := s\<rparr>) (decode_slice v)
      else if k = ''ipv6'' then map_option (\<lambda>s. r\<lparr>res_IPv6 := s\<rparr>) (decode_slice v)
      else Some r)"

definition data_field :: "string \<Rightarrow> json \<Rightarrow> ripeData \<Rightarrow> ripeData option" where
  "data_field k v d =
     (if k = ''resources''
      then map_option (\<lambda>r. d\<lparr>Resources := r\<rparr>) (decode_struct resources_field v (Resources d))
      else Some d)"

definition resp_field :: "string \<Rightarrow> json \<Rightarrow> ripeResp \<Rightarrow> ripeResp option" where
  "resp_field k v r =
     (if k = ''status'' then map_option (\<lambda>s. r\<lparr>Status := s\<rparr>) (decode_string v (Status r))
      else if k = ''data'' then map_option (\<lambda>d. r\<lparr>Data := d\<rparr>) (decode_struct data_field v (Data r))
      else Some r)"

text \<open>\<open>Decode\<close> into a fresh response: the first value of the text; what follows it is not looked at.\<close>

definition max_nesting_depth :: nat where "max_nesting_depth = 10000"

definition feed_decode :: "string \<Rightarrow> ripeResp option" where
  "feed_decode s =
     (case json_value max_nesting_depth s of
        None \<Rightarrow> None
      | Some (v, _) \<Rightarrow> decode_struct resp_field v no_resp)"

section \<open>Encoding\<close>

definition slice_json :: "slice \<Rightarrow> json" where
  "slice_json s = (case s of None \<Rightarrow> JNull | Some xs \<Rightarrow> JArr (map JStr xs))"

definition resp_json :: "ripeResp \<Rightarrow> json" where
  "resp_json r =
     JObj [(''status'', JStr (Status r)),
       (''data'', JObj [(''resources'', JObj
          [(''ipv4'', slice_json (res_IPv4 (Resources (Data r)))),
           (''ipv6'', slice_json (res_IPv6 (Resources (Data r))))])])]"

definition feed_encode :: "ripeResp \<Rightarrow> string" where
  "feed_encode r = json_print (resp_json r) @ [nl]"

section \<open>Round trip\<close>

definition slice_valid :: "slice \<Rightarrow> bool" where "slice_valid s = list_all utf8_valid (elements s)"

definition feed_valid :: "ripeResp \<Rightarrow> bool" where
  "feed_valid r = (utf8_valid (Status r) \<and> slice_valid (res_IPv4 (Resources (Data r)))
     \<and> slice_valid (res_IPv6 (Resources (Data r))))"

lemma utf8_valid_ascii: "list_all (\<lambda>c. byte c < 0x80) s \<Longrightarrow> utf8_valid s"
proof (induction s)
  case (Cons c s)
  then show ?case using utf8_valid_append [OF one_rune_ascii [of c], of s] by simp
qed simp

lemma those_strings: "those (map (\<lambda>v. decode_string v []) (map JStr xs)) = Some xs"
  by (induction xs) (simp_all add: decode_string_def)

lemma slice_json_decode: "decode_slice (slice_json s) = Some s"
  using those_strings by (simp add: decode_slice_def slice_json_def split: option.split)

lemma slice_json_printable: "slice_valid s \<Longrightarrow> printable (slice_json s)" "json_depth (slice_json s) \<le> 1"
proof -
  have "fold (\<lambda>v n. max (json_depth v) n) (map JStr xs) n = n" for xs n by (induction xs) simp_all
  then show "slice_valid s \<Longrightarrow> printable (slice_json s)" "json_depth (slice_json s) \<le> 1"
    by (auto simp: slice_valid_def slice_json_def elements_def list_all_iff split: option.splits)
qed

lemma names_valid: "utf8_valid ''status''" "utf8_valid ''data''" "utf8_valid ''resources''" "utf8_valid ''ipv4''" "utf8_valid ''ipv6''"
  by (rule utf8_valid_ascii; simp)+

lemma fold_names [simp]: "fold_name ''status'' = ''status''" "fold_name ''data'' = ''data''"
  "fold_name ''resources'' = ''resources''" "fold_name ''ipv4'' = ''ipv4''" "fold_name ''ipv6'' = ''ipv6''"
  by (simp_all add: char_lower_def)

declare fold_name.simps [simp del]

lemma feed_decode_encode:
  assumes "feed_valid r"
  shows "feed_decode (feed_encode r) = Some r"
proof -
  have "printable (resp_json r)"
    using assms by (simp add: resp_json_def names_valid feed_valid_def slice_json_printable)
  moreover have "json_depth (resp_json r) \<le> max_nesting_depth"
    using slice_json_printable(2) [of "res_IPv4 (Resources (Data r))"] slice_json_printable(2) [of "res_IPv6 (Resources (Data r))"]
    by (simp add: resp_json_def max_nesting_depth_def)
  ultimately have "json_value max_nesting_depth (feed_encode r) = Some (resp_json r, [nl])"
    unfolding feed_encode_def by (rule json_value_read)
  moreover have "decode_struct resp_field (resp_json r) no_resp = Some r"
    by (simp add: resp_json_def decode_struct_def resp_field_def data_field_def resources_field_def
        slice_json_decode no_resp_def decode_string_def)
  ultimately show ?thesis by (simp add: feed_decode_def)
qed

text \<open>The strings of a value.\<close>

fun strings_valid :: "json \<Rightarrow> bool" where
  "strings_valid (JStr s) = utf8_valid s"
| "strings_valid (JArr vs) = list_all strings_valid vs"
| "strings_valid (JObj ms) = list_all (\<lambda>(k, v). strings_valid v) ms"
| "strings_valid v = True"

lemma json_value_strings:
  "json_value d s = Some (v, r) \<Longrightarrow> strings_valid v"
  "json_elems d s = Some (vs, r) \<Longrightarrow> list_all strings_valid vs"
  "json_members d s = Some (ms, r) \<Longrightarrow> list_all (\<lambda>(k, v). strings_valid v) ms"
proof (induction d s and d s and d s arbitrary: v r and vs r and ms r
    rule: json_value_json_elems_json_members.induct)
  case (1 d s0)
  show ?case
  proof (cases "skip_ws s0")
    case (Cons c s)
    show ?thesis
      using "1.prems" "1.IH" [OF Cons]
      by (fastforce simp: json_value.simps [of _ s0] Cons split: if_splits dest: json_string_valid)
  qed (use "1.prems" in \<open>simp add: json_value.simps [of _ s0]\<close>)
next
  case (2 d s)
  then show ?case
    by (fastforce simp: json_elems.simps [of _ s] split: option.splits list.splits if_splits)
next
  case (3 d s)
  then show ?case
    by (fastforce simp: json_members.simps [of _ s] split: option.splits list.splits if_splits)
qed

lemma decode_struct_keeps:
  assumes "decode_struct field v x = Some y" "strings_valid v" "P x"
    "\<And>k v x y. field k v x = Some y \<Longrightarrow> strings_valid v \<Longrightarrow> P x \<Longrightarrow> P y"
  shows "P y"
proof (cases v)
  case (JObj ms)
  have "foldl (\<lambda>r (k, v). case r of None \<Rightarrow> None | Some x \<Rightarrow> field (fold_name k) v x) z ms = Some y
      \<Longrightarrow> list_all (\<lambda>(k, v). strings_valid v) ms \<Longrightarrow> (\<forall>x. z = Some x \<longrightarrow> P x) \<Longrightarrow> P y" for z
  proof (induction ms arbitrary: z)
    case (Cons m ms)
    then show ?case using assms(4) by (cases m; cases z) fastforce+
  qed simp
  then show ?thesis using assms(1-3) JObj by (simp add: decode_struct_def)
qed (use assms in \<open>auto simp: decode_struct_def\<close>)

lemma decode_slice_valid:
  assumes "decode_slice v = Some s" "strings_valid v"
  shows "slice_valid s"
proof (cases v)
  case (JArr vs)
  have "those (map (\<lambda>v. decode_string v []) vs) = Some xs \<Longrightarrow> list_all strings_valid vs \<Longrightarrow> list_all utf8_valid xs" for xs
  proof (induction vs arbitrary: xs)
    case (Cons u us)
    then show ?case by (cases u) (auto simp: decode_string_def)
  qed simp
  then show ?thesis using assms JArr by (auto simp: decode_slice_def slice_valid_def elements_def)
qed (use assms in \<open>auto simp: decode_slice_def slice_valid_def elements_def\<close>)

lemma feed_decode_valid:
  assumes "feed_decode s = Some r"
  shows "feed_valid r"
proof -
  obtain v x where v: "json_value max_nesting_depth s = Some (v, x)" "decode_struct resp_field v no_resp = Some r"
    using assms by (auto simp: feed_decode_def split: option.splits)
  let ?res = "\<lambda>x. slice_valid (res_IPv4 x) \<and> slice_valid (res_IPv6 x)"
  have res: "?res y" if "resources_field k v x = Some y" "strings_valid v" "?res x" for k v x y
    using that by (auto simp: resources_field_def dest: decode_slice_valid split: if_splits)
  have dat: "?res (Resources y)" if "data_field k v x = Some y" "strings_valid v" "?res (Resources x)" for k v x y
    using that decode_struct_keeps [of resources_field v "Resources x", where P = ?res] res
    by (fastforce simp: data_field_def split: if_splits)
  have str: "utf8_valid y" if "decode_string v x = Some y" "strings_valid v" "utf8_valid x" for v x y
    using that by (cases v) (auto simp: decode_string_def)
  have "feed_valid y" if "resp_field k v x = Some y" "strings_valid v" "feed_valid x" for k v x y
    using that str decode_struct_keeps [of data_field v "Data x", where P = "\<lambda>x. ?res (Resources x)"] dat
    by (fastforce simp: resp_field_def feed_valid_def split: if_splits)
  moreover have "feed_valid no_resp" by (simp add: feed_valid_def no_resp_def slice_valid_def elements_def)
  ultimately show ?thesis
    using decode_struct_keeps [OF v(2) json_value_strings(1) [OF v(1)], where P = feed_valid] by blast
qed

end
