(* ===== verification/Cache.thy ===== *)
theory Cache
  imports Files RipeFeed "HOL-Library.Word"
begin

text \<open>
  The feed: \<open>fetch\<close> and \<open>fetchWithRetry\<close> of main.go and the cache of cache.go. The network is
  the environment; gzip and the texts of JSON errors are a parameter, the JSON codec itself is that of
  RipeFeed. The results: the number of requests and the linear waits of the retry loop, when the
  cache answers and when it must not, what the cache file holds at every moment, and that a feed
  accepted from the network and cached is read back. One theorem shows that the test for client errors also looks into the body the
  server sent.
\<close>

section \<open>The codecs\<close>

text \<open>
  The error of \<open>json.Decoder.Decode\<close> on a text it does not accept; what a gzip writer has written after
  the one \<open>Write\<close> of the encoder and after \<open>Close\<close>; and an opened gzip stream, the error of
  \<open>gzip.NewReader\<close> or the bytes the stream yields until it ends or breaks off.
\<close>

record codec =
  json_error :: "string \<Rightarrow> go_error"
  gz_encode :: "string \<Rightarrow> string \<times> string"
  gz_open :: "string \<Rightarrow> string res"

definition json_decode :: "codec \<Rightarrow> string \<Rightarrow> ripeResp res" where
  "json_decode C s = (case feed_decode s of None \<Rightarrow> Inl (json_error C s) | Some r \<Rightarrow> Inr r)"

text \<open>The bytes of a cache file.\<close>

abbreviation cache_bytes :: "codec \<Rightarrow> ripeResp \<Rightarrow> string" where
  "cache_bytes C resp \<equiv> fst (gz_encode C (feed_encode resp)) @ snd (gz_encode C (feed_encode resp))"

section \<open>fetch and fetchWithRetry\<close>

definition max_body_bytes :: nat where "max_body_bytes = 33554432"

definition fetch :: "os_env \<Rightarrow> codec \<Rightarrow> request \<Rightarrow> world \<Rightarrow> ripeResp res \<times> world" where
  "fetch E C url w =
     (case http E (calls w) url of
        ReqErr e \<Rightarrow> (Inl (wrapf ''new request: '' e []), tick (fs w) w)
      | DoErr e \<Rightarrow> (Inl (wrapf ''http do: '' e []), (tick (fs w) w)\<lparr>requests := requests w @ [url]\<rparr>)
      | Resp code b \<Rightarrow>
          ((if code \<noteq> 200
            then Inl (wrapf [] (errors_new ErrHTTP)
                   ('': status='' @ int_str code @ '' body='' @ take limit_error_body b))
            else case json_decode C (take max_body_bytes b) of
              Inl e \<Rightarrow> Inl (wrapf ''decode: '' e [])
            | Inr parsed \<Rightarrow>
                if Status parsed \<noteq> ''ok''
                then Inl (wrapf [] (errors_new ErrBadStatus) ('': '' @ Status parsed))
                else Inr parsed),
           (tick (fs w) w)\<lparr>requests := requests w @ [url]\<rparr>))"

text \<open>The product of two durations wraps around at 64 bits.\<close>

definition duration_mul :: "int \<Rightarrow> int \<Rightarrow> int" where
  "duration_mul a b = sint (word_of_int a * word_of_int b :: 64 word)"

text \<open>
  The wait before attempt \<open>attempt\<close>: the context may end it. A negative time, which only a wrapped
  product can be for a base delay that is not negative, is over at once.
\<close>

definition backoff_wait :: "os_env \<Rightarrow> int \<Rightarrow> int \<Rightarrow> world \<Rightarrow> unit res \<times> world" where
  "backoff_wait E attempt baseDelay w =
     (let backoff = duration_mul (attempt - 1) baseDelay in
      case ctx_err E (calls w) of
        Some e \<Rightarrow> (Inl (wrapf ''retry wait: '' e []), tick (fs w) w)
      | None \<Rightarrow> (Inr (), (tick (fs w) w)\<lparr>sleeps := sleeps w @ [backoff]\<rparr>))"

text \<open>The loop with \<open>left\<close> attempts to go; \<open>lastErr\<close> is nil before the first.\<close>

fun retry_loop ::
  "os_env \<Rightarrow> codec \<Rightarrow> request \<Rightarrow> int \<Rightarrow> nat \<Rightarrow> int \<Rightarrow> go_error option \<Rightarrow> world \<Rightarrow> ripeResp res \<times> world" where
  "retry_loop E C url baseDelay 0 attempt lastErr w =
     (Inl (case lastErr of
             None \<Rightarrow> GoErr [] ''retries exhausted: %!w(<nil>)''
           | Some e \<Rightarrow> wrapf ''retries exhausted: '' e []), w)"
| "retry_loop E C url baseDelay (Suc left) attempt lastErr w =
     (case (if attempt > 1 then backoff_wait E attempt baseDelay w else (Inr (), w)) of
        (Inl e, w) \<Rightarrow> (Inl e, w)
      | (Inr _, w) \<Rightarrow>
          (case fetch E C url w of
             (Inr resp, w) \<Rightarrow> (Inr resp, w)
           | (Inl e, w) \<Rightarrow> retry_loop E C url baseDelay left (attempt + 1) (Some e) w))"

definition fetch_with_retry ::
  "os_env \<Rightarrow> codec \<Rightarrow> request \<Rightarrow> int \<Rightarrow> int \<Rightarrow> world \<Rightarrow> ripeResp res \<times> world" where
  "fetch_with_retry E C url attempts baseDelay w =
     retry_loop E C url baseDelay (nat attempts) 1 None w"

section \<open>The cache file\<close>

datatype feedSource = SourceNone | SourceFresh | SourceCache

definition source_string :: "feedSource \<Rightarrow> string" where
  "source_string s =
     (case s of SourceFresh \<Rightarrow> ''fresh'' | SourceCache \<Rightarrow> ''cache'' | SourceNone \<Rightarrow> ''unknown'')"

text \<open>\<open>cleanup\<close>: close and remove the temporary file.\<close>

definition cleanup :: "os_env \<Rightarrow> path \<Rightarrow> world \<Rightarrow> world" where
  "cleanup E tmp w = snd (os_remove E tmp (snd (os_close E tmp w)))"

definition write_cached_feed :: "os_env \<Rightarrow> codec \<Rightarrow> path \<Rightarrow> ripeResp \<Rightarrow> world \<Rightarrow> unit res \<times> world" where
  "write_cached_feed E C path resp w =
     (case os_mkdir_all E w of
        (Inl e, w) \<Rightarrow> (Inl (wrapf (''mkdir cache dir '' @ dir_of path @ '': '') e []), w)
      | (Inr _, w) \<Rightarrow>
     (case create_temp E (path @ ''.'') ''.tmp'' w of
        (Inl e, w) \<Rightarrow> (Inl (wrapf ''create temp cache: '' e []), w)
      | (Inr tmpName, w) \<Rightarrow>
     (case os_write E tmpName (fst (gz_encode C (feed_encode resp))) w of
        (Inl e, w) \<Rightarrow> (Inl (wrapf ''encode cache: '' e []), cleanup E tmpName w)
      | (Inr _, w) \<Rightarrow>
     (case os_write E tmpName (snd (gz_encode C (feed_encode resp))) w of
        (Inl e, w) \<Rightarrow> (Inl (wrapf ''close gzip: '' e []), cleanup E tmpName w)
      | (Inr _, w) \<Rightarrow>
     (case os_chmod E tmpName config_file_mode w of
        (Inl e, w) \<Rightarrow> (Inl (wrapf ''chmod cache: '' e []), cleanup E tmpName w)
      | (Inr _, w) \<Rightarrow>
     (case os_close E tmpName w of
        (Inl e, w) \<Rightarrow> (Inl (wrapf ''close cache: '' e []), snd (os_remove E tmpName w))
      | (Inr _, w) \<Rightarrow>
     (case os_rename E tmpName path w of
        (Inl e, w) \<Rightarrow> (Inl (wrapf ''rename cache: '' e []), snd (os_remove E tmpName w))
      | (Inr _, w) \<Rightarrow> (Inr (), w))))))))"

definition read_cached_feed :: "os_env \<Rightarrow> codec \<Rightarrow> path \<Rightarrow> int \<Rightarrow> world \<Rightarrow> (ripeResp \<times> int) res \<times> world" where
  "read_cached_feed E C path maxAge w =
     (case os_stat E path w of
        (Inl e, w) \<Rightarrow>
          (if errors_is e FsErrNotExist then Inl (wrapf [] (errors_new ErrCacheMissing) ('': '' @ path))
           else Inl (wrapf (''stat cache '' @ path @ '': '') e []), w)
      | (Inr modTime, w) \<Rightarrow>
          let age = clock E (calls w) - modTime in
          if age > maxAge
          then (Inl (wrapf [] (errors_new ErrCacheStale)
                  ('': '' @ path @ '' age='' @ duration_string age @ '' max='' @ duration_string maxAge)), w)
          else case os_read_file E path w of
            (Inl e, w) \<Rightarrow> (Inl (wrapf (''open cache '' @ path @ '': '') e []), w)
          | (Inr content, w) \<Rightarrow>
              (case gz_open C content of
                 Inl e \<Rightarrow> Inl (wrapf (''gzip read cache '' @ path @ '': '') e [])
               | Inr plain \<Rightarrow>
                   (case json_decode C plain of
                      Inl e \<Rightarrow> Inl (wrapf (''decode cache '' @ path @ '': '') e [])
                    | Inr resp \<Rightarrow> Inr (resp, age)), w))"

section \<open>isClientError and fetchWithCache\<close>

text \<open>\<open>containsStr\<close>: the loop over every position.\<close>

fun contains_from :: "string \<Rightarrow> string \<Rightarrow> nat \<Rightarrow> nat \<Rightarrow> bool" where
  "contains_from s sub i 0 = False"
| "contains_from s sub i (Suc left) =
     (if take (length sub) (drop i s) = sub then True else contains_from s sub (i + 1) left)"

definition contains_str :: "string \<Rightarrow> string \<Rightarrow> bool" where
  "contains_str s sub =
     (if length sub > length s then False else contains_from s sub 0 (length s - length sub + 1))"

definition is_client_error :: "go_error \<Rightarrow> bool" where
  "is_client_error e =
     (if \<not> errors_is e ErrHTTP then False
      else list_ex (\<lambda>code. contains_str (err_msg e) (''status='' @ nat_str code)) [400..<500])"

definition fetch_with_cache ::
  "os_env \<Rightarrow> codec \<Rightarrow> request \<Rightarrow> path \<Rightarrow> int \<Rightarrow> int \<Rightarrow> int \<Rightarrow> world \<Rightarrow>
     (ripeResp res \<times> feedSource) \<times> world" where
  "fetch_with_cache E C url cachePath cacheMaxAge attempts baseDelay w =
     (case fetch_with_retry E C url attempts baseDelay w of
        (Inr resp, w) \<Rightarrow>
          ((Inr resp, SourceFresh), if cachePath \<noteq> [] then snd (write_cached_feed E C cachePath resp w) else w)
      | (Inl err, w) \<Rightarrow>
          if is_client_error err then ((Inl err, SourceNone), w)
          else if cachePath = [] then ((Inl err, SourceNone), w)
          else case read_cached_feed E C cachePath cacheMaxAge w of
            (Inl cacheErr, w) \<Rightarrow>
              ((Inl (wrapf2 ''fetch failed and cache unusable: fetch='' err '' cache='' cacheErr []), SourceNone), w)
          | (Inr (cached, age), w) \<Rightarrow> ((Inr cached, SourceCache), w))"

section \<open>The retry loop\<close>

lemma fetch_effect:
  assumes "fetch E C url w = (r, w')"
  shows "fs w' = fs w" "history w' = history w @ [fs w]" "sleeps w' = sleeps w" "commands w' = commands w"
    "requests w' = requests w \<or> requests w' = requests w @ [url]"
  using assms by (auto simp: fetch_def tick_def split: http_result.splits)

lemma backoff_effect:
  assumes "backoff_wait E a d w = (r, w')"
  shows "fs w' = fs w" "history w' = history w @ [fs w]" "requests w' = requests w" "commands w' = commands w"
    "r = Inr () \<and> sleeps w' = sleeps w @ [duration_mul (a - 1) d] \<or> (\<exists>e. r = Inl e) \<and> sleeps w' = sleeps w"
  using assms by (auto simp: backoff_wait_def tick_def Let_def split: option.splits)

lemma duration_mul_exact:
  assumes "int64 (a * b)"
  shows "duration_mul a b = a * b"
proof -
  have "duration_mul a b = signed_take_bit 63 (a * b)"
    unfolding duration_mul_def wi_hom_mult sint_sbintrunc' by simp
  then show ?thesis using assms by (simp add: signed_take_bit_int_eq_self int64_def)
qed

text \<open>Files and commands are untouched, whatever the network does.\<close>

lemma retry_loop_fs:
  "retry_loop E C url d left a le w = (r, w') \<Longrightarrow>
    fs w' = fs w \<and> commands w' = commands w \<and> (\<exists>n. history w' = history w @ replicate n (fs w))"
proof (induction left arbitrary: a le w)
  case 0
  then show ?case by (auto intro: exI [of _ 0])
next
  case (Suc left)
  obtain b w1 where b: "(if a > 1 then backoff_wait E a d w else (Inr (), w)) = (b, w1)" by fastforce
  have w1: "fs w1 = fs w" "commands w1 = commands w" "\<exists>n. history w1 = history w @ replicate n (fs w)"
    using b backoff_effect [of E a d w b w1]
    by (auto split: if_splits intro: exI [of _ 0] exI [of _ 1])
  obtain fr w2 where f: "fetch E C url w1 = (fr, w2)" by fastforce
  note w2 = fetch_effect(1,2,4) [OF f]
  have h2: "\<exists>n. history w2 = history w @ replicate n (fs w)"
    using w1 w2 by (metis append_assoc replicate_append_same replicate_Suc)
  show ?case
  proof (cases b)
    case (Inl e)
    then show ?thesis using Suc.prems b w1 by (auto split: if_splits)
  next
    case ok: (Inr u)
    show ?thesis
    proof (cases fr)
      case (Inr resp)
      then show ?thesis using Suc.prems b ok f w1 w2 h2 by (auto split: if_splits)
    next
      case (Inl e)
      then have "retry_loop E C url d left (a + 1) (Some e) w2 = (r, w')"
        using Suc.prems b ok f by (simp split: if_splits)
      then have "fs w' = fs w2 \<and> commands w' = commands w2 \<and> (\<exists>n. history w' = history w2 @ replicate n (fs w2))"
        by (rule Suc.IH)
      then show ?thesis using w1 w2 h2 by (metis append_assoc replicate_add)
    qed
  qed
qed

lemma retry_loop_waits:
  "retry_loop E C url d left (int s + 1) le w = (r, w') \<Longrightarrow> 0 < s \<Longrightarrow>
    \<exists>m k. sleeps w' = sleeps w @ map (\<lambda>i. duration_mul (int i) d) [s..<s + m]
      \<and> requests w' = requests w @ replicate k url \<and> k \<le> m \<and> m \<le> left"
proof (induction left arbitrary: s le w)
  case 0
  then show ?case by (auto intro: exI [of _ 0])
next
  case (Suc left)
  obtain b w1 where b: "backoff_wait E (int s + 1) d w = (b, w1)" by fastforce
  note be = backoff_effect [OF b]
  show ?case
  proof (cases b)
    case (Inl e)
    then have "w' = w1" using Suc.prems b by simp
    then show ?thesis using be Inl by (auto intro: exI [of _ 0])
  next
    case ok: (Inr u)
    then have s1: "sleeps w1 = sleeps w @ [duration_mul (int s) d]" using be by auto
    obtain fr w2 where f: "fetch E C url w1 = (fr, w2)" by fastforce
    note fe = fetch_effect(3,5) [OF f]
    obtain j where j: "requests w2 = requests w @ replicate j url" "j \<le> 1"
      using fe(2) be(3) by (metis append_Nil2 le_numeral_extra(4) replicate_0 replicate_Suc zero_le_one One_nat_def)
    show ?thesis
    proof (cases fr)
      case (Inr resp)
      then have "w' = w2" using Suc.prems b ok f by simp
      then show ?thesis using fe(1) s1 j by (intro exI [of _ 1] exI [of _ j]) simp
    next
      case (Inl e)
      then have "retry_loop E C url d left (int (Suc s) + 1) (Some e) w2 = (r, w')"
        using Suc.prems b ok f by (simp add: add.commute)
      then obtain m k where mk: "sleeps w' = sleeps w2 @ map (\<lambda>i. duration_mul (int i) d) [Suc s..<Suc s + m]"
        "requests w' = requests w2 @ replicate k url" "k \<le> m" "m \<le> left"
        using Suc.IH [of "Suc s"] by blast
      have "sleeps w' = sleeps w @ map (\<lambda>i. duration_mul (int i) d) [s..<s + Suc m]"
        using mk(1) fe(1) s1 upt_conv_Cons [of s "s + Suc m"] by (simp del: upt_Suc)
      moreover have "requests w' = requests w @ replicate (j + k) url"
        using mk(2) j(1) by (simp add: replicate_add)
      ultimately show ?thesis using mk(3,4) j(2)
        by (intro exI [of _ "Suc m"] exI [of _ "j + k"]) simp
    qed
  qed
qed

lemma fetch_with_retry_waits:
  assumes "fetch_with_retry E C url attempts d w = (r, w')" "0 < attempts"
  shows "\<exists>m k. sleeps w' = sleeps w @ map (\<lambda>i. duration_mul (int i) d) [1..<Suc m]
    \<and> requests w' = requests w @ replicate k url \<and> k \<le> Suc m \<and> int m < attempts"
proof -
  obtain n where n: "nat attempts = Suc n" using assms(2) by (metis gr0_implies_Suc zero_less_nat_eq)
  obtain fr w1 where f: "fetch E C url w = (fr, w1)" by fastforce
  note fe = fetch_effect(3,5) [OF f]
  obtain j where j: "requests w1 = requests w @ replicate j url" "j \<le> 1"
    using fe(2) by (metis append_Nil2 le_numeral_extra(4) replicate_0 replicate_Suc zero_le_one One_nat_def)
  show ?thesis
  proof (cases fr)
    case (Inr resp)
    then have "w' = w1" using assms(1) f n by (simp add: fetch_with_retry_def)
    then show ?thesis using fe(1) j assms(2) by (intro exI [of _ 0] exI [of _ j]) simp
  next
    case (Inl e)
    then have "retry_loop E C url d n (int 1 + 1) (Some e) w1 = (r, w')"
      using assms(1) f n by (simp add: fetch_with_retry_def)
    then obtain m k where mk: "sleeps w' = sleeps w1 @ map (\<lambda>i. duration_mul (int i) d) [1..<1 + m]"
      "requests w' = requests w1 @ replicate k url" "k \<le> m" "m \<le> n"
      using retry_loop_waits [of E C url d n 1 "Some e" w1 r w'] by auto
    then show ?thesis
      using fe(1) j n by (intro exI [of _ m] exI [of _ "j + k"]) (simp add: replicate_add)
  qed
qed

section \<open>The cache file\<close>

lemma cleanup_quiet: "quiet tmp w0 w \<Longrightarrow> quiet tmp w0 (cleanup E tmp w)"
  unfolding cleanup_def by (intro quiet_ops)

text \<open>What a call may leave behind: only \<open>tmp\<close> touched, or the new cache file installed.\<close>

definition installed :: "path \<Rightarrow> string \<Rightarrow> path \<Rightarrow> world \<Rightarrow> world \<Rightarrow> int \<Rightarrow> bool" where
  "installed p data tmp w w' t \<longleftrightarrow>
     fs w tmp = None \<and> tmp \<noteq> p \<and> fs w' = (fs w)(p \<mapsto> \<lparr>bytes = data, perm = config_file_mode, mtime = t\<rparr>)
     \<and> commands w' = commands w
     \<and> (\<exists>hs. history w' = history w @ hs @ [fs w'] \<and> list_all (intact tmp (fs w)) hs)"

lemma write_cached_feed_cases:
  assumes "write_cached_feed E C p resp w = (r, w')"
  obtains (failed) e tmp where "r = Inl e" "tmp \<noteq> p" "fs w tmp = None \<or> (\<forall>t. quiet t w w')" "quiet tmp w w'"
  | (written) tmp n where "r = Inr ()" "installed p (fst (gz_encode C (feed_encode resp)) @ snd (gz_encode C (feed_encode resp))) tmp w w' (clock E n)"
proof -
  obtain m w1 where mk: "os_mkdir_all E w = (m, w1)" by fastforce
  note w1 = mkdir_effect [OF mk]
  obtain c w2 where ct: "create_temp E (p @ ''.'') ''.tmp'' w1 = (c, w2)" by fastforce
  have nofile: "quiet t w w1" for t using w1 quiet_tick [OF quiet_refl] by (simp add: intact_def)
  show thesis
  proof (cases "\<exists>u tmp. m = Inr u \<and> c = Inr tmp")
    case False
    have q2: "quiet t w w2" "fs w2 = fs w" if "c = Inl e" for t e
      using create_temp_Inl [of E "p @ ''.''" "''.tmp''" w1 e w2] ct that quiet_tick [OF nofile quiet_fs [OF nofile]] w1
      by simp_all
    have "\<exists>e. r = Inl e" "w' = w1 \<or> w' = w2 \<and> (\<exists>e. c = Inl e)"
      using assms mk ct False by (auto simp: write_cached_feed_def split: sum.splits)
    moreover have "fs w' = fs w" "quiet t w w'" for t using calculation nofile q2 w1 by auto
    ultimately show thesis using failed [of _ "CHR ''x'' # p"] by auto
  next
    case True
    then obtain u tmp where uc: "m = Inr u" "c = Inr tmp" by blast
    note ct' = ct [unfolded uc]
    have fresh: "fs w tmp = None" "tmp \<noteq> p" using create_temp_Inr(1,2) [OF ct'] w1 by auto
    have q2: "quiet tmp w w2" using create_temp_quiet_from [OF nofile ct'] .
    obtain x3 w3 where o3: "os_write E tmp (fst (gz_encode C (feed_encode resp))) w2 = (x3, w3)" by fastforce
    obtain x4 w4 where o4: "os_write E tmp (snd (gz_encode C (feed_encode resp))) w3 = (x4, w4)" by fastforce
    obtain x5 w5 where o5: "os_chmod E tmp config_file_mode w4 = (x5, w5)" by fastforce
    obtain x6 w6 where o6: "os_close E tmp w5 = (x6, w6)" by fastforce
    obtain x7 w7 where o7: "os_rename E tmp p w6 = (x7, w7)" by fastforce
    note q3 = quiet_ops_eq(1) [OF q2 o3]
    note q4 = quiet_ops_eq(1) [OF q3 o4]
    note q5 = quiet_ops_eq(2) [OF q4 o5]
    note q6 = quiet_ops_eq(3) [OF q5 o6]
    note steps = mk ct o3 o4 o5 o6 o7 uc
    show thesis
    proof (cases "\<exists>a b c d e. x3 = Inr a \<and> x4 = Inr b \<and> x5 = Inr c \<and> x6 = Inr d \<and> x7 = Inr e")
      case False
      have "\<exists>e. r = Inl e"
        using assms steps False by (auto simp: write_cached_feed_def split: sum.splits)
      moreover have "quiet tmp w w'"
        using assms steps False cleanup_quiet [OF q3] cleanup_quiet [OF q4] cleanup_quiet [OF q5]
          quiet_ops(4) [OF q6, of E] quiet_ops(4) [OF quiet_ops_eq(5) [OF q6], of E p _ w7 E]
        by (auto simp: write_cached_feed_def split: sum.splits)
      ultimately show thesis using failed fresh by blast
    next
      case True
      then have ok: "r = Inr ()" "w' = w7"
        using assms steps by (auto simp: write_cached_feed_def)
      have w2': "w2 = tick ((fs w1)(tmp \<mapsto> \<lparr>bytes = [], perm = 384, mtime = clock E (calls w1)\<rparr>)) w1"
        using create_temp_Inr(3) [OF ct'] .
      have "w3 = tick (append_bytes E tmp (fst (gz_encode C (feed_encode resp))) w2) w2"
        "w4 = tick (append_bytes E tmp (snd (gz_encode C (feed_encode resp))) w3) w3"
        "w5 = tick ((fs w4)(tmp := map_option (\<lambda>f. f\<lparr>perm := config_file_mode\<rparr>) (fs w4 tmp))) w4"
        "w6 = tick (fs w5) w5"
        using True o3 o4 o5 o6 by (auto simp: os_write_def os_chmod_def os_close_def os_call_Inr)
      then have f6: "fs w6 tmp = Some \<lparr>bytes = fst (gz_encode C (feed_encode resp)) @ snd (gz_encode C (feed_encode resp)),
          perm = config_file_mode, mtime = clock E (calls w3)\<rparr>"
        by (simp add: append_bytes_def w2')
      obtain v where "os_rename E tmp p w6 = (Inr v, w7)" using True o7 by auto
      note rn = quiet_rename [OF q6 f6 fresh this]
      show thesis using written [of tmp "calls w3"] ok fresh rn by (simp add: installed_def)
    qed
  qed
qed

text \<open>Another existing file is kept; nothing but files, requests and waits is touched.\<close>

lemma write_cached_feed_keeps:
  assumes "write_cached_feed E C p resp w = (r, w')" "fs w q \<noteq> None" "q \<noteq> p"
  shows "keeps q w w'"
  using assms(1)
proof (cases rule: write_cached_feed_cases)
  case (failed e tmp)
  show ?thesis by (rule quiet_either_keeps [OF failed(3,4) assms(2)])
next
  case (written tmp n)
  then have "q \<noteq> tmp" using assms(2) by (auto simp: installed_def)
  then show ?thesis
    using written(2) assms(3) by (fastforce simp: installed_def keeps_def intact_def list_all_iff)
qed

text \<open>Where every system call succeeds, the cache file is the only one that can differ afterwards.\<close>

lemma write_cached_feed_calm:
  assumes "\<And>n. fault E n = None" "write_cached_feed E C p resp w = (r, w')"
  obtains c where "fs w' = (fs w)(p := c)"
proof -
  obtain w1 where mk: "os_mkdir_all E w = (Inr (), w1)" "fs w1 = fs w"
    using assms(1) by (simp add: os_mkdir_all_def os_call_def)
  obtain c w2 where ct: "create_temp E (p @ ''.'') ''.tmp'' w1 = (c, w2)" by fastforce
  show thesis
  proof (cases c)
    case (Inl e)
    then have "fs w' = fs w"
      using assms(2) mk ct create_temp_Inl [of E "p @ ''.''" "''.tmp''" w1 e w2] by (simp add: write_cached_feed_def)
    then show thesis using that [of "fs w p"] by simp
  next
    case (Inr tmp)
    note w2 = create_temp_Inr(3) [OF ct [unfolded Inr]]
    have "r = Inr ()"
      using assms mk ct Inr w2
      by (auto simp: write_cached_feed_def os_write_def os_chmod_def os_close_def os_rename_def os_call_def append_bytes_def)
    with assms(2) show thesis
      by (cases rule: write_cached_feed_cases) (auto simp: installed_def intro: that)
  qed
qed

definition outputs :: "world \<Rightarrow> (command \<times> file_system \<times> bool) list \<times> (string \<times> string) list \<times> string" where
  "outputs w = (commands w, sessions w, stdout w)"

lemma effects_outputs: "effects w' = effects w \<Longrightarrow> outputs w' = outputs w"
  by (simp add: effects_def outputs_def)

lemma effects_cleanup [simp]: "effects (cleanup E tmp w) = effects w"
  by (simp add: cleanup_def)

lemma effects_write_cached_feed: "write_cached_feed E C p resp w = (r, w') \<Longrightarrow> effects w' = effects w"
  by (auto simp: write_cached_feed_def os_mkdir_all_def dest!: effects_ops effects_call split: prod.splits sum.splits)

lemma effects_read_cached_feed: "read_cached_feed E C p a w = (r, w') \<Longrightarrow> effects w' = effects w"
  by (auto simp: read_cached_feed_def os_stat_def os_read_file_def Let_def dest!: effects_call
      split: prod.splits sum.splits option.splits if_splits)

lemma retry_loop_outputs: "retry_loop E C url d left a le w = (r, w') \<Longrightarrow> outputs w' = outputs w"
proof (induction left arbitrary: a le w)
  case (Suc left)
  have b: "outputs v = outputs u" if "backoff_wait E a d u = (x, v)" for u v x
    using that by (auto simp: backoff_wait_def Let_def outputs_def tick_def split: option.splits)
  have f: "outputs v = outputs u" if "fetch E C url u = (x, v)" for u v x
    using that by (auto simp: fetch_def outputs_def tick_def split: http_result.splits)
  show ?case
    using Suc by (auto split: prod.splits sum.splits if_splits dest!: b f)
qed (simp add: outputs_def)

section \<open>containsStr\<close>

lemma has_prefix_iff: "has_prefix s p \<longleftrightarrow> (\<exists>t. s = p @ t)"
  unfolding has_prefix_def by (metis append_eq_conv_conj append_take_drop_id)

lemma str_contains_iff: "str_contains s sub \<longleftrightarrow> (\<exists>pre post. s = pre @ sub @ post)"
proof (induction s)
  case (Cons c s)
  have "str_contains (c # s) sub \<longleftrightarrow> has_prefix (c # s) sub \<or> str_contains s sub"
    by (simp add: str_contains_def)
  also have "\<dots> \<longleftrightarrow> (\<exists>pre post. c # s = pre @ sub @ post)"
  proof
    assume "has_prefix (c # s) sub \<or> str_contains s sub"
    then show "\<exists>pre post. c # s = pre @ sub @ post"
      unfolding has_prefix_iff Cons.IH by (metis append_Cons append_Nil)
  next
    assume "\<exists>pre post. c # s = pre @ sub @ post"
    then obtain pre post where e: "c # s = pre @ sub @ post" by blast
    then show "has_prefix (c # s) sub \<or> str_contains s sub"
      unfolding has_prefix_iff Cons.IH by (cases pre) auto
  qed
  finally show ?case .
qed (auto simp: str_contains_def)

lemma contains_from_iff:
  "contains_from s sub i left \<longleftrightarrow> (\<exists>k < left. take (length sub) (drop (i + k) s) = sub)"
proof (induction left arbitrary: i)
  case (Suc left)
  show ?case
  proof
    assume "contains_from s sub i (Suc left)"
    then have "take (length sub) (drop i s) = sub \<or> (\<exists>k < left. take (length sub) (drop (i + 1 + k) s) = sub)"
      using Suc.IH [of "i + 1"] by (simp split: if_splits)
    then show "\<exists>k < Suc left. take (length sub) (drop (i + k) s) = sub"
      by (metis Suc_mono add.right_neutral add_Suc_right add_Suc_shift Suc_eq_plus1 zero_less_Suc)
  next
    assume "\<exists>k < Suc left. take (length sub) (drop (i + k) s) = sub"
    then obtain k where k: "k < Suc left" "take (length sub) (drop (i + k) s) = sub" by blast
    then show "contains_from s sub i (Suc left)"
      using Suc.IH [of "i + 1"] by (cases k) auto
  qed
qed simp

lemma contains_str_iff: "contains_str s sub \<longleftrightarrow> (\<exists>pre post. s = pre @ sub @ post)"
proof
  assume "contains_str s sub"
  then obtain k where "take (length sub) (drop k s) = sub"
    by (auto simp: contains_str_def contains_from_iff simp del: contains_from.simps split: if_splits)
  then show "\<exists>pre post. s = pre @ sub @ post" by (metis append_take_drop_id)
next
  assume "\<exists>pre post. s = pre @ sub @ post"
  then obtain pre post where s: "s = pre @ sub @ post" by blast
  then have "\<exists>k < length s - length sub + 1. take (length sub) (drop (0 + k) s) = sub"
    by (intro exI [of _ "length pre"]) simp
  then show "contains_str s sub"
    unfolding contains_str_def contains_from_iff using s by simp
qed

section \<open>Properties\<close>

lemma contains_str_is_contains: "contains_str s sub = str_contains s sub"
  by (simp only: contains_str_iff str_contains_iff)

lemma write_cached_feed_crash_safe:
  "\<exists>hs. history (snd (write_cached_feed E C p resp w)) = history w @ hs
    \<and> list_all (\<lambda>s. s p = fs w p
        \<or> map_option bytes (s p) = Some (fst (gz_encode C (feed_encode resp)) @ snd (gz_encode C (feed_encode resp)))) hs"
proof -
  obtain r w' where rw: "write_cached_feed E C p resp w = (r, w')" by fastforce
  then show ?thesis
  proof (cases rule: write_cached_feed_cases)
    case (failed e tmp)
    then show ?thesis using rw by (auto simp: quiet_def intact_def list_all_iff)
  next
    case (written tmp n)
    then obtain hs where hs: "history w' = history w @ hs @ [fs w']" "list_all (intact tmp (fs w)) hs"
      by (auto simp: installed_def)
    then show ?thesis
      using rw written(2) by (intro exI [of _ "hs @ [fs w']"]) (auto simp: installed_def intact_def list_all_iff)
  qed
qed

text \<open>A response that was decoded from an answer survives the cache.\<close>

lemma json_decode_again: "json_decode C b = Inr resp \<Longrightarrow> json_decode C (feed_encode resp) = Inr resp"
  by (auto simp: json_decode_def feed_decode_encode dest: feed_decode_valid split: option.splits)

text \<open>C25: Whatever response json.Decode accepted, with any escapes and unknown fields, writeCachedFeed
  stores so that readCachedFeed returns exactly it, if gunzip undoes gzip on what was written and
  the clock stays within the age limit.\<close>

theorem cache_round_trip:
  assumes "write_cached_feed E C p resp w = (Inr u, w')" "json_decode C b = Inr resp" "\<And>n. fault E n = None"
    "\<And>m n. clock E m - clock E n \<le> maxAge" "gz_open C (cache_bytes C resp) = Inr (feed_encode resp)"
  shows "\<exists>age. fst (read_cached_feed E C p maxAge w') = Inr (resp, age) \<and> age \<le> maxAge"
  using assms(1)
proof (cases rule: write_cached_feed_cases)
  case (written tmp n)
  then have f: "fs w' p = Some \<lparr>bytes = cache_bytes C resp, perm = config_file_mode, mtime = clock E n\<rparr>"
    by (simp add: installed_def)
  have "\<not> clock E m - clock E n > maxAge" for m using assms(4) [of m n] by simp
  then show ?thesis
    using f assms(3-5) json_decode_again [OF assms(2)]
    by (simp add: read_cached_feed_def os_stat_def os_read_file_def os_call_def Let_def)
qed simp

lemma read_cached_feed_Inr:
  assumes "read_cached_feed E C p maxAge w = (Inr (r, age), w')"
  shows "\<exists>f n plain. fs w p = Some f \<and> age = clock E n - mtime f \<and> age \<le> maxAge
    \<and> gz_open C (bytes f) = Inr plain \<and> json_decode C plain = Inr r \<and> fs w' = fs w"
  using assms
  by (auto simp: read_cached_feed_def os_stat_def os_read_file_def os_call_def Let_def not_less
      split: prod.splits sum.splits option.splits if_splits)

text \<open>C24: A feed returned by fetchWithCache either is the fresh answer, or comes from a cache file that
  was not older than the limit, after a live fetch that failed with something other than a client
  error, and then no file was changed.\<close>

theorem fetch_with_cache_sources:
  assumes "fetch_with_cache E C url p maxAge attempts d w = ((Inr r, src), w')"
  shows "(src = SourceFresh \<and> (\<exists>w1. fetch_with_retry E C url attempts d w = (Inr r, w1)))
    \<or> (src = SourceCache \<and> fs w' = fs w
       \<and> (\<exists>err w1 f n plain. fetch_with_retry E C url attempts d w = (Inl err, w1) \<and> \<not> is_client_error err
            \<and> fs w p = Some f \<and> clock E n - mtime f \<le> maxAge
            \<and> gz_open C (bytes f) = Inr plain \<and> json_decode C plain = Inr r))"
proof -
  obtain q w1 where q: "fetch_with_retry E C url attempts d w = (q, w1)" by fastforce
  have w1: "fs w1 = fs w"
    using retry_loop_fs q unfolding fetch_with_retry_def by blast
  show ?thesis
  proof (cases q)
    case (Inl err)
    obtain c w2 where rd: "read_cached_feed E C p maxAge w1 = (c, w2)" by fastforce
    have *: "\<not> is_client_error err" "\<exists>age. c = Inr (r, age)" "src = SourceCache" "w' = w2"
      using assms q Inl rd by (auto simp: fetch_with_cache_def split: if_splits sum.splits)
    then show ?thesis
      using read_cached_feed_Inr rd w1 q Inl by metis
  next
    case (Inr resp)
    then show ?thesis using assms q by (auto simp: fetch_with_cache_def)
  qed
qed

lemma retry_loop_failing:
  assumes "\<And>w. fst (fetch E C url w) = Inl e0" "\<And>n. ctx_err E n = None"
  shows "0 < left \<or> le = Some e0 \<Longrightarrow>
    \<exists>w'. retry_loop E C url d left a le w = (Inl (wrapf ''retries exhausted: '' e0 []), w')"
proof (induction left arbitrary: a le w)
  case (Suc left)
  obtain w1 where b: "(if a > 1 then backoff_wait E a d w else (Inr (), w)) = (Inr (), w1)"
    using assms(2) by (cases "a > 1") (auto simp: backoff_wait_def Let_def)
  obtain w2 where f: "fetch E C url w1 = (Inl e0, w2)" using assms(1) [of w1] by (metis prod.collapse)
  show ?case using Suc.IH [of "Some e0" "a + 1" w2] b f by simp
qed simp

lemma nat_str_404: "nat_str 404 = ''404''"
  by code_simp

lemma contains_strI: "s = pre @ sub @ post \<Longrightarrow> contains_str s sub"
  unfolding contains_str_iff by blast

lemma is_client_errorI:
  assumes "errors_is e ErrHTTP" "400 \<le> code" "code < 500" "contains_str (err_msg e) (''status='' @ nat_str code)"
  shows "is_client_error e"
proof -
  have "code \<in> set [400..<500]" using assms(2,3) unfolding set_upt by simp
  then have "list_ex (\<lambda>code. contains_str (err_msg e) (''status='' @ nat_str code)) [400..<500]"
    unfolding list_ex_iff using assms(4) by blast
  then show ?thesis unfolding is_client_error_def using assms(1) by (simp only: simp_thms if_False)
qed

text \<open>
  A server error whose body happens to contain the text of a client status counts as a client
  error, and the cache is not asked.
\<close>

text \<open>C26: isClientError looks at the whole error text: a 503 answer whose body contains status=404 counts
  as a client error and fetchWithCache does not fall back to the cache.\<close>

theorem client_error_from_body:
  assumes "\<And>n. http E n url = Resp 503 b" "str_contains (take 4096 b) ''status=404''"
    "0 < attempts" "\<And>n. ctx_err E n = None"
  shows "\<exists>e w'. fetch_with_cache E C url p maxAge attempts d w = ((Inl e, SourceNone), w')"
proof -
  let ?base = "wrapf [] (errors_new ErrHTTP) ('': status='' @ int_str 503 @ '' body='' @ take 4096 b)"
  let ?e = "wrapf ''retries exhausted: '' ?base []"
  have f: "fst (fetch E C url w) = Inl ?base" for w
    using assms(1) by (simp add: fetch_def limit_error_body_def)
  have "0 < nat attempts" using assms(3) by simp
  then obtain w' where r: "fetch_with_retry E C url attempts d w = (Inl ?e, w')"
    unfolding fetch_with_retry_def using retry_loop_failing [OF f assms(4)] by blast
  obtain pre post where "take 4096 b = pre @ ''status=404'' @ post"
    using assms(2) by (auto simp: str_contains_iff)
  then have "err_msg ?e = (''retries exhausted: '' @ sentinel_text ErrHTTP @ '': status='' @ int_str 503
      @ '' body='' @ pre) @ (''status='' @ nat_str 404) @ post"
    by (simp add: nat_str_404)
  then have "contains_str (err_msg ?e) (''status='' @ nat_str 404)" by (rule contains_strI)
  then have "is_client_error ?e"
    by (rule is_client_errorI [rotated -1]) simp_all
  then show ?thesis using r by (simp add: fetch_with_cache_def)
qed

theorem cache_answers:
  assumes "fetch_with_retry E C url attempts d w = (Inl err, w1)" "\<not> is_client_error err" "p \<noteq> []"
    "fs w p = Some f" "\<And>n. fault E n = None" "\<And>n. clock E n - mtime f \<le> maxAge"
    "gz_open C (bytes f) = Inr plain" "json_decode C plain = Inr r"
  shows "fst (fetch_with_cache E C url p maxAge attempts d w) = (Inr r, SourceCache)"
proof -
  have "fs w1 = fs w" using retry_loop_fs assms(1) unfolding fetch_with_retry_def by blast
  moreover have "\<not> maxAge < clock E n - mtime f" for n using assms(6) [of n] by simp
  ultimately have "\<exists>age w2. read_cached_feed E C p maxAge w1 = (Inr (r, age), w2)"
    using assms(4,5,7,8)
    by (simp add: read_cached_feed_def os_stat_def os_read_file_def os_call_def Let_def)
  then show ?thesis using assms(1-3) by (auto simp: fetch_with_cache_def)
qed

text \<open>C27: fetchWithRetry makes at most the configured number of requests, and waits baseDelay, 2
  baseDelay, 3 baseDelay and so on between them, each product wrapped to 64 bits; none wraps while
  attempts times baseDelay fits.\<close>

theorem fetch_attempts_bounded:
  assumes "0 < attempts" "fetch_with_retry E C url attempts d w = (r, w')"
  shows "\<exists>m k. sleeps w' = sleeps w @ map (\<lambda>i. duration_mul (int i) d) [1..<Suc m]
    \<and> requests w' = requests w @ replicate k url \<and> k \<le> Suc m \<and> int m < attempts
    \<and> (0 \<le> d \<and> attempts * d < 2 ^ 63 \<longrightarrow> sleeps w' = sleeps w @ map (\<lambda>i. int i * d) [1..<Suc m])"
proof -
  obtain m k where mk: "sleeps w' = sleeps w @ map (\<lambda>i. duration_mul (int i) d) [1..<Suc m]"
    "requests w' = requests w @ replicate k url" "k \<le> Suc m" "int m < attempts"
    using fetch_with_retry_waits [OF assms(2,1)] by blast
  have "map (\<lambda>i. duration_mul (int i) d) [1..<Suc m] = map (\<lambda>i. int i * d) [1..<Suc m]"
    if "0 \<le> d" "attempts * d < 2 ^ 63"
  proof (intro map_cong refl duration_mul_exact)
    fix i
    assume "i \<in> set [1..<Suc m]"
    then have "int i \<le> attempts" using mk(4) by auto
    then have "int i * d < 2 ^ 63" "0 \<le> int i * d"
      using mult_right_mono [of "int i" attempts d] that by simp_all
    then show "int64 (int i * d)" by (simp add: int64_def)
  qed
  then show ?thesis using mk by (intro exI [of _ m] exI [of _ k]) simp
qed

section \<open>Concrete runs\<close>

text \<open>An answer, and a codec that marks what it has packed.\<close>

definition sample_body :: string where
  "sample_body =
     ''{'' @ [CHR 0x22] @ ''status'' @ [CHR 0x22] @ '':'' @ [CHR 0x22] @ ''ok'' @ [CHR 0x22] @
     '','' @ [CHR 0x22] @ ''data'' @ [CHR 0x22] @ '':{'' @ [CHR 0x22] @ ''resources'' @
     [CHR 0x22] @ '':{'' @ [CHR 0x22] @ ''ipv4'' @ [CHR 0x22] @ '':['' @ [CHR 0x22] @
     ''10.0.0.0/8'' @ [CHR 0x22] @ ''],'' @ [CHR 0x22] @ ''ipv6'' @ [CHR 0x22] @ '':null}}}'' @ [nl]"

abbreviation sample_resp :: ripeResp where
  "sample_resp \<equiv> \<lparr>Status = ''ok'', Data = \<lparr>Resources = \<lparr>res_IPv4 = Some [''10.0.0.0/8''], res_IPv6 = None\<rparr>\<rparr>\<rparr>"

definition sample_codec :: codec where
  "sample_codec = \<lparr>json_error = \<lambda>_. GoErr [] ''unexpected EOF'', gz_encode = \<lambda>s. (''g'', s),
     gz_open = \<lambda>s. if has_prefix s ''g'' then Inr (tl s) else Inl (GoErr [] ''gzip: invalid header'')\<rparr>"

abbreviation cached_file :: file_system where
  "cached_file \<equiv> [''c'' \<mapsto> \<lparr>bytes = ''g'' @ sample_body, perm = 416, mtime = 0\<rparr>]"

lemma sample_gzip [simp]: "gz_encode sample_codec s = (''g'', s)" "gz_open sample_codec (CHR ''g'' # s) = Inr s"
  by (simp_all add: sample_codec_def has_prefix_def)

lemma sample_body_encoded: "feed_encode sample_resp = sample_body"
  by (simp add: feed_encode_def resp_json_def slice_json_def json_quote_def json_escape_ascii escape_ascii_def sample_body_def)

lemma sample_body_decodes [simp]: "json_decode C sample_body = Inr sample_resp"
proof -
  have "feed_valid sample_resp" by (simp add: feed_valid_def slice_valid_def elements_def utf8_valid_ascii)
  from feed_decode_encode [OF this] show ?thesis by (simp add: json_decode_def sample_body_encoded)
qed

lemma sample_body_short [simp]: "take max_body_bytes sample_body = sample_body"
proof -
  have "length sample_body \<le> max_body_bytes" by (simp add: sample_body_def max_body_bytes_def)
  then show ?thesis by simp
qed

lemma sample_resp_lists [simp]: "IPv4 sample_resp = [''10.0.0.0/8'']" "IPv6 sample_resp = []"
  by (simp_all add: IPv4_def IPv6_def elements_def)

lemma cache_round_trip_witness:
  "\<exists>w' age. write_cached_feed calm sample_codec ''c'' sample_resp (start_world Map.empty) = (Inr (), w')
     \<and> fst (read_cached_feed calm sample_codec ''c'' 5 w') = Inr (sample_resp, age) \<and> age \<le> 5"
proof -
  have "fst (write_cached_feed calm sample_codec ''c'' sample_resp (start_world Map.empty)) = Inr ()"
    by (simp add: write_cached_feed_def os_mkdir_all_def create_temp_def temp_name_first os_call_def os_write_def
        os_chmod_def os_close_def os_rename_def append_bytes_def)
  then obtain w' where w: "write_cached_feed calm sample_codec ''c'' sample_resp (start_world Map.empty) = (Inr (), w')"
    by (metis prod.collapse)
  then show ?thesis using cache_round_trip [OF w sample_body_decodes, of 5] by simp
qed

lemma sample_fetch_fails:
  "fetch_with_retry calm sample_codec url 1 d w =
    (Inl (wrapf ''retries exhausted: '' (wrapf ''http do: '' (GoErr [] ''timeout'') []) []),
     (tick (fs w) w)\<lparr>requests := requests w @ [url]\<rparr>)"
  by (simp add: fetch_with_retry_def fetch_def)

lemma sample_not_client:
  "\<not> is_client_error (wrapf ''retries exhausted: '' (wrapf ''http do: '' (GoErr [] ''timeout'') []) [])"
  by (simp add: is_client_error_def errors_is_def wrapf_def)

lemma cache_answers_witness:
  "fst (fetch_with_cache calm sample_codec (''u'', 1) ''c'' 5 1 0 (start_world cached_file)) = (Inr sample_resp, SourceCache)"
  by (rule cache_answers [OF sample_fetch_fails sample_not_client, where plain = sample_body
        and f = "\<lparr>bytes = ''g'' @ sample_body, perm = 416, mtime = 0\<rparr>"]) simp_all

lemma fetch_with_cache_sources_witness:
  "\<exists>w'. fetch_with_cache calm sample_codec (''u'', 1) ''c'' 5 1 0 (start_world cached_file) = ((Inr sample_resp, SourceCache), w')
     \<and> fs w' = cached_file"
proof -
  obtain w' where w: "fetch_with_cache calm sample_codec (''u'', 1) ''c'' 5 1 0 (start_world cached_file)
      = ((Inr sample_resp, SourceCache), w')"
    by (simp add: fetch_with_cache_def sample_fetch_fails sample_not_client read_cached_feed_def os_stat_def
        os_read_file_def os_call_def)
  then show ?thesis using fetch_with_cache_sources [OF w] by simp
qed

lemma client_error_from_body_witness:
  "\<exists>e w'. fetch_with_cache (calm\<lparr>http := \<lambda>_ _. Resp 503 ''status=404''\<rparr>) sample_codec (''u'', 1) ''c'' 5 3 0 (start_world cached_file)
     = ((Inl e, SourceNone), w')"
  by (rule client_error_from_body [where b = "''status=404''"])
    (simp_all add: str_contains_def has_prefix_def)

lemma fetch_attempts_bounded_witness:
  "\<exists>m k. sleeps (snd (fetch_with_retry calm sample_codec (''u'', 1) 3 7 (start_world Map.empty))) = map (\<lambda>i. int i * 7) [1..<Suc m]
    \<and> requests (snd (fetch_with_retry calm sample_codec (''u'', 1) 3 7 (start_world Map.empty))) = replicate k (''u'', 1) \<and> k \<le> Suc m \<and> int m < 3"
  using fetch_attempts_bounded [of 3 calm sample_codec "(''u'', 1)" 7 "start_world Map.empty"
    "fst (fetch_with_retry calm sample_codec (''u'', 1) 3 7 (start_world Map.empty))"
    "snd (fetch_with_retry calm sample_codec (''u'', 1) 3 7 (start_world Map.empty))"] by (simp del: upt_Suc) blast

end
