(* ===== verification/Target.thy ===== *)
theory Target
  imports Iosxe Files
begin

text \<open>
  The targets other than FRR: \<open>runTarget\<close> and \<open>writeTargetOutput\<close> of target.go, and the
  SSH session of iosxe\_ssh.go. What the key parser, the known\_hosts reader, the network and the
  device answer is a parameter, the record \<open>ssh_env\<close>; the state records the host and the script of
  every shell that was started. The results: a dry run changes nothing, a device is only reached
  when the guard let the run through, the configuration is saved only after an output that passed
  the check, and an artifact file is written as a whole.
\<close>

section \<open>The SSH session\<close>

text \<open>
  How a shell ends: the context is done first, writing the script, closing the input or waiting
  for the shell fails, or it exits with status 0. Either way there is the output so far.
\<close>

datatype ssh_end = SshTimeout go_error | SshFailed go_error | SshDone

record ssh_env =
  parse_private_key :: "string \<Rightarrow> go_error option"
  load_known_hosts :: "path \<Rightarrow> go_error option"
  dial_tcp :: "nat \<Rightarrow> int \<Rightarrow> string \<Rightarrow> go_error option"
  ssh_handshake :: "nat \<Rightarrow> string \<Rightarrow> string \<Rightarrow> go_error option"
  new_session :: "nat \<Rightarrow> go_error option"
  request_pty :: "nat \<Rightarrow> go_error option"
  stdin_pipe :: "nat \<Rightarrow> go_error option"
  start_shell :: "nat \<Rightarrow> go_error option"
  shell_run :: "nat \<Rightarrow> int \<Rightarrow> string \<Rightarrow> string \<Rightarrow> string \<times> ssh_end"

text \<open>A step outside the file system that may fail.\<close>

definition net_call :: "go_error option \<Rightarrow> world \<Rightarrow> unit res \<times> world" where
  "net_call r w = ((case r of Some e \<Rightarrow> Inl e | None \<Rightarrow> Inr ()), tick (fs w) w)"

text \<open>\<open>net.JoinHostPort\<close>.\<close>

definition join_host_port :: "string \<Rightarrow> string \<Rightarrow> string" where
  "join_host_port h port = (if CHR '':'' \<in> set h then ''['' @ h @ '']:'' @ port else h @ '':'' @ port)"

definition ssh_addr :: "cliFlags \<Rightarrow> string" where
  "ssh_addr f = join_host_port (iosxeSSHHost f) (int_str (iosxeSSHPort f))"

text \<open>The timeout of the dial and of the whole session.\<close>

definition ssh_timeout :: "cliFlags \<Rightarrow> int" where
  "ssh_timeout f = (if iosxeSSHTimeout f \<le> 0 then 30 * second else iosxeSSHTimeout f)"

definition dial_iosxe_ssh :: "os_env \<Rightarrow> ssh_env \<Rightarrow> cliFlags \<Rightarrow> world \<Rightarrow> unit res \<times> world" where
  "dial_iosxe_ssh E S f w =
     (case os_read_file E (iosxeSSHKeyFile f) w of
        (Inl e, w) \<Rightarrow> (Inl (wrapf ''read ssh key: '' e []), w)
      | (Inr key, w) \<Rightarrow>
     (case parse_private_key S key of
        Some e \<Rightarrow> (Inl (wrapf ''parse ssh key: '' e []), w)
      | None \<Rightarrow>
     (case load_known_hosts S (iosxeKnownHostsFile f) of
        Some e \<Rightarrow> (Inl (wrapf ''load known_hosts: '' e []), w)
      | None \<Rightarrow>
     (case net_call (dial_tcp S (calls w) (ssh_timeout f) (ssh_addr f)) w of
        (Inl e, w) \<Rightarrow> (Inl (wrapf ''dial ssh: '' e []), w)
      | (Inr _, w) \<Rightarrow>
     (case net_call (ssh_handshake S (calls w) (ssh_addr f) (iosxeSSHUser f)) w of
        (Inl e, w) \<Rightarrow> (Inl (wrapf ''ssh handshake: '' e []), w)
      | (Inr _, w) \<Rightarrow> (Inr (), w))))))"

text \<open>
  The output and the error. The timeout is passed to what it bounds, the dial and the wait for the
  shell; the handshake and the requests in between do not look at it.
\<close>

definition run_iosxe_ssh_script ::
  "os_env \<Rightarrow> ssh_env \<Rightarrow> cliFlags \<Rightarrow> string \<Rightarrow> world \<Rightarrow> (string \<times> unit res) \<times> world" where
  "run_iosxe_ssh_script E S f script w =
     (case dial_iosxe_ssh E S f w of
        (Inl e, w) \<Rightarrow> (([], Inl e), w)
      | (Inr _, w) \<Rightarrow>
     (case net_call (new_session S (calls w)) w of
        (Inl e, w) \<Rightarrow> (([], Inl (wrapf ''new ssh session: '' e [])), w)
      | (Inr _, w) \<Rightarrow>
     (case net_call (request_pty S (calls w)) w of
        (Inl e, w) \<Rightarrow> (([], Inl (wrapf ''request pty: '' e [])), w)
      | (Inr _, w) \<Rightarrow>
     (case net_call (stdin_pipe S (calls w)) w of
        (Inl e, w) \<Rightarrow> (([], Inl (wrapf ''stdin pipe: '' e [])), w)
      | (Inr _, w) \<Rightarrow>
     (case net_call (start_shell S (calls w)) w of
        (Inl e, w) \<Rightarrow> (([], Inl (wrapf ''start shell: '' e [])), w)
      | (Inr _, w) \<Rightarrow>
     (let (out, end) = shell_run S (calls w) (ssh_timeout f) (ssh_addr f) script;
          w = (tick (fs w) w)\<lparr>sessions := sessions w @ [(ssh_addr f, script)]\<rparr>
      in case end of
        SshTimeout e \<Rightarrow> ((out, Inl (wrapf ''ssh script timeout: '' e [])), w)
      | SshFailed e \<Rightarrow>
          ((out, Inl (wrapf ''ssh script failed: '' e ('' output='' @ trim_command_output out))), w)
      | SshDone \<Rightarrow> ((out, Inr ()), w)))))))"

definition save_script :: string where
  "save_script = ''terminal length 0'' @ [nl] @ ''write memory'' @ [nl] @ ''exit'' @ [nl]"

definition apply_iosxe_over_ssh ::
  "os_env \<Rightarrow> ssh_env \<Rightarrow> cliFlags \<Rightarrow> string \<Rightarrow> world \<Rightarrow> unit res \<times> world" where
  "apply_iosxe_over_ssh E S f candidate w =
     (case run_iosxe_ssh_script E S f (build_iosxe_apply_script f candidate) w of
        ((_, Inl e), w) \<Rightarrow> (Inl (wrapf ''iosxe ssh apply: '' e []), w)
      | ((out, Inr _), w) \<Rightarrow>
     (case verify_iosxe_apply_output f out of
        Inl e \<Rightarrow> (Inl e, w)
      | Inr _ \<Rightarrow>
     (if \<not> iosxeSaveConfig f then (Inr (), w)
      else case run_iosxe_ssh_script E S f save_script w of
        ((_, Inl e), w) \<Rightarrow> (Inl (wrapf ''iosxe ssh save: '' e []), w)
      | ((out, Inr _), w) \<Rightarrow>
          if str_contains out ''% Invalid'' \<or> str_contains out ''% Ambiguous''
          then (Inl (wrapf [] (errors_new ErrIOSXESaveRejected) ('': '' @ trim_command_output out)), w)
          else (Inr (), w))))"

section \<open>writeTargetOutput and runTarget\<close>

text \<open>\<open>fmt.Fprintln(os.Stdout, s)\<close>: a failing write may have printed a part.\<close>

definition os_println :: "os_env \<Rightarrow> string \<Rightarrow> world \<Rightarrow> unit res \<times> world" where
  "os_println E s w =
     (case fault E (calls w) of
        Some e \<Rightarrow> (Inl e, (tick (fs w) w)\<lparr>stdout := stdout w @ take (partial E (calls w)) (s @ [nl])\<rparr>)
      | None \<Rightarrow> (Inr (), (tick (fs w) w)\<lparr>stdout := stdout w @ s @ [nl]\<rparr>))"

definition write_target_output :: "os_env \<Rightarrow> path \<Rightarrow> string \<Rightarrow> world \<Rightarrow> unit res \<times> world" where
  "write_target_output E path content w =
     (if path = [] \<or> path = ''-'' then
        (case os_println E content w of
           (Inl e, w) \<Rightarrow> (Inl (wrapf ''write stdout: '' e []), w)
         | (Inr _, w) \<Rightarrow> (Inr (), w))
      else
        (case atomic_write E path (content @ [nl]) w of
           (Inl e, w) \<Rightarrow> (Inl (wrapf ''write target output: '' e []), w)
         | (Inr _, w) \<Rightarrow> (Inr (), w)))"

text \<open>The rendering step of \<open>runTarget\<close>.\<close>

definition target_candidate :: "cliFlags \<Rightarrow> nprefix list \<Rightarrow> string res" where
  "target_candidate f v4Agg =
     (if target f = ''file'' then Inr (render_prefix_lines v4Agg)
      else if target f = ''iosxe'' then Inr (render_iosxe_candidate f v4Agg)
      else Inl (wrapf [] (errors_new ErrUnsupportedTarget) ('': '' @ go_quote (target f))))"

definition run_target :: "os_env \<Rightarrow> ssh_env \<Rightarrow> cliFlags \<Rightarrow> nprefix list \<Rightarrow> world \<Rightarrow> unit res \<times> world" where
  "run_target E S f v4Agg w =
     (case ctx_err E (calls w) of
        Some e \<Rightarrow> (Inl (wrapf ''target context: '' e []), w)
      | None \<Rightarrow>
     (case target_candidate f v4Agg of
        Inl e \<Rightarrow> (Inl e, w)
      | Inr candidate \<Rightarrow>
          if dryRun f then (Inr (), w)
          else if targetMode f \<noteq> ''render'' then
            (case validate_iosxe_apply_guard f (int (length v4Agg)) of
               Inl e \<Rightarrow> (Inl e, w)
             | Inr _ \<Rightarrow> apply_iosxe_over_ssh E S f candidate w)
          else write_target_output E (targetOutput f) candidate w))"

section \<open>What a session changes\<close>

text \<open>From \<open>w\<close> to \<open>w'\<close> the sessions \<open>ss\<close> were run and nothing else changed.\<close>

definition ran :: "(string \<times> string) list \<Rightarrow> world \<Rightarrow> world \<Rightarrow> bool" where
  "ran ss w w' \<longleftrightarrow> sessions w' = sessions w @ ss \<and> fs w' = fs w \<and> commands w' = commands w
     \<and> stdout w' = stdout w \<and> requests w' = requests w \<and> (\<exists>n. history w' = history w @ replicate n (fs w))"

lemma ran_refl: "ran [] w w"
  by (auto simp: ran_def intro: exI [of _ 0])

lemma ran_trans: "ran ss w w' \<Longrightarrow> ran ts w' w'' \<Longrightarrow> ran (ss @ ts) w w''"
  by (auto simp: ran_def replicate_add [symmetric])

lemma ran_trans_silent: "ran [] w w' \<Longrightarrow> ran ts w' w'' \<Longrightarrow> ran ts w w''"
  using ran_trans [of "[]"] by simp

lemma ran_step: "ran [] w (tick (fs w) w)" "ran [x] w ((tick (fs w) w)\<lparr>sessions := sessions w @ [x]\<rparr>)"
  by (auto simp: ran_def tick_def intro: exI [of _ 1])

lemma net_call_ran: "net_call r w = (x, w') \<Longrightarrow> ran [] w w'"
  using ran_step(1) [of w] by (auto simp: net_call_def)

lemma read_key_ran: "os_read_file E p w = (x, w') \<Longrightarrow> ran [] w w'"
  using ran_step(1) [of w] by (auto simp: os_read_file_def os_call_def split: option.splits)

lemma dial_ran: "dial_iosxe_ssh E S f w = (x, w') \<Longrightarrow> ran [] w w'"
  by (auto simp: dial_iosxe_ssh_def split: prod.splits sum.splits option.splits
      dest!: net_call_ran read_key_ran intro: ran_trans_silent)

lemma script_ran:
  assumes "run_iosxe_ssh_script E S f script w = ((out, r), w')"
  shows "ran [] w w' \<and> (\<exists>e. r = Inl e) \<or> ran [(ssh_addr f, script)] w w'"
  using assms unfolding run_iosxe_ssh_script_def Let_def
  by (auto split: prod.splits sum.splits ssh_end.splits dest!: net_call_ran dial_ran)
    (metis ran_trans_silent ran_step(2))+

text \<open>What the output of a started shell was.\<close>

lemma script_done:
  assumes "run_iosxe_ssh_script E S f script w = ((out, Inr u), w')"
  shows "ran [(ssh_addr f, script)] w w'" "\<exists>n. shell_run S n (ssh_timeout f) (ssh_addr f) script = (out, SshDone)"
proof -
  show "ran [(ssh_addr f, script)] w w'" using script_ran [OF assms] by simp
  show "\<exists>n. shell_run S n (ssh_timeout f) (ssh_addr f) script = (out, SshDone)"
    using assms unfolding run_iosxe_ssh_script_def Let_def
    by (auto split: prod.splits sum.splits ssh_end.splits)
qed

text \<open>How an apply ends: before it was accepted, accepted, or accepted and the save was tried.\<close>

lemma apply_iosxe_cases:
  assumes "apply_iosxe_over_ssh E S f candidate w = (r, w')"
  defines "A \<equiv> (ssh_addr f, build_iosxe_apply_script f candidate)" and "B \<equiv> (ssh_addr f, save_script)"
  obtains (failed) e ss where "r = Inl e" "ran ss w w'" "ss \<in> {[], [A]}"
  | (applied) n out where "r = Inr ()" "ran [A] w w'" "\<not> iosxeSaveConfig f"
      "shell_run S n (ssh_timeout f) (fst A) (snd A) = (out, SshDone)" "verify_iosxe_apply_output f out = Inr ()"
  | (saved) n out ss where "ran ss w w'" "ss = [A, B] \<or> ss = [A] \<and> r \<noteq> Inr ()" "iosxeSaveConfig f"
      "shell_run S n (ssh_timeout f) (fst A) (snd A) = (out, SshDone)" "verify_iosxe_apply_output f out = Inr ()"
proof -
  obtain out r1 w1 where s: "run_iosxe_ssh_script E S f (snd A) w = ((out, r1), w1)"
    by (metis prod.collapse)
  note s' = s [unfolded A_def, simplified]
  show thesis
  proof (cases r1)
    case (Inl e)
    then have "(r, w') = (Inl (wrapf ''iosxe ssh apply: '' e []), w1)"
      unfolding assms(1) [symmetric] using s' by (simp add: apply_iosxe_over_ssh_def)
    then show thesis using script_ran [OF s] failed [of _ "[]"] failed [of _ "[A]"] by (auto simp: A_def)
  next
    case (Inr u)
    have a: "ran [A] w w1" using script_done(1) [OF s [unfolded Inr]] by (simp add: A_def)
    obtain n where n: "shell_run S n (ssh_timeout f) (fst A) (snd A) = (out, SshDone)"
      using script_done(2) [OF s [unfolded Inr]] by (auto simp: A_def)
    show thesis
    proof (cases "verify_iosxe_apply_output f out")
      case (Inl e)
      have "(r, w') = (Inl e, w1)"
        unfolding assms(1) [symmetric] using s' \<open>r1 = Inr u\<close> Inl by (simp add: apply_iosxe_over_ssh_def)
      then show thesis using failed a by simp
    next
      case v: (Inr v)
      show thesis
      proof (cases "iosxeSaveConfig f")
        case False
        have "(r, w') = (Inr (), w1)"
          unfolding assms(1) [symmetric] using s' \<open>r1 = Inr u\<close> v False by (simp add: apply_iosxe_over_ssh_def)
        then show thesis using applied [of n out] a n v False by simp
      next
        case True
        obtain out2 r2 w2 where t: "run_iosxe_ssh_script E S f save_script w1 = ((out2, r2), w2)"
          by (metis prod.collapse)
        have w': "w' = w2 \<and> (r = Inr () \<longrightarrow> r2 = Inr ())"
          using assms(1) s' t \<open>r1 = Inr u\<close> v True
          by (cases r2) (auto simp: apply_iosxe_over_ssh_def split: if_splits)
        have "ran ([A] @ [B]) w w2 \<or> ran ([A] @ []) w w2 \<and> r \<noteq> Inr ()"
          using script_ran [OF t] w' ran_trans [OF a] unfolding B_def by blast
        then show thesis using saved [of "[A, B]"] saved [of "[A]"] w' n v True by auto
      qed
    qed
  qed
qed

text \<open>C28: applyIOSXEOverSSH runs at most the apply script and then the save script, changes nothing else,
  saves only if asked to and only after an output that passed the check, and succeeds only if all
  of that was done.\<close>

theorem apply_iosxe_sessions:
  assumes "apply_iosxe_over_ssh E S f candidate w = (r, w')"
  shows "\<exists>ss. ran ss w w'
    \<and> ss \<in> {[], [(ssh_addr f, build_iosxe_apply_script f candidate)],
        [(ssh_addr f, build_iosxe_apply_script f candidate), (ssh_addr f, save_script)]}
    \<and> (r = Inr () \<longrightarrow> length ss = (if iosxeSaveConfig f then 2 else 1))
    \<and> (length ss = 2 \<longrightarrow> iosxeSaveConfig f)
    \<and> (r = Inr () \<or> length ss = 2 \<longrightarrow>
         (\<exists>n out. shell_run S n (ssh_timeout f) (ssh_addr f) (build_iosxe_apply_script f candidate) = (out, SshDone)
            \<and> verify_iosxe_apply_output f out = Inr ()))"
  using assms
proof (cases rule: apply_iosxe_cases)
  case (failed e ss)
  then show ?thesis by (intro exI [of _ ss]) auto
next
  case (applied n out)
  then show ?thesis by (intro exI [of _ "[(ssh_addr f, build_iosxe_apply_script f candidate)]"]) auto
next
  case (saved n out ss)
  then show ?thesis by (intro exI [of _ ss]) auto
qed

text \<open>C29: runTarget starts a shell on a device only outside a dry run, in apply mode, within the prefix
  limit and with host, user, key and known_hosts all set.\<close>

theorem run_target_guarded:
  assumes "run_target E S f v4Agg w = (r, w')" "sessions w' \<noteq> sessions w"
  shows "\<not> dryRun f \<and> targetMode f = ''apply'' \<and> target f \<in> {''file'', ''iosxe''}
    \<and> (iosxeApplyMaxPrefixes f \<le> 0 \<or> int (length v4Agg) \<le> iosxeApplyMaxPrefixes f)
    \<and> iosxeSSHHost f \<noteq> [] \<and> iosxeSSHUser f \<noteq> [] \<and> iosxeSSHKeyFile f \<noteq> [] \<and> iosxeKnownHostsFile f \<noteq> []"
proof -
  have out: "sessions x = sessions w" if "write_target_output E p c w = (y, x)" for p c x y
  proof -
    have "sessions x = sessions w" if "atomic_write E q d w = (z, x)" for q d z x
      using effects_atomic_write [OF that] by (simp add: effects_def)
    then show ?thesis using that
      by (auto simp: write_target_output_def os_println_def tick_def split: if_splits prod.splits sum.splits option.splits)
  qed
  have "validate_iosxe_apply_guard f (int (length v4Agg)) = Inr ()" "\<not> dryRun f" "target f \<in> {''file'', ''iosxe''}"
    using assms out
    by (auto simp: run_target_def target_candidate_def split: option.splits sum.splits if_splits)
  then show ?thesis unfolding apply_guard_iff by simp
qed

lemma run_target_renders:
  assumes "run_target E S f v4Agg w = (r, w')" "\<not> dryRun f" "targetMode f = ''render''"
    "targetOutput f \<noteq> []" "targetOutput f \<noteq> ''-''"
  shows "(r = Inr () \<longrightarrow> (\<exists>candidate. target_candidate f v4Agg = Inr candidate
        \<and> contents w' (targetOutput f) = Some (candidate @ [nl])))
    \<and> (r \<noteq> Inr () \<longrightarrow> contents w' (targetOutput f) = contents w (targetOutput f)) \<and> effects w' = effects w"
proof (cases "ctx_err E (calls w)")
  case (Some e)
  then show ?thesis using assms(1) by (auto simp: run_target_def)
next
  case None
  show ?thesis
  proof (cases "target_candidate f v4Agg")
    case (Inl e)
    then show ?thesis using assms(1) None by (auto simp: run_target_def)
  next
    case (Inr c)
    obtain x w1 where a: "atomic_write E (targetOutput f) (c @ [nl]) w = (x, w1)" by fastforce
    have "w' = w1" "r = Inr () \<longleftrightarrow> x = Inr ()"
      using assms a None Inr by (auto simp: run_target_def write_target_output_def split: sum.splits)
    then show ?thesis
      using a Inr effects_atomic_write [OF a] by (cases x) (auto dest: aw.put_ok aw.put_fail)
  qed
qed

section \<open>A concrete device\<close>

abbreviation sshd :: "string \<Rightarrow> ssh_env" where
  "sshd out \<equiv> \<lparr>parse_private_key = \<lambda>_. None, load_known_hosts = \<lambda>_. None, dial_tcp = \<lambda>_ _ _. None,
     ssh_handshake = \<lambda>_ _ _. None, new_session = \<lambda>_. None, request_pty = \<lambda>_. None, stdin_pipe = \<lambda>_. None,
     start_shell = \<lambda>_. None, shell_run = \<lambda>_ _ _ _. (out, SshDone)\<rparr>"

abbreviation device_flags :: cliFlags where
  "device_flags \<equiv> no_flags\<lparr>target := ''iosxe'', targetMode := ''apply'', iosxePrefixList := ''PL'',
     iosxeSSHHost := ''h'', iosxeSSHUser := ''u'', iosxeSSHKeyFile := ''f'', iosxeKnownHostsFile := ''k''\<rparr>"

lemma sample_apply:
  "\<exists>w'. apply_iosxe_over_ssh calm (sshd ''PL'') device_flags candidate (start_world old_file) = (Inr (), w')
    \<and> length (sessions w') = 1"
  by (simp add: apply_iosxe_over_ssh_def run_iosxe_ssh_script_def dial_iosxe_ssh_def net_call_def os_read_file_def
      os_call_def verify_iosxe_apply_output_def rejections_def required_def str_contains_def has_prefix_def tick_def)

lemma apply_iosxe_sessions_witness:
  "\<exists>w'. apply_iosxe_over_ssh calm (sshd ''PL'') device_flags ''x'' (start_world old_file) = (Inr (), w')
    \<and> sessions w' = [(''h:'' @ int_str 0, build_iosxe_apply_script device_flags ''x'')]"
proof -
  obtain w' where w: "apply_iosxe_over_ssh calm (sshd ''PL'') device_flags ''x'' (start_world old_file) = (Inr (), w')"
    "length (sessions w') = 1"
    using sample_apply by blast
  then show ?thesis
    using apply_iosxe_sessions [OF w(1)] by (auto simp: ran_def ssh_addr_def join_host_port_def)
qed

lemma run_target_guarded_witness:
  "\<exists>r w'. run_target calm (sshd ''PL'') device_flags [] (start_world old_file) = (r, w') \<and> sessions w' \<noteq> []
    \<and> targetMode device_flags = ''apply''"
proof -
  obtain w' where w: "apply_iosxe_over_ssh calm (sshd ''PL'') device_flags (render_iosxe_candidate device_flags [])
      (start_world old_file) = (Inr (), w')" "length (sessions w') = 1"
    using sample_apply by blast
  then have r: "run_target calm (sshd ''PL'') device_flags [] (start_world old_file) = (Inr (), w')"
    by (simp add: run_target_def target_candidate_def validate_iosxe_apply_guard_def)
  have ne: "sessions w' \<noteq> sessions (start_world old_file)" using w(2) by auto
  show ?thesis using run_target_guarded [OF r ne] r ne by auto
qed

end
