(* ===== verification/Nft.thy ===== *)
theory Nft
  imports NetipText6 FrrConfig Rollback
begin

text \<open>
  The data plane: \<open>applyNft\<close> and \<open>joinPrefixes\<close> of main.go. One call of nft replaces both sets
  in one transaction; the script it reads on standard input is the whole interface. The results: the
  lines of the script, and that the call changes no file and runs no other command.
\<close>

definition nft_table :: string where "nft_table = ''inet pbr''"

definition join_prefixes :: "nprefix list \<Rightarrow> string" where
  "join_prefixes ps = str_join '', '' (map prefix_string ps)"

definition nft_script :: "cliFlags \<Rightarrow> nprefix list \<Rightarrow> nprefix list \<Rightarrow> string" where
  "nft_script f v4 v6 =
     ''flush set '' @ nft_table @ '' '' @ nftSetV4 f @ [nl]
     @ (if length v4 > 0
        then ''add element '' @ nft_table @ '' '' @ nftSetV4 f @ '' { '' @ join_prefixes v4 @ '' }'' @ [nl] else [])
     @ ''flush set '' @ nft_table @ '' '' @ nftSetV6 f @ [nl]
     @ (if length v6 > 0
        then ''add element '' @ nft_table @ '' '' @ nftSetV6 f @ '' { '' @ join_prefixes v6 @ '' }'' @ [nl] else [])"

definition nft_cmd :: "cliFlags \<Rightarrow> nprefix list \<Rightarrow> nprefix list \<Rightarrow> command" where
  "nft_cmd f v4 v6 = Command (nftBinary f) [''-f'', ''-''] (nft_script f v4 v6) (Some (nftTimeout f))"

definition apply_nft :: "os_env \<Rightarrow> cliFlags \<Rightarrow> nprefix list \<Rightarrow> nprefix list \<Rightarrow> world \<Rightarrow> unit res \<times> world" where
  "apply_nft E f v4 v6 w =
     (case os_exec E (nft_cmd f v4 v6) w of
        (Inl e, w) \<Rightarrow> (Inl (wrapf ''nft -f: '' e []), w)
      | (Inr _, w) \<Rightarrow> (Inr (), w))"

section \<open>The script\<close>

text \<open>The part of the script for one set: emptied, then filled with the prefixes, if any.\<close>

definition set_lines :: "string \<Rightarrow> nprefix list \<Rightarrow> string list" where
  "set_lines s ps =
     (''flush set inet pbr '' @ s)
     # (if ps = [] then [] else [''add element inet pbr '' @ s @ '' { '' @ str_join '', '' (map prefix_string ps) @ '' }''])"

lemma join_prefixes_nl: "list_all prefix_wf ps \<Longrightarrow> nl \<notin> set (join_prefixes ps)"
proof -
  assume "list_all prefix_wf ps"
  then have "list_all (list_all (\<lambda>c. c \<noteq> nl)) (map prefix_string ps)"
    by (auto simp: list_all_iff dest: nl_free(3))
  then have "list_all (\<lambda>c. c \<noteq> nl) (join_prefixes ps)"
    unfolding join_prefixes_def by (intro str_join_chars) simp_all
  then show ?thesis by (auto simp: list_all_iff)
qed

lemma nft_script_split:
  assumes "nl \<notin> set (nftSetV4 f)" "nl \<notin> set (nftSetV6 f)" "list_all prefix_wf v4" "list_all prefix_wf v6"
  shows "split_on nl (nft_script f v4 v6) = set_lines (nftSetV4 f) v4 @ set_lines (nftSetV6 f) v6 @ [[]]"
proof -
  let ?ls = "set_lines (nftSetV4 f) v4 @ set_lines (nftSetV6 f) v6"
  have "nl \<notin> set l" if "l \<in> set ?ls" for l
    using that assms(1,2) join_prefixes_nl [OF assms(3)] join_prefixes_nl [OF assms(4)]
    by (auto simp: set_lines_def join_prefixes_def split: if_splits)
  moreover have "nft_script f v4 v6 = concat (map (\<lambda>l. l @ [nl]) ?ls)"
    by (simp add: nft_script_def set_lines_def nft_table_def join_prefixes_def)
  ultimately show ?thesis using split_on_lines [of ?ls "[]"] by simp
qed

text \<open>The script determines the lists.\<close>

lemma join_head:
  assumes "CHR '','' \<notin> set x"
  shows "takeWhile (\<lambda>c. c \<noteq> CHR '','') (str_join '', '' (x # xs)) = x"
    "dropWhile (\<lambda>c. c \<noteq> CHR '','') (str_join '', '' (x # xs)) = (if xs = [] then [] else '', '' @ str_join '', '' xs)"
proof -
  have x: "\<forall>c \<in> set x. c \<noteq> CHR '',''" using assms by auto
  show "takeWhile (\<lambda>c. c \<noteq> CHR '','') (str_join '', '' (x # xs)) = x"
    using x by (cases xs) (auto simp: takeWhile_append)
  show "dropWhile (\<lambda>c. c \<noteq> CHR '','') (str_join '', '' (x # xs)) = (if xs = [] then [] else '', '' @ str_join '', '' xs)"
    using x by (cases xs) (auto simp: dropWhile_append)
qed

lemma str_join_inj:
  assumes "str_join '', '' xs = str_join '', '' ys" "\<forall>x \<in> set xs \<union> set ys. x \<noteq> [] \<and> CHR '','' \<notin> set x"
  shows "xs = ys"
  using assms
proof (induction xs arbitrary: ys)
  case Nil
  then show ?case by (induction "'', ''" ys rule: str_join.induct) auto
next
  case (Cons x xs)
  have "str_join '', '' (x # xs) \<noteq> []" using Cons.prems(2) by (cases xs) auto
  then obtain y zs where y: "ys = y # zs" using Cons.prems(1) by (cases ys) auto
  have hx: "CHR '','' \<notin> set x" "CHR '','' \<notin> set y" using Cons.prems(2) y by auto
  have e: "str_join '', '' (x # xs) = str_join '', '' (y # zs)" using Cons.prems(1) y by simp
  have "x = y" using join_head(1) [OF hx(1), of xs] join_head(1) [OF hx(2), of zs] e by simp
  moreover have "str_join '', '' xs = str_join '', '' zs"
    using join_head(2) [OF hx(1), of xs] join_head(2) [OF hx(2), of zs] e by (simp split: if_splits)
  moreover have "(xs = []) = (zs = [])"
    using join_head(2) [OF hx(1), of xs] join_head(2) [OF hx(2), of zs] e by (simp split: if_splits)
  ultimately show ?case using Cons.IH [of zs] Cons.prems(2) y by auto
qed

lemma join_prefixes_inj:
  assumes "join_prefixes ps = join_prefixes qs" "list_all prefix_wf ps" "list_all prefix_wf qs"
  shows "ps = qs"
proof -
  have "prefix_string p \<noteq> [] \<and> CHR '','' \<notin> set (prefix_string p)" if "prefix_wf p" for p
    using prefix_string_chars [OF that]
    by (intro conjI) (simp add: prefix_string_def, auto simp: list_all_iff prefix_char_def is_digit_iff)
  then have "map prefix_string ps = map prefix_string qs"
    using assms by (intro str_join_inj) (auto simp: join_prefixes_def list_all_iff)
  moreover have "inj_on prefix_string {p. prefix_wf p}"
    using parse_prefix_string by (intro inj_onI) (metis mem_Collect_eq sum.inject(2))
  ultimately show ?thesis
    using assms(2,3) by (intro map_inj_on [of prefix_string]) (auto simp: list_all_iff inj_on_def)
qed
lemma nft_script_inj:
  assumes "nft_script f v4 v6 = nft_script f u4 u6" "nl \<notin> set (nftSetV4 f)" "nl \<notin> set (nftSetV6 f)"
    "list_all prefix_wf v4" "list_all prefix_wf v6" "list_all prefix_wf u4" "list_all prefix_wf u6"
  shows "v4 = u4 \<and> v6 = u6"
proof -
  have "set_lines (nftSetV4 f) v4 @ set_lines (nftSetV6 f) v6 = set_lines (nftSetV4 f) u4 @ set_lines (nftSetV6 f) u6"
    using nft_script_split [OF assms(2-5)] nft_script_split [OF assms(2,3,6,7)] assms(1) by simp
  then have "join_prefixes v4 = join_prefixes u4 \<and> join_prefixes v6 = join_prefixes u6"
    by (auto simp: set_lines_def join_prefixes_def split: if_splits)
  then show ?thesis using assms(4-7) join_prefixes_inj by blast
qed

text \<open>C32: The nft script empties each set and then adds all its prefixes in one element list, in that
  order, and has no other line.\<close>

theorem nft_script_lines:
  assumes "nl \<notin> set (nftSetV4 f)" "nl \<notin> set (nftSetV6 f)" "list_all prefix_wf v4" "list_all prefix_wf v6"
  shows "split_on nl (nft_script f v4 v6) = set_lines (nftSetV4 f) v4 @ set_lines (nftSetV6 f) v6 @ [[]]"
  using assms by (rule nft_script_split)

lemma apply_nft_effect:
  assumes "apply_nft E f v4 v6 w = (r, w')"
  shows "fs w' = fs w" "commands w' = commands w @ [(nft_cmd f v4 v6, fs w, r = Inr ())]"
    "history w' = history w @ [fs w]"
proof -
  obtain q w1 where x: "os_exec E (nft_cmd f v4 v6) w = (q, w1)" by fastforce
  have "w' = w1" "(r = Inr ()) = (q = Inr ())"
    using assms x by (auto simp: apply_nft_def split: sum.splits)
  then show "fs w' = fs w" "commands w' = commands w @ [(nft_cmd f v4 v6, fs w, r = Inr ())]"
    "history w' = history w @ [fs w]"
    using os_exec_effect [OF x] x by (auto simp: os_exec_def Let_def split: option.splits)
qed

lemma nft_script_lines_witness:
  "split_on nl (nft_script (no_flags\<lparr>nftSetV4 := ''ru_v4'', nftSetV6 := ''ru_v6''\<rparr>) [net_a] []) =
    [''flush set inet pbr ru_v4'', ''add element inet pbr ru_v4 { '' @ prefix_string net_a @ '' }'',
     ''flush set inet pbr ru_v6'', []]"
  using nft_script_lines [of "no_flags\<lparr>nftSetV4 := ''ru_v4'', nftSetV6 := ''ru_v6''\<rparr>" "[net_a]" "[]"] nets_canonical
  by (simp add: set_lines_def canonical_def)

end
