(* ===== verification/Metrics.thy ===== *)
theory Metrics
  imports Config Complex_Main
begin

text \<open>
  metrics.go and logging.go: the collectors and their registration, the counters, gauges and histograms of the program, one value per
  list of label values, and the choice of the log handler. The Prometheus registry and the
  formatting of log records are libraries; here a counter is a number, a gauge the value last set
  and a histogram the list of observed durations. The results: the names
  differ, every label gets a value of its small domain whatever is observed, so no call panics and the
  number of series is bounded, and which log flags are accepted.
\<close>

section \<open>The collectors\<close>

text \<open>The series of \<open>newMetrics\<close>: name, help, labels, and the upper bounds of a histogram's buckets.\<close>

datatype collector_kind = Counter | Gauge | Histogram "rat list"

record collector =
  series_name :: string
  series_help :: string
  series_labels :: "string list"
  series_kind :: collector_kind

definition runsTotal_desc :: collector where
  "runsTotal_desc = \<lparr>series_name = ''georoute_runs_total'',
     series_help = ''Number of full georoute runs by result.'',
     series_labels = [''country'', ''result''], series_kind = Counter\<rparr>"

definition fetchesTotal_desc :: collector where
  "fetchesTotal_desc = \<lparr>series_name = ''georoute_fetches_total'',
     series_help = ''RIPE Stat fetch attempts by source (fresh|cache) and result (success|error).'',
     series_labels = [''country'', ''source'', ''result''], series_kind = Counter\<rparr>"

definition nftAppliesTotal_desc :: collector where
  "nftAppliesTotal_desc = \<lparr>series_name = ''georoute_nft_applies_total'',
     series_help = ''nft set replacement attempts by result.'',
     series_labels = [''country'', ''result''], series_kind = Counter\<rparr>"

definition frrReloadsTotal_desc :: collector where
  "frrReloadsTotal_desc = \<lparr>series_name = ''georoute_frr_reloads_total'',
     series_help = ''frr-reload.py invocations by result (success|error|rolled_back).'',
     series_labels = [''country'', ''result''], series_kind = Counter\<rparr>"

definition skippedOverlapTotal_desc :: collector where
  "skippedOverlapTotal_desc = \<lparr>series_name = ''georoute_skipped_overlap_total'',
     series_help = ''Refresh ticks dropped because the previous cycle was still running.'',
     series_labels = [''country''], series_kind = Counter\<rparr>"

definition prefixesCount_desc :: collector where
  "prefixesCount_desc = \<lparr>series_name = ''georoute_prefixes'',
     series_help = ''Number of prefixes in the last aggregated set by family and source.'',
     series_labels = [''country'', ''family'', ''source''], series_kind = Gauge\<rparr>"

definition lastSuccessUnix_desc :: collector where
  "lastSuccessUnix_desc = \<lparr>series_name = ''georoute_last_success_unixtime'',
     series_help = ''Unix timestamp of the last successful run.'',
     series_labels = [''country''], series_kind = Gauge\<rparr>"

definition cacheAge_desc :: collector where
  "cacheAge_desc = \<lparr>series_name = ''georoute_cache_age_seconds'',
     series_help = ''Age of the on-disk RIPE feed cache in seconds.'',
     series_labels = [''country''], series_kind = Gauge\<rparr>"

definition fetchDuration_desc :: collector where
  "fetchDuration_desc = \<lparr>series_name = ''georoute_fetch_duration_seconds'',
     series_help = ''Duration of the RIPE Stat fetch (including retries and cache fallback).'',
     series_labels = [''country'', ''source''], series_kind = Histogram [1 / 10, 5 / 10, 1, 2, 5, 10, 30, 60, 120]\<rparr>"

definition nftApplyDuration_desc :: collector where
  "nftApplyDuration_desc = \<lparr>series_name = ''georoute_nft_apply_duration_seconds'',
     series_help = ''Duration of the nft set replacement.'',
     series_labels = [''country''], series_kind = Histogram [1 / 100, 5 / 100, 1 / 10, 5 / 10, 1, 5, 30]\<rparr>"

definition frrReloadDuration_desc :: collector where
  "frrReloadDuration_desc = \<lparr>series_name = ''georoute_frr_reload_duration_seconds'',
     series_help = ''Duration of frr-reload.py invocation.'',
     series_labels = [''country''], series_kind = Histogram [5 / 10, 1, 2, 5, 10, 30, 60, 120, 180]\<rparr>"

definition metric_collectors :: "collector list" where
  "metric_collectors =
     [runsTotal_desc, fetchesTotal_desc, nftAppliesTotal_desc, frrReloadsTotal_desc, skippedOverlapTotal_desc,
      prefixesCount_desc, lastSuccessUnix_desc, cacheAge_desc,
      fetchDuration_desc, nftApplyDuration_desc, frrReloadDuration_desc]"

text \<open>
  A Prometheus registry holds collectors of the libraries and of the program. Whether it accepts
  another one is up to the library; \<open>MustRegister\<close> panics, here \<open>None\<close>, if it does not.
\<close>

datatype registered = Library string | Series collector

type_synonym registry = "registered list"

definition must_register :: "(registry \<Rightarrow> registered \<Rightarrow> bool) \<Rightarrow> registered \<Rightarrow> registry \<Rightarrow> registry option" where
  "must_register accepts c reg = (if accepts reg c then Some (reg @ [c]) else None)"

fun register_all :: "(registry \<Rightarrow> registered \<Rightarrow> bool) \<Rightarrow> registered list \<Rightarrow> registry \<Rightarrow> registry option" where
  "register_all accepts [] reg = Some reg"
| "register_all accepts (c # cs) reg =
     (case must_register accepts c reg of None \<Rightarrow> None | Some reg \<Rightarrow> register_all accepts cs reg)"

definition register_metrics :: "(registry \<Rightarrow> registered \<Rightarrow> bool) \<Rightarrow> registry \<Rightarrow> registry option" where
  "register_metrics accepts = register_all accepts (map Series metric_collectors)"

section \<open>Metrics\<close>

record metrics =
  runsTotal :: "string list \<Rightarrow> nat"
  fetchesTotal :: "string list \<Rightarrow> nat"
  nftAppliesTotal :: "string list \<Rightarrow> nat"
  frrReloadsTotal :: "string list \<Rightarrow> nat"
  skippedOverlapTotal :: "string list \<Rightarrow> nat"
  prefixesCount :: "string list \<Rightarrow> int option"
  lastSuccessUnix :: "string list \<Rightarrow> int option"
  cacheAge :: "string list \<Rightarrow> duration option"
  fetchDuration :: "string list \<Rightarrow> duration list"
  nftApplyDuration :: "string list \<Rightarrow> duration list"
  frrReloadDuration :: "string list \<Rightarrow> duration list"
  metrics_country :: string

definition new_metrics :: "string \<Rightarrow> metrics" where
  "new_metrics cc = \<lparr>runsTotal = \<lambda>_. 0, fetchesTotal = \<lambda>_. 0, nftAppliesTotal = \<lambda>_. 0, frrReloadsTotal = \<lambda>_. 0,
     skippedOverlapTotal = \<lambda>_. 0, prefixesCount = \<lambda>_. None, lastSuccessUnix = \<lambda>_. None, cacheAge = \<lambda>_. None,
     fetchDuration = \<lambda>_. [], nftApplyDuration = \<lambda>_. [], frrReloadDuration = \<lambda>_. [], metrics_country = cc\<rparr>"

text \<open>\<open>WithLabelValues(ls).Inc()\<close>, \<open>Set(v)\<close> and \<open>Observe(d)\<close>.\<close>

definition inc :: "string list \<Rightarrow> (string list \<Rightarrow> nat) \<Rightarrow> string list \<Rightarrow> nat" where
  "inc ls c = c(ls := Suc (c ls))"

definition set_gauge :: "string list \<Rightarrow> int \<Rightarrow> (string list \<Rightarrow> int option) \<Rightarrow> string list \<Rightarrow> int option" where
  "set_gauge ls v g = g(ls \<mapsto> v)"

definition observe :: "string list \<Rightarrow> duration \<Rightarrow> (string list \<Rightarrow> duration list) \<Rightarrow> string list \<Rightarrow> duration list" where
  "observe ls d h = h(ls := h ls @ [d])"

definition observe_run :: "string \<Rightarrow> duration \<Rightarrow> metrics \<Rightarrow> metrics" where
  "observe_run result dur m = m\<lparr>runsTotal := inc [metrics_country m, result] (runsTotal m)\<rparr>"

definition observe_fetch :: "string \<Rightarrow> string \<Rightarrow> duration \<Rightarrow> metrics \<Rightarrow> metrics" where
  "observe_fetch source result dur m =
     m\<lparr>fetchesTotal := inc [metrics_country m, source, result] (fetchesTotal m),
       fetchDuration := observe [metrics_country m, source] dur (fetchDuration m)\<rparr>"

definition observe_nft_apply :: "string \<Rightarrow> duration \<Rightarrow> metrics \<Rightarrow> metrics" where
  "observe_nft_apply result dur m =
     m\<lparr>nftAppliesTotal := inc [metrics_country m, result] (nftAppliesTotal m),
       nftApplyDuration := observe [metrics_country m] dur (nftApplyDuration m)\<rparr>"

definition observe_frr_reload :: "string \<Rightarrow> duration \<Rightarrow> metrics \<Rightarrow> metrics" where
  "observe_frr_reload result dur m =
     m\<lparr>frrReloadsTotal := inc [metrics_country m, result] (frrReloadsTotal m),
       frrReloadDuration := observe [metrics_country m] dur (frrReloadDuration m)\<rparr>"

definition set_prefix_count :: "string \<Rightarrow> string \<Rightarrow> int \<Rightarrow> metrics \<Rightarrow> metrics" where
  "set_prefix_count fam source n m =
     m\<lparr>prefixesCount := set_gauge [metrics_country m, fam, source] n (prefixesCount m)\<rparr>"

text \<open>\<open>t.Unix()\<close>: whole seconds.\<close>

definition set_last_success :: "int \<Rightarrow> metrics \<Rightarrow> metrics" where
  "set_last_success t m =
     m\<lparr>lastSuccessUnix := set_gauge [metrics_country m] (t div second) (lastSuccessUnix m)\<rparr>"

definition set_cache_age :: "duration \<Rightarrow> metrics \<Rightarrow> metrics" where
  "set_cache_age age m = m\<lparr>cacheAge := set_gauge [metrics_country m] age (cacheAge m)\<rparr>"

text \<open>The counter of \<open>refreshLoop\<close> for a tick that found the previous cycle still running.\<close>

definition count_skip :: "metrics \<Rightarrow> metrics" where
  "count_skip m = m\<lparr>skippedOverlapTotal := inc [metrics_country m] (skippedOverlapTotal m)\<rparr>"

section \<open>Labels\<close>

text \<open>
  The values a label may take. \<open>WithLabelValues\<close> panics unless it gets one value per label, and
  Prometheus keeps a series for every combination of values ever used.
\<close>

definition label_domain :: "string \<Rightarrow> string \<Rightarrow> string list" where
  "label_domain cc l =
     (if l = ''country'' then [cc]
      else if l = ''result'' then [''success'', ''error'']
      else if l = ''family'' then [''v4'', ''v6'']
      else if l = ''source'' then [''fresh'', ''cache'', ''unknown'', ''ripe'', ''extras'', ''merged'']
      else [])"

definition proper_labels :: "string \<Rightarrow> collector \<Rightarrow> string list \<Rightarrow> bool" where
  "proper_labels cc d ls \<longleftrightarrow> list_all2 (\<lambda>l v. v \<in> set (label_domain cc l)) (series_labels d) ls"

text \<open>The label values in use, per collector.\<close>

definition used_labels :: "metrics \<Rightarrow> (collector \<times> string list set) list" where
  "used_labels m =
     [(runsTotal_desc, {ls. runsTotal m ls \<noteq> 0}), (fetchesTotal_desc, {ls. fetchesTotal m ls \<noteq> 0}),
      (nftAppliesTotal_desc, {ls. nftAppliesTotal m ls \<noteq> 0}), (frrReloadsTotal_desc, {ls. frrReloadsTotal m ls \<noteq> 0}),
      (skippedOverlapTotal_desc, {ls. skippedOverlapTotal m ls \<noteq> 0}), (prefixesCount_desc, {ls. prefixesCount m ls \<noteq> None}),
      (lastSuccessUnix_desc, {ls. lastSuccessUnix m ls \<noteq> None}), (cacheAge_desc, {ls. cacheAge m ls \<noteq> None}),
      (fetchDuration_desc, {ls. fetchDuration m ls \<noteq> []}), (nftApplyDuration_desc, {ls. nftApplyDuration m ls \<noteq> []}),
      (frrReloadDuration_desc, {ls. frrReloadDuration m ls \<noteq> []})]"

definition labelled :: "metrics \<Rightarrow> bool" where
  "labelled m \<longleftrightarrow> list_all (\<lambda>(d, used). \<forall>ls \<in> used. proper_labels (metrics_country m) d ls) (used_labels m)"

lemmas desc_defs = runsTotal_desc_def fetchesTotal_desc_def nftAppliesTotal_desc_def frrReloadsTotal_desc_def skippedOverlapTotal_desc_def prefixesCount_desc_def lastSuccessUnix_desc_def cacheAge_desc_def fetchDuration_desc_def nftApplyDuration_desc_def frrReloadDuration_desc_def

lemma used_collectors: "map fst (used_labels m) = metric_collectors"
  by (simp add: used_labels_def metric_collectors_def)

lemma collectors_sound:
  "distinct (map series_name metric_collectors)" "list_all (\<lambda>d. distinct (series_labels d)) metric_collectors"
  "list_all (\<lambda>d. case series_kind d of Histogram bs \<Rightarrow> sorted_wrt (<) bs | _ \<Rightarrow> True) metric_collectors"
  by (simp_all add: metric_collectors_def desc_defs)

lemma labelled_new: "labelled (new_metrics cc)"
  by (simp add: labelled_def used_labels_def new_metrics_def)

lemma labelled_ops:
  assumes "labelled m"
  shows "res \<in> set [''success'', ''error''] \<Longrightarrow> labelled (observe_run res d m)"
    "res \<in> set [''success'', ''error''] \<Longrightarrow> src \<in> set [''fresh'', ''cache'', ''unknown''] \<Longrightarrow>
      labelled (observe_fetch src res d m)"
    "res \<in> set [''success'', ''error''] \<Longrightarrow> labelled (observe_nft_apply res d m)"
    "res \<in> set [''success'', ''error''] \<Longrightarrow> labelled (observe_frr_reload res d m)"
    "fam \<in> set [''v4'', ''v6''] \<Longrightarrow> src \<in> set [''ripe'', ''extras'', ''merged''] \<Longrightarrow>
      labelled (set_prefix_count fam src n m)"
    "labelled (set_last_success t m)" "labelled (set_cache_age a m)" "labelled (count_skip m)"
  using assms
  by (auto simp: labelled_def used_labels_def proper_labels_def label_domain_def desc_defs observe_run_def observe_fetch_def
      observe_nft_apply_def observe_frr_reload_def set_prefix_count_def set_last_success_def set_cache_age_def
      count_skip_def inc_def set_gauge_def observe_def)

section \<open>Logging\<close>

text \<open>The levels of slog by their numbers; a logger has its handler, its minimum level and its attributes.\<close>

type_synonym log_level = int

datatype log_handler = TextHandler | JSONHandler

record logger =
  log_handler :: log_handler
  min_level :: log_level
  log_attrs :: "(string \<times> string) list"

definition parse_log_level :: "string \<Rightarrow> log_level res" where
  "parse_log_level s =
     (let l = str_lower s in
      if l = ''debug'' then Inr (- 4)
      else if l = ''info'' then Inr 0
      else if l = ''warn'' \<or> l = ''warning'' then Inr 4
      else if l = ''error'' then Inr 8
      else Inl (wrapf [] (errors_new ErrInvalidLogLevel)
             ('': '' @ go_quote s @ '' (want debug|info|warn|error)'')))"

definition new_logger :: "string \<Rightarrow> string \<Rightarrow> logger res" where
  "new_logger fmt level =
     (case parse_log_level level of
        Inl e \<Rightarrow> Inl e
      | Inr lvl \<Rightarrow>
          if fmt = ''text'' then Inr \<lparr>log_handler = TextHandler, min_level = lvl, log_attrs = []\<rparr>
          else if fmt = ''json'' then Inr \<lparr>log_handler = JSONHandler, min_level = lvl, log_attrs = []\<rparr>
          else Inl (wrapf [] (errors_new ErrInvalidLogFormat) ('': '' @ go_quote fmt)))"

definition with_run_id :: "logger \<Rightarrow> string \<Rightarrow> logger" where
  "with_run_id l rid = l\<lparr>log_attrs := log_attrs l @ [(''run_id'', rid)]\<rparr>"

section \<open>What the flags may be\<close>

text \<open>A bad level is reported before a bad format; otherwise the level and format decide the logger.\<close>

lemma new_logger_result:
  "case new_logger fmt level of
     Inr l \<Rightarrow> fmt \<in> {''text'', ''json''} \<and> (log_handler l = JSONHandler) = (fmt = ''json'')
       \<and> parse_log_level level = Inr (min_level l)
   | Inl e \<Rightarrow> errors_is e ErrInvalidLogLevel = (\<exists>e'. parse_log_level level = Inl e')
       \<and> errors_is e ErrInvalidLogFormat = (\<exists>n. parse_log_level level = Inr n)"
  by (auto simp: new_logger_def parse_log_level_def Let_def)

end
