(* ===== verification/Refresh.thy ===== *)
theory Refresh
  imports Main "HOL-Library.Multiset"
begin

text \<open>
  refresh.go: the scheduling of \<open>refreshLoop\<close>. In daemon mode every tick dispatches a goroutine
  that runs one cycle if it gets the mutex and gives up otherwise; cancelling the context ends the
  loop after the goroutines in flight. The goroutines, the ticks and the cancellation interleave
  freely: the loop is a step relation, and the properties hold for every interleaving. One cycle is
  a parameter, a function on the program's data. The results: cycles never overlap, so the data is
  always the result of running whole cycles one after the other; every tick is either run or counted
  as skipped; the loop returns only when nothing is in flight; once cancelled it always can return, and
  it cannot go on for ever after it left the select.
\<close>

section \<open>The loop as a step relation\<close>

text \<open>
  A goroutine started by \<open>dispatch\<close>: before \<open>TryLock\<close>, inside \<open>work\<close> with the mutex held, and
  returned from \<open>runOnce\<close>. The loop: in the \<open>select\<close>, in \<open>wg.Wait\<close>, and returned.
\<close>

datatype phase = Dispatched | Working | Finished

datatype control = Selecting | Waiting | Returned

record 'd loop_state =
  goroutines :: "phase list"
  mutex :: bool
  skippedOverlap :: nat
  completed :: nat
  loop_data :: 'd
  ticks :: nat
  cancelled :: bool
  control :: control

text \<open>After the initial \<open>dispatch()\<close>.\<close>

definition loop_start :: "'d \<Rightarrow> 'd loop_state" where
  "loop_start d = \<lparr>goroutines = [Dispatched], mutex = False, skippedOverlap = 0, completed = 0,
     loop_data = d, ticks = 0, cancelled = False, control = Selecting\<rparr>"

text \<open>
  The select takes a tick or the cancelled context, whichever is ready; a goroutine tries the lock,
  gives up, or completes its cycle and unlocks; \<open>wg.Wait\<close> ends when all goroutines have.
\<close>

inductive loop_step :: "('d \<Rightarrow> 'd) \<Rightarrow> 'd loop_state \<Rightarrow> 'd loop_state \<Rightarrow> bool" for work where
  tick: "control s = Selecting \<Longrightarrow>
    loop_step work s (s\<lparr>goroutines := goroutines s @ [Dispatched], ticks := Suc (ticks s)\<rparr>)"
| cancel: "\<not> cancelled s \<Longrightarrow> loop_step work s (s\<lparr>cancelled := True\<rparr>)"
| ctx_done: "control s = Selecting \<Longrightarrow> cancelled s \<Longrightarrow> loop_step work s (s\<lparr>control := Waiting\<rparr>)"
| lock: "i < length (goroutines s) \<Longrightarrow> goroutines s ! i = Dispatched \<Longrightarrow> \<not> mutex s \<Longrightarrow>
    loop_step work s (s\<lparr>goroutines := (goroutines s)[i := Working], mutex := True\<rparr>)"
| skip: "i < length (goroutines s) \<Longrightarrow> goroutines s ! i = Dispatched \<Longrightarrow> mutex s \<Longrightarrow>
    loop_step work s (s\<lparr>goroutines := (goroutines s)[i := Finished], skippedOverlap := Suc (skippedOverlap s)\<rparr>)"
| unlock: "i < length (goroutines s) \<Longrightarrow> goroutines s ! i = Working \<Longrightarrow>
    loop_step work s (s\<lparr>goroutines := (goroutines s)[i := Finished], mutex := False,
      completed := Suc (completed s), loop_data := work (loop_data s)\<rparr>)"
| returns: "control s = Waiting \<Longrightarrow> list_all (\<lambda>g. g = Finished) (goroutines s) \<Longrightarrow>
    loop_step work s (s\<lparr>control := Returned\<rparr>)"

abbreviation loop_reaches :: "('d \<Rightarrow> 'd) \<Rightarrow> 'd loop_state \<Rightarrow> 'd loop_state \<Rightarrow> bool" where
  "loop_reaches work \<equiv> (loop_step work)\<^sup>*\<^sup>*"

text \<open>\<open>interval == 0\<close>: one cycle, run by the caller; the mutex is free.\<close>

definition refresh_oneshot :: "('d \<Rightarrow> 'd) \<Rightarrow> 'd \<Rightarrow> 'd" where
  "refresh_oneshot work d = work d"

section \<open>The invariant\<close>

text \<open>The number of goroutines in a phase.\<close>

definition phases :: "phase list \<Rightarrow> phase \<Rightarrow> nat" where
  "phases gs p = count (mset gs) p"

abbreviation in_phase :: "phase \<Rightarrow> 'd loop_state \<Rightarrow> nat" where
  "in_phase p s \<equiv> phases (goroutines s) p"

lemma phases_append [simp]: "phases (gs @ [q]) p = phases gs p + (if p = q then 1 else 0)" "phases [q] p = (if p = q then 1 else 0)"
  by (simp_all add: phases_def)

definition loop_inv :: "('d \<Rightarrow> 'd) \<Rightarrow> 'd \<Rightarrow> 'd loop_state \<Rightarrow> bool" where
  "loop_inv work d s \<longleftrightarrow>
     in_phase Working s = (if mutex s then 1 else 0)
     \<and> in_phase Finished s = skippedOverlap s + completed s
     \<and> in_phase Dispatched s + in_phase Working s + in_phase Finished s = Suc (ticks s)
     \<and> loop_data s = (work ^^ completed s) d
     \<and> (0 < skippedOverlap s \<longrightarrow> 0 < completed s \<or> mutex s)
     \<and> (control s \<noteq> Selecting \<longrightarrow> cancelled s)
     \<and> (control s = Returned \<longrightarrow> list_all (\<lambda>g. g = Finished) (goroutines s))"

lemma loop_inv_start: "loop_inv work d (loop_start d)"
  by (simp add: loop_inv_def loop_start_def)

text \<open>The phases after one goroutine moved on.\<close>

lemma phases_moved:
  assumes "i < length gs" "gs ! i = p" "p \<noteq> q"
  shows "phases (gs[i := q]) r = (if r = q then Suc (phases gs q) else if r = p then phases gs p - 1 else phases gs r)"
  using assms by (auto simp: mset_update phases_def)

lemma phases_pos:
  assumes "i < length gs" "gs ! i = p"
  shows "0 < phases gs p"
  using assms unfolding phases_def by (metis count_greater_zero_iff nth_mem_mset)

lemma loop_inv_step: "loop_step work s s' \<Longrightarrow> loop_inv work d s \<Longrightarrow> loop_inv work d s'"
proof (induction rule: loop_step.induct)
  case (lock i s)
  then show ?case
    using phases_pos [OF lock(1,2)]
    by (auto simp: loop_inv_def phases_moved [OF lock(1,2)] list_all_length)
next
  case (skip i s)
  then show ?case
    using phases_pos [OF skip(1,2)]
    by (auto simp: loop_inv_def phases_moved [OF skip(1,2)] list_all_length)
next
  case (unlock i s)
  then show ?case
    using phases_pos [OF unlock(1,2)]
    by (auto simp: loop_inv_def phases_moved [OF unlock(1,2)] list_all_length split: if_splits)
qed (auto simp: loop_inv_def)

lemma loop_inv_reaches: "loop_reaches work s s' \<Longrightarrow> loop_inv work d s \<Longrightarrow> loop_inv work d s'"
  by (induction rule: rtranclp_induct) (auto dest: loop_inv_step)

lemma loop_inv_reachable: "loop_reaches work (loop_start d) s \<Longrightarrow> loop_inv work d s"
  by (rule loop_inv_reaches [OF _ loop_inv_start])

section \<open>Progress\<close>

lemma phase_index: "0 < in_phase p s \<Longrightarrow> \<exists>i < length (goroutines s). goroutines s ! i = p"
  by (simp add: phases_def in_set_conv_nth)

lemma all_finished_iff:
  "list_all (\<lambda>g. g = Finished) gs \<longleftrightarrow> phases gs Working = 0 \<and> phases gs Dispatched = 0"
proof -
  have "(\<forall>g \<in> set gs. g = Finished) \<longleftrightarrow> Working \<notin> set gs \<and> Dispatched \<notin> set gs"
    by (metis phase.distinct phase.exhaust)
  then show ?thesis by (simp add: list_all_iff phases_def count_eq_zero_iff)
qed

text \<open>What is left to do: two moves per dispatched goroutine, one per running cycle, the way out.\<close>

definition to_do :: "'d loop_state \<Rightarrow> nat" where
  "to_do s = 2 * in_phase Dispatched s + in_phase Working s
     + (case control s of Selecting \<Rightarrow> 2 | Waiting \<Rightarrow> 1 | Returned \<Rightarrow> 0) + (if cancelled s then 0 else 1)"

lemma to_do_decreases:
  assumes "loop_step work s s'" "control s \<noteq> Selecting"
  shows "to_do s' < to_do s"
  using assms
proof (induction rule: loop_step.induct)
  case (lock i s)
  then show ?case using phases_pos [OF lock(1,2)] by (simp add: to_do_def phases_moved [OF lock(1,2)])
next
  case (skip i s)
  then show ?case using phases_pos [OF skip(1,2)] by (simp add: to_do_def phases_moved [OF skip(1,2)])
next
  case (unlock i s)
  then show ?case using phases_pos [OF unlock(1,2)] by (simp add: to_do_def phases_moved [OF unlock(1,2)])
qed (simp_all add: to_do_def)

lemma progress:
  assumes "loop_inv work d s" "cancelled s" "control s \<noteq> Returned"
  shows "\<exists>s'. loop_step work s s' \<and> cancelled s' \<and> to_do s' < to_do s"
proof (cases "control s")
  case Selecting
  then show ?thesis using assms(2) loop_step.ctx_done [of s work] by (auto simp: to_do_def)
next
  case Waiting
  have "\<exists>s'. loop_step work s s' \<and> cancelled s'"
  proof (cases "0 < in_phase Working s")
    case True
    then obtain i where "i < length (goroutines s)" "goroutines s ! i = Working" using phase_index by blast
    from loop_step.unlock [OF this] show ?thesis using assms(2) by fastforce
  next
    case w: False
    then have "\<not> mutex s" using assms(1) by (auto simp: loop_inv_def)
    show ?thesis
    proof (cases "0 < in_phase Dispatched s")
      case True
      then obtain i where "i < length (goroutines s)" "goroutines s ! i = Dispatched" using phase_index by blast
      from loop_step.lock [OF this \<open>\<not> mutex s\<close>] show ?thesis using assms(2) by fastforce
    next
      case False
      then have "list_all (\<lambda>g. g = Finished) (goroutines s)" using w by (simp add: all_finished_iff)
      from loop_step.returns [OF Waiting this] show ?thesis using assms(2) by fastforce
    qed
  qed
  then show ?thesis using to_do_decreases Waiting by fastforce
qed (use assms in simp)

lemma drains:
  assumes "loop_inv work d s" "cancelled s"
  shows "\<exists>s'. loop_reaches work s s' \<and> control s' = Returned"
  using assms
proof (induction "to_do s" arbitrary: s rule: less_induct)
  case less
  show ?case
  proof (cases "control s = Returned")
    case False
    obtain t where t: "loop_step work s t" "cancelled t" "to_do t < to_do s"
      using progress [OF less.prems False] by blast
    obtain s' where "loop_reaches work t s'" "control s' = Returned"
      using less.hyps [OF t(3) loop_inv_step [OF t(1) less.prems(1)] t(2)] by blast
    then show ?thesis using t(1) by (meson converse_rtranclp_into_rtranclp)
  qed auto
qed

text \<open>The initial cycle alone.\<close>

lemma first_cycle:
  "loop_reaches work (loop_start d) ((loop_start d)\<lparr>goroutines := [Finished], completed := 1, loop_data := work d\<rparr>)"
proof -
  let ?s = "(loop_start d)\<lparr>goroutines := [Working], mutex := True\<rparr>"
  have "loop_step work (loop_start d) ?s" using loop_step.lock [of 0 "loop_start d" work] by (simp add: loop_start_def)
  moreover have "loop_step work ?s ((loop_start d)\<lparr>goroutines := [Finished], completed := 1, loop_data := work d\<rparr>)"
    using loop_step.unlock [of 0 ?s work] by (simp add: loop_start_def)
  ultimately show ?thesis by (meson converse_rtranclp_into_rtranclp rtranclp.rtrancl_refl)
qed

section \<open>A contract of the cycles\<close>

text \<open>
  What every cycle keeps holds whenever the loop is looked at. The provider is the program's own
  cycle, the client the loop.
\<close>

locale kept_by_cycle =
  fixes work :: "'d \<Rightarrow> 'd" and ok :: "'d \<Rightarrow> bool"
  assumes work_ok: "ok d \<Longrightarrow> ok (work d)"
begin

lemma cycles_ok: "ok d \<Longrightarrow> ok ((work ^^ n) d)"
  by (induction n) (simp_all add: work_ok)

lemma loop_ok:
  assumes "ok d" "loop_reaches work (loop_start d) s"
  shows "ok (loop_data s)"
  using loop_inv_reachable [OF assms(2)] cycles_ok [OF assms(1)] by (simp add: loop_inv_def)

end

section \<open>Properties\<close>

text \<open>C33: In every interleaving of ticks, goroutines and cancellation at most one cycle runs, the data is
  the result of whole cycles one after the other, and every dispatched goroutine is waiting,
  running, skipped or completed.\<close>

theorem refresh_sequential:
  assumes "loop_reaches work (loop_start d) s"
  shows "in_phase Working s \<le> 1 \<and> loop_data s = (work ^^ completed s) d
    \<and> in_phase Dispatched s + in_phase Working s + skippedOverlap s + completed s = Suc (ticks s)"
  using loop_inv_reachable [OF assms] by (auto simp: loop_inv_def)

text \<open>C34: When refreshLoop has returned, the context was cancelled, no cycle is in flight, the mutex is
  free, at least one cycle was completed and every tick was run or counted as skipped.\<close>

theorem refresh_returned:
  assumes "loop_reaches work (loop_start d) s" "control s = Returned"
  shows "cancelled s \<and> \<not> mutex s \<and> list_all (\<lambda>g. g = Finished) (goroutines s)
    \<and> 0 < completed s \<and> completed s + skippedOverlap s = Suc (ticks s) \<and> loop_data s = (work ^^ completed s) d"
  using loop_inv_reachable [OF assms(1)] assms(2)
  by (auto simp: loop_inv_def all_finished_iff split: if_splits)

theorem refresh_drains:
  assumes "loop_reaches work (loop_start d) s" "cancelled s"
  shows "\<exists>s'. loop_reaches work s s' \<and> control s' = Returned"
  using drains [OF loop_inv_reachable [OF assms(1)] assms(2)] .

text \<open>C35: After the loop has left its select it cannot go on for ever: every sequence of steps is finite.\<close>

theorem refresh_terminates: "wf {(s', s). loop_step work s s' \<and> control s \<noteq> Selecting}"
  by (rule wf_subset [OF wf_measure [of to_do]]) (auto simp: to_do_decreases)

section \<open>A concrete run\<close>

text \<open>One cycle, a tick during it that is skipped, a cancellation, and the way out.\<close>

abbreviation sample_end :: "nat loop_state" where
  "sample_end \<equiv> \<lparr>goroutines = [Finished, Finished], mutex = False, skippedOverlap = 1, completed = 1,
     loop_data = 1, ticks = 1, cancelled = True, control = Returned\<rparr>"

abbreviation sample_busy :: "nat loop_state" where
  "sample_busy \<equiv> \<lparr>goroutines = [Working, Dispatched], mutex = True, skippedOverlap = 0, completed = 0,
     loop_data = 0, ticks = 1, cancelled = True, control = Selecting\<rparr>"

lemma sample_busy_reached: "loop_reaches Suc (loop_start 0) sample_busy"
proof -
  let ?s1 = "(loop_start (0::nat))\<lparr>goroutines := [Working], mutex := True\<rparr>"
  let ?s2 = "?s1\<lparr>goroutines := [Working, Dispatched], ticks := 1\<rparr>"
  have "loop_step Suc (loop_start 0) ?s1"
    using loop_step.lock [of 0 "loop_start 0" Suc] by (simp add: loop_start_def)
  moreover have "loop_step Suc ?s1 ?s2" using loop_step.tick [of ?s1 Suc] by (simp add: loop_start_def)
  moreover have "loop_step Suc ?s2 sample_busy" using loop_step.cancel [of ?s2 Suc] by (simp add: loop_start_def)
  ultimately show ?thesis by (meson converse_rtranclp_into_rtranclp rtranclp.rtrancl_refl)
qed

lemma sample_end_reached: "loop_reaches Suc (loop_start 0) sample_end"
proof -
  let ?s4 = "sample_busy\<lparr>goroutines := [Working, Finished], skippedOverlap := 1\<rparr>"
  let ?s5 = "?s4\<lparr>control := Waiting\<rparr>"
  let ?s6 = "sample_end\<lparr>control := Waiting\<rparr>"
  have "loop_step Suc sample_busy ?s4" using loop_step.skip [of 1 sample_busy Suc] by simp
  moreover have "loop_step Suc ?s4 ?s5" using loop_step.ctx_done [of ?s4 Suc] by simp
  moreover have "loop_step Suc ?s5 ?s6" using loop_step.unlock [of 0 ?s5 Suc] by simp
  moreover have "loop_step Suc ?s6 sample_end" using loop_step.returns [of ?s6 Suc] by simp
  ultimately show ?thesis
    using sample_busy_reached by (meson rtranclp.rtrancl_into_rtrancl)
qed

lemma refresh_sequential_witness: "in_phase Working sample_busy \<le> 1 \<and> loop_data sample_busy = (Suc ^^ 0) 0"
  using refresh_sequential [OF sample_busy_reached] by simp

lemma refresh_returned_witness: "0 < completed sample_end \<and> completed sample_end + skippedOverlap sample_end = 2"
  using refresh_returned [OF sample_end_reached] by simp

lemma refresh_drains_witness: "\<exists>s'. loop_reaches Suc sample_busy s' \<and> control s' = Returned"
  using refresh_drains [OF sample_busy_reached] by simp

end
