(* ===== verification/Health.thy ===== *)
theory Health
  imports Files Config Metrics
begin

text \<open>
  health.go: the last-success marker, the readiness check on its age, the construction of the HTTP
  server with its registry and routes, and its life (bind, start, shutdown). What the Prometheus
  registry and the healthcheck library accept is a parameter. The results: what the two endpoints
  answer; a marker just written makes the check pass until its age exceeds the limit, a missing or
  old marker fails it with its own error, writing the marker never damages the old one, binding twice
  keeps the listener, and the background loop is stopped exactly once.
\<close>

section \<open>The text of the marker\<close>

text \<open>
  \<open>time.Time.Format(time.RFC3339)\<close> in UTC, from nanoseconds since 1970: the civil date by
  counting days in 400-year cycles that start in March.
\<close>

definition civil :: "int \<Rightarrow> int \<times> int \<times> int" where
  "civil days =
     (let z = days + 719468; era = z div 146097; doe = z mod 146097;
          yoe = (doe - doe div 1460 + doe div 36524 - doe div 146096) div 365;
          doy = doe - (365 * yoe + yoe div 4 - yoe div 100);
          mp = (5 * doy + 2) div 153;
          d = doy - (153 * mp + 2) div 5 + 1;
          m = (if mp < 10 then mp + 3 else mp - 9);
          y = yoe + era * 400 + (if m \<le> 2 then 1 else 0)
      in (y, m, d))"

definition rfc3339 :: "int \<Rightarrow> string" where
  "rfc3339 t =
     (let secs = t div second; (y, m, d) = civil (secs div 86400); s = nat (secs mod 86400);
          pad = (\<lambda>k n. pad_digits k (nat n))
      in pad 4 y @ ''-'' @ pad 2 m @ ''-'' @ pad 2 d @ ''T'' @ pad_digits 2 (s div 3600) @ '':''
         @ pad_digits 2 (s div 60 mod 60) @ '':'' @ pad_digits 2 (s mod 60) @ ''Z'')"

section \<open>writeLastSuccess and lastSuccessAge\<close>

text \<open>An error of \<open>WriteString\<close> is ignored.\<close>

definition write_last_success :: "os_env \<Rightarrow> path \<Rightarrow> world \<Rightarrow> unit res \<times> world" where
  "write_last_success E path w =
     (case os_mkdir_all E w of
        (Inl e, w) \<Rightarrow> (Inl (wrapf (''mkdir last-success dir '' @ dir_of path @ '': '') e []), w)
      | (Inr _, w) \<Rightarrow>
     (case create_temp E (path @ ''.'') ''.tmp'' w of
        (Inl e, w) \<Rightarrow> (Inl (wrapf ''create temp last-success: '' e []), w)
      | (Inr tmpName, w) \<Rightarrow>
     (case os_write E tmpName (rfc3339 (clock E (calls w)) @ [nl]) w of
        (_, w) \<Rightarrow>
     (case os_close E tmpName w of
        (Inl e, w) \<Rightarrow> (Inl (wrapf ''close last-success: '' e []), snd (os_remove E tmpName w))
      | (Inr _, w) \<Rightarrow>
     (case os_rename E tmpName path w of
        (Inl e, w) \<Rightarrow> (Inl (wrapf ''rename last-success: '' e []), snd (os_remove E tmpName w))
      | (Inr _, w) \<Rightarrow> (Inr (), w))))))"

definition last_success_age :: "os_env \<Rightarrow> path \<Rightarrow> world \<Rightarrow> int res \<times> world" where
  "last_success_age E path w =
     (case os_stat E path w of
        (Inl e, w) \<Rightarrow>
          (if errors_is e FsErrNotExist then Inl (wrapf [] (errors_new ErrLastSuccessMissing) ('': '' @ path))
           else Inl (wrapf (''stat last-success '' @ path @ '': '') e []), w)
      | (Inr modTime, w) \<Rightarrow> (Inr (clock E (calls w) - modTime), w))"

text \<open>The check registered by \<open>newHealthServer\<close>.\<close>

definition ready_check :: "os_env \<Rightarrow> path \<Rightarrow> duration \<Rightarrow> world \<Rightarrow> unit res \<times> world" where
  "ready_check E path maxAge w =
     (case last_success_age E path w of
        (Inl e, w) \<Rightarrow> (Inl e, w)
      | (Inr age, w) \<Rightarrow>
          (if age > maxAge
           then Inl (wrapf [] (errors_new ErrLastSuccessStale)
                  ('': '' @ duration_string (duration_round age second) @ '' ago > '' @ duration_string maxAge))
           else Inr (), w))"

section \<open>The server\<close>

text \<open>
  What the server gets from its libraries: whether the registry accepts a collector, whether the
  healthcheck library accepts a check, its paths, and the status it answers with for a check, given
  the two statuses it was configured with.
\<close>

record health_lib =
  reg_accepts :: "registry \<Rightarrow> registered \<Rightarrow> bool"
  hc_add :: "string \<Rightarrow> go_error option"
  path_live :: string
  path_ready :: string
  path_startup :: string
  path_health :: string
  path_debug :: string
  hc_status :: "int \<Rightarrow> int \<Rightarrow> unit res \<Rightarrow> int"

datatype endpoint = LiveHandler | HealthHandler | PProfHandler | MetricsHandler

text \<open>\<open>http.ServeMux\<close> for plain patterns: registering one twice panics, here \<open>None\<close>.\<close>

type_synonym routes = "(string \<times> endpoint) list"

definition mux_handle :: "string \<Rightarrow> endpoint \<Rightarrow> routes \<Rightarrow> routes option" where
  "mux_handle pattern h rs =
     (if pattern = [] \<or> pattern \<in> set (map fst rs) then None else Some (rs @ [(pattern, h)]))"

fun mux_handle_all :: "routes \<Rightarrow> routes \<Rightarrow> routes option" where
  "mux_handle_all [] rs = Some rs"
| "mux_handle_all ((p, h) # new) rs =
     (case mux_handle p h rs of None \<Rightarrow> None | Some rs \<Rightarrow> mux_handle_all new rs)"

text \<open>
  The match of a clean path: its own pattern; else, if the path with a slash added is one, a redirect;
  else the longest pattern that ends in a slash and starts the path.
\<close>

datatype matched = Handled endpoint | Redirect | NotFound

definition mux_match :: "routes \<Rightarrow> string \<Rightarrow> matched" where
  "mux_match rs p =
     (case map_of rs p of
        Some h \<Rightarrow> Handled h
      | None \<Rightarrow>
          if \<not> has_suffix p ''/'' \<and> map_of rs (p @ ''/'') \<noteq> None then Redirect
          else case filter (\<lambda>(q, h). has_suffix q ''/'' \<and> has_prefix p q) rs of
            [] \<Rightarrow> NotFound
          | m # ms \<Rightarrow> Handled (snd (fold (\<lambda>x y. if length (fst y) < length (fst x) then x else y) ms m)))"

text \<open>
  \<open>healthServer\<close>: the registry, the routes, the statuses of the library and the timeouts of the
  \<open>http.Server\<close>, the address, the bound listener, whether \<open>stopBgOnce\<close> has fired, and how often
  the library was started and shut down.
\<close>

record health_server =
  hs_registry :: registry
  hs_routes :: routes
  hs_success_status :: int
  hs_error_status :: int
  hs_timeouts :: "duration list"
  hs_addr :: string
  hs_lastSuccessPath :: path
  hs_maxAge :: duration
  hs_ln :: bool
  hs_stopBgOnce :: bool
  hc_starts :: nat
  hc_shutdowns :: nat

text \<open>The routes in the order of registration, and the collectors of the Go runtime.\<close>

definition server_routes :: "health_lib \<Rightarrow> routes" where
  "server_routes L =
     [(path_live L, LiveHandler), (path_ready L, HealthHandler), (path_startup L, HealthHandler),
      (path_health L, HealthHandler), (path_debug L, PProfHandler), (''/metrics'', MetricsHandler)]"

definition runtime_collectors :: "registered list" where
  "runtime_collectors = map Library [''go'', ''process'', ''build info'']"

text \<open>
  \<open>None\<close> is a panic. The timeouts are those for the request header, reading, writing and idle
  connections.
\<close>

definition new_health_server ::
  "health_lib \<Rightarrow> string \<Rightarrow> path \<Rightarrow> string \<Rightarrow> duration \<Rightarrow> (health_server \<times> metrics) res option" where
  "new_health_server L addr lastSuccessPath cc maxAge =
     (case register_all (reg_accepts L) runtime_collectors [] of
        None \<Rightarrow> None
      | Some reg \<Rightarrow>
     (case register_metrics (reg_accepts L) reg of
        None \<Rightarrow> None
      | Some reg \<Rightarrow>
     (case hc_add L ''last-success'' of
        Some e \<Rightarrow> Some (Inl (wrapf ''register last-success check: '' e []))
      | None \<Rightarrow>
     (case mux_handle_all (server_routes L) [] of
        None \<Rightarrow> None
      | Some rs \<Rightarrow> Some (Inr (\<lparr>hs_registry = reg, hs_routes = rs, hs_success_status = 200, hs_error_status = 503,
          hs_timeouts = [5 * second, 10 * second, 10 * second, 60 * second], hs_addr = addr,
          hs_lastSuccessPath = lastSuccessPath, hs_maxAge = maxAge, hs_ln = False, hs_stopBgOnce = False,
          hc_starts = 0, hc_shutdowns = 0\<rparr>, new_metrics cc))))))"

text \<open>
  The status of an answer. The endpoints of the libraries, redirects and unknown paths are not
  followed further.
\<close>

definition respond :: "os_env \<Rightarrow> health_lib \<Rightarrow> health_server \<Rightarrow> string \<Rightarrow> world \<Rightarrow> int option \<times> world" where
  "respond E L h p w =
     (case mux_match (hs_routes h) p of
        Handled LiveHandler \<Rightarrow> (Some 200, w)
      | Handled HealthHandler \<Rightarrow>
          (case ready_check E (hs_lastSuccessPath h) (hs_maxAge h) w of
             (r, w) \<Rightarrow> (Some (hc_status L (hs_success_status h) (hs_error_status h) r), w))
      | _ \<Rightarrow> (None, w))"

definition pre_bind :: "(string \<Rightarrow> go_error option) \<Rightarrow> health_server \<Rightarrow> unit res \<times> health_server" where
  "pre_bind listen h =
     (if hs_ln h then (Inr (), h)
      else case listen (hs_addr h) of
        Some e \<Rightarrow> (Inl (wrapf (''listen '' @ hs_addr h @ '': '') e []), h)
      | None \<Rightarrow> (Inr (), h\<lparr>hs_ln := True\<rparr>))"

text \<open>\<open>Serve\<close> returns when the server is shut down, with \<open>http.ErrServerClosed\<close>, or fails.\<close>

definition serve :: "go_error option \<Rightarrow> unit res" where
  "serve served =
     (case served of
        None \<Rightarrow> Inr ()
      | Some e \<Rightarrow> if errors_is e ErrServerClosed then Inr () else Inl (wrapf ''serve: '' e []))"

definition start ::
  "(string \<Rightarrow> go_error option) \<Rightarrow> go_error option \<Rightarrow> health_server \<Rightarrow> unit res \<times> health_server" where
  "start listen served h =
     (case (if hs_ln h then (Inr (), h) else pre_bind listen h) of
        (Inl e, h) \<Rightarrow> (Inl e, h)
      | (Inr _, h) \<Rightarrow> (serve served, h\<lparr>hc_starts := Suc (hc_starts h)\<rparr>))"

definition stop_background_loop :: "health_server \<Rightarrow> health_server" where
  "stop_background_loop h =
     (if hs_stopBgOnce h then h else h\<lparr>hs_stopBgOnce := True, hc_shutdowns := Suc (hc_shutdowns h)\<rparr>)"

definition shutdown :: "go_error option \<Rightarrow> health_server \<Rightarrow> unit res \<times> health_server" where
  "shutdown srvShutdown h =
     (case srvShutdown of
        Some e \<Rightarrow> (Inl (wrapf ''http shutdown: '' e []), stop_background_loop h)
      | None \<Rightarrow> (Inr (), stop_background_loop h))"

section \<open>The marker\<close>

text \<open>Either nothing but a temporary file changed, or a complete marker is in place.\<close>

lemma write_last_success_cases:
  assumes "write_last_success E p w = (r, w')"
  obtains (failed) e tmp where "r = Inl e" "tmp \<noteq> p" "fs w tmp = None \<or> (\<forall>t. quiet t w w')" "quiet tmp w w'"
  | (written) tmp f n where "r = Inr ()" "fs w tmp = None" "tmp \<noteq> p" "fs w' = (fs w)(p \<mapsto> f)" "mtime f = clock E n"
      "\<exists>hs. history w' = history w @ hs @ [fs w'] \<and> list_all (intact tmp (fs w)) hs" "commands w' = commands w"
proof -
  obtain m w1 where mk: "os_mkdir_all E w = (m, w1)" by fastforce
  note w1 = mkdir_effect [OF mk]
  have q1: "quiet t w w1" for t using w1 quiet_tick [OF quiet_refl] by (simp add: intact_def)
  obtain c w2 where ct: "create_temp E (p @ ''.'') ''.tmp'' w1 = (c, w2)" by fastforce
  show thesis
  proof (cases m)
    case (Inl e)
    then have "\<exists>e. r = Inl e" "w' = w1" using assms mk by (auto simp: write_last_success_def)
    then show thesis using failed [of _ "CHR ''x'' # p"] q1 w1 by auto
  next
    case m: (Inr u)
    show thesis
    proof (cases c)
      case (Inl e)
      then have r: "\<exists>e. r = Inl e" "w' = w2" using assms mk ct m by (auto simp: write_last_success_def)
      have "w2 = tick (fs w) w1" using create_temp_Inl [of E "p @ ''.''" "''.tmp''" w1 e w2] ct Inl w1 by simp
      then have "fs w2 = fs w" "quiet t w w2" for t using quiet_tick [OF q1] by (simp_all add: intact_def)
      then show thesis using failed [of _ "CHR ''x'' # p"] r by auto
    next
      case (Inr tmp)
      note ct' = ct [unfolded Inr]
      have fresh: "fs w tmp = None" "tmp \<noteq> p" using create_temp_Inr(1,2) [OF ct'] w1 by auto
      have q2: "quiet tmp w w2" using create_temp_quiet_from [OF q1 ct'] .
      obtain x3 w3 where o3: "os_write E tmp (rfc3339 (clock E (calls w2)) @ [nl]) w2 = (x3, w3)" by fastforce
      obtain x4 w4 where o4: "os_close E tmp w3 = (x4, w4)" by fastforce
      obtain x5 w5 where o5: "os_rename E tmp p w4 = (x5, w5)" by fastforce
      note q3 = quiet_ops_eq(1) [OF q2 o3]
      note q4 = quiet_ops_eq(3) [OF q3 o4]
      show thesis
      proof (cases "\<exists>a b. x4 = Inr a \<and> x5 = Inr b")
        case False
        have "\<exists>e. r = Inl e"
          using assms mk ct m Inr o3 o4 o5 False by (auto simp: write_last_success_def split: sum.splits)
        moreover have "quiet tmp w w'"
          using assms mk ct m Inr o3 o4 o5 False quiet_ops(4) [OF q4, of E]
            quiet_ops(4) [OF quiet_ops_eq(5) [OF q4], of E p _ w5 E]
          by (auto simp: write_last_success_def split: sum.splits)
        ultimately show thesis using failed fresh by blast
      next
        case True
        then have r: "r = Inr ()" "w' = w5"
          using assms mk ct m Inr o3 o4 o5 by (auto simp: write_last_success_def)
        have w2: "w2 = tick ((fs w1)(tmp \<mapsto> \<lparr>bytes = [], perm = 384, mtime = clock E (calls w1)\<rparr>)) w1"
          using create_temp_Inr(3) [OF ct'] .
        have "\<exists>d. fs w3 = append_bytes E tmp d w2"
          using o3 by (auto simp: os_write_def os_call_def split: option.splits)
        moreover have "fs w4 = fs w3" using o4 by (auto simp: os_close_def os_call_def split: option.splits)
        ultimately obtain f where f: "fs w4 tmp = Some f" "mtime f = clock E (calls w2)"
          by (auto simp: append_bytes_def w2)
        obtain b where "os_rename E tmp p w4 = (Inr b, w5)" using True o5 by auto
        note rn = quiet_rename [OF q4 f(1) fresh this]
        show thesis using written [OF r(1) fresh _ f(2)] rn r(2) by simp
      qed
    qed
  qed
qed

lemma write_last_success_keeps:
  assumes "write_last_success E p w = (r, w')" "fs w q \<noteq> None" "q \<noteq> p"
  shows "keeps q w w'"
  using assms(1)
proof (cases rule: write_last_success_cases)
  case (failed e tmp)
  show ?thesis by (rule quiet_either_keeps [OF failed(3,4) assms(2)])
next
  case (written tmp f n)
  then have "q \<noteq> tmp" using assms(2) by auto
  then show ?thesis
    using written(4,6) assms(3) by (fastforce simp: keeps_def intact_def list_all_iff)
qed

text \<open>The check without failing system calls.\<close>

lemma ready_check_calm:
  assumes "\<And>n. fault E n = None"
  shows "fst (ready_check E p maxAge w) =
    (case fs w p of
       None \<Rightarrow> Inl (wrapf [] (errors_new ErrLastSuccessMissing) ('': '' @ p))
     | Some f \<Rightarrow> let age = clock E (Suc (calls w)) - mtime f in
         if age > maxAge
         then Inl (wrapf [] (errors_new ErrLastSuccessStale)
                ('': '' @ duration_string (duration_round age second) @ '' ago > '' @ duration_string maxAge))
         else Inr ())"
  using assms
  by (simp add: ready_check_def last_success_age_def os_stat_def os_call_def Let_def split: option.split)

theorem ready_check_fails_closed:
  assumes "\<And>n. fault E n = None"
  shows "(fst (ready_check E p maxAge w) = Inr () \<longleftrightarrow>
      (\<exists>f. fs w p = Some f \<and> clock E (Suc (calls w)) - mtime f \<le> maxAge))
    \<and> (\<forall>e. fst (ready_check E p maxAge w) = Inl e \<longrightarrow>
        errors_is e (if fs w p = None then ErrLastSuccessMissing else ErrLastSuccessStale))"
  unfolding ready_check_calm [OF assms] by (auto simp: Let_def split: option.split)

lemma ready_after_success:
  assumes "write_last_success E p w = (Inr u, w')" "\<And>n. fault E n = None" "\<And>m n. clock E m - clock E n \<le> maxAge"
  shows "fst (ready_check E p maxAge w') = Inr ()"
  using assms(1)
proof (cases rule: write_last_success_cases)
  case (written tmp f n)
  then show ?thesis using assms(3) [of "Suc (calls w')" n] by (simp add: ready_check_calm [OF assms(2)])
qed simp

lemma write_last_success_crash_safe:
  "\<exists>hs. history (snd (write_last_success E p w)) = history w @ hs
    \<and> list_all (\<lambda>s. s p = fs w p \<or> s p = fs (snd (write_last_success E p w)) p) hs"
proof -
  obtain r w' where rw: "write_last_success E p w = (r, w')" by fastforce
  then show ?thesis
  proof (cases rule: write_last_success_cases)
    case (failed e tmp)
    then show ?thesis using rw by (auto simp: quiet_def intact_def list_all_iff)
  next
    case (written tmp f n)
    then obtain hs where "history w' = history w @ hs @ [fs w']" "list_all (intact tmp (fs w)) hs" by blast
    then show ?thesis
      using rw written by (intro exI [of _ "hs @ [fs w']"]) (auto simp: intact_def list_all_iff)
  qed
qed

section \<open>The server\<close>

lemma hc_shutdowns_fold:
  "hs_stopBgOnce (fold (\<lambda>e h. snd (shutdown e h)) es h) = (hs_stopBgOnce h \<or> es \<noteq> [])
    \<and> hc_shutdowns (fold (\<lambda>e h. snd (shutdown e h)) es h) = hc_shutdowns h + (if \<not> hs_stopBgOnce h \<and> es \<noteq> [] then 1 else 0)"
proof (induction es arbitrary: h)
  case (Cons e es)
  show ?case using Cons.IH [of "snd (shutdown e h)"]
    by (auto simp: shutdown_def stop_background_loop_def split: option.splits)
qed simp

lemma new_health_server_Inr:
  assumes "new_health_server L addr p cc maxAge = Some (Inr (h, m))"
  shows "m = new_metrics cc" "hs_lastSuccessPath h = p" "hs_maxAge h = maxAge" "hs_success_status h = 200"
    "hs_error_status h = 503" "\<not> hs_stopBgOnce h" "hc_shutdowns h = 0" "hs_addr h = addr"
    "mux_handle_all (server_routes L) [] = Some (hs_routes h)"
  using assms by (auto simp: new_health_server_def split: option.splits)

lemma shutdown_once:
  assumes "new_health_server L addr p cc maxAge = Some (Inr (h, m))"
  shows "hc_shutdowns (fold (\<lambda>e h. snd (shutdown e h)) es h) = min 1 (length es)"
  using hc_shutdowns_fold [of es h] new_health_server_Inr [OF assms]
  by (cases es) (simp_all add: min_def)

text \<open>Without a panic the routes are those registered, each path once.\<close>

lemma mux_handle_all_routes:
  "mux_handle_all new rs = Some rs' \<Longrightarrow> distinct (map fst rs) \<Longrightarrow> rs' = rs @ new \<and> distinct (map fst rs')"
proof (induction new rs rule: mux_handle_all.induct)
  case (2 p h new rs)
  then have m: "mux_handle p h rs = Some (rs @ [(p, h)])" "distinct (map fst (rs @ [(p, h)]))"
    by (auto simp: mux_handle_def split: if_splits)
  then have "mux_handle_all new (rs @ [(p, h)]) = Some rs'" using 2(2) by simp
  note IH = 2(1) [OF m(1) this m(2)]
  have "rs' = rs @ (p, h) # new" using conjunct1 [OF IH] by simp
  with conjunct2 [OF IH] show ?case by blast
qed simp

lemma server_endpoint:
  assumes "new_health_server L addr p cc maxAge = Some (Inr (h, m))" "(q, e) \<in> set (server_routes L)"
  shows "mux_match (hs_routes h) q = Handled e"
proof -
  have rs: "hs_routes h = [] @ server_routes L \<and> distinct (map fst (hs_routes h))"
    by (rule mux_handle_all_routes [OF new_health_server_Inr(9) [OF assms(1)]]) simp
  have "(q, e) \<in> set (hs_routes h)" using conjunct1 [OF rs] assms(2) by simp
  with conjunct2 [OF rs] have "map_of (hs_routes h) q = Some e" by (rule map_of_is_SomeI)
  then show ?thesis by (simp add: mux_match_def)
qed

lemma pre_bind_once:
  "case pre_bind listen h of
     (Inr _, h') \<Rightarrow> pre_bind listen' h' = (Inr (), h') \<and> fst (start listen' served h') = serve served
   | (Inl _, h') \<Rightarrow> h' = h"
  by (auto simp: pre_bind_def start_def split: option.split)

text \<open>C31: On the server newHealthServer builds, GET of the readiness path answers 200 exactly while the
  last-success marker exists and is not older than the limit and 503 otherwise, and the liveness
  path answers 200 whatever the state of the work.\<close>

theorem health_endpoints:
  assumes "new_health_server L addr p cc maxAge = Some (Inr (h, m))" "\<And>n. fault E n = None"
    "\<And>a b. hc_status L a b (Inr ()) = a" "\<And>a b e. hc_status L a b (Inl e) = b"
  shows "fst (respond E L h (path_ready L) w) =
      Some (if \<exists>f. fs w p = Some f \<and> clock E (Suc (calls w)) - mtime f \<le> maxAge then 200 else 503)
    \<and> respond E L h (path_live L) w = (Some 200, w)"
proof -
  note hs = new_health_server_Inr [OF assms(1)]
  have "mux_match (hs_routes h) (path_ready L) = Handled HealthHandler" "mux_match (hs_routes h) (path_live L) = Handled LiveHandler"
    by (rule server_endpoint [OF assms(1)], simp add: server_routes_def)+
  moreover have "fst (ready_check E p maxAge w) = Inr () \<longleftrightarrow>
      (\<exists>f. fs w p = Some f \<and> clock E (Suc (calls w)) - mtime f \<le> maxAge)"
    unfolding ready_check_calm [OF assms(2)] by (auto simp: Let_def split: option.split)
  moreover obtain r w' where "ready_check E p maxAge w = (r, w')" by fastforce
  ultimately show ?thesis
    using hs(2-5) assms(3,4) by (cases r) (auto simp: respond_def)
qed

section \<open>A concrete marker\<close>

lemma ready_check_fails_closed_witness:
  "\<exists>e. fst (ready_check calm ''m'' 5 (start_world Map.empty)) = Inl e \<and> errors_is e ErrLastSuccessMissing"
  using ready_check_fails_closed [of calm "''m''" 5 "start_world Map.empty"]
  by (cases "fst (ready_check calm ''m'' 5 (start_world Map.empty))") auto

definition plain_lib :: health_lib where
  "plain_lib = \<lparr>reg_accepts = \<lambda>reg c. c \<notin> set reg, hc_add = \<lambda>_. None, path_live = ''/live'', path_ready = ''/ready'',
     path_startup = ''/startup'', path_health = ''/health'', path_debug = ''/debug/pprof/'',
     hc_status = \<lambda>a b r. case r of Inr _ \<Rightarrow> a | Inl _ \<Rightarrow> b\<rparr>"

lemma plain_server:
  obtains h where "new_health_server plain_lib a p cc age = Some (Inr (h, new_metrics cc))" "hs_addr h = a" "\<not> hs_ln h"
proof -
  have "\<exists>reg. register_all (reg_accepts plain_lib) runtime_collectors [] = Some reg
      \<and> (\<exists>reg'. register_metrics (reg_accepts plain_lib) reg = Some reg')"
    by (simp add: plain_lib_def runtime_collectors_def register_metrics_def metric_collectors_def must_register_def desc_defs)
  moreover have "mux_handle_all (server_routes plain_lib) [] = Some (server_routes plain_lib)"
    by (simp add: plain_lib_def server_routes_def mux_handle_def)
  ultimately show thesis using that by (auto simp: new_health_server_def) (simp_all add: plain_lib_def)
qed

lemma health_endpoints_witness:
  "\<exists>h. fst (respond calm plain_lib h ''/ready'' (start_world Map.empty)) = Some 503
    \<and> respond calm plain_lib h ''/live'' (start_world Map.empty) = (Some 200, start_world Map.empty)"
proof -
  obtain h where h: "new_health_server plain_lib '':9090'' ''m'' ''ru'' 5 = Some (Inr (h, new_metrics ''ru''))"
    by (rule plain_server)
  have "path_ready plain_lib = ''/ready''" "path_live plain_lib = ''/live''" by (simp_all add: plain_lib_def)
  with health_endpoints [OF h, of calm "start_world Map.empty"] show ?thesis by (auto simp: plain_lib_def)
qed

end
