(* ===== verification/Run.thy ===== *)
theory Run
  imports Nft Extras Cache Target Metrics
begin

text \<open>
  \<open>run\<close> of main.go, the pipeline of one cycle: fetch the feed or use the cache, load the
  operator's lists, aggregate, and hand the prefixes to the target. For FRR: nftables first, then the
  two blocks of frr.conf, then the reload, unless nothing changed. The state is the world and the
  metrics, which are absent without the HTTP server.
\<close>

section \<open>Feed and extras\<close>

text \<open>What \<open>loadExtras\<close> sees of a file: three system calls, the open, the stat and the read.\<close>

definition file_view :: "os_env \<Rightarrow> world \<Rightarrow> path \<Rightarrow> file_read" where
  "file_view E w p =
     (case fs w p of
        None \<Rightarrow> OpenErr (errors_new FsErrNotExist)
      | Some f \<Rightarrow>
     (case fault E (calls w) of
        Some e \<Rightarrow> OpenErr e
      | None \<Rightarrow>
     (case fault E (calls w + 1) of
        Some e \<Rightarrow> StatErr e
      | None \<Rightarrow>
     (case fault E (calls w + 2) of
        Some e \<Rightarrow> FileRead True (int (length (bytes f))) (take (partial E (calls w + 2)) (bytes f)) (Some e)
      | None \<Rightarrow> FileRead True (int (length (bytes f))) (bytes f) None))))"

definition load_extras_file :: "os_env \<Rightarrow> path \<Rightarrow> int \<Rightarrow> world \<Rightarrow> nprefix list res \<times> world" where
  "load_extras_file E path family w =
     (load_extras (file_view E w) path family,
      if path = [] then w else tick (fs w) (tick (fs w) (tick (fs w) w)))"

type_synonym meters = "metrics option"

definition result_label :: "'a res \<Rightarrow> string" where
  "result_label r = (case r of Inl _ \<Rightarrow> ''error'' | Inr _ \<Rightarrow> ''success'')"

definition count_prefixes ::
  "ripeResp \<Rightarrow> nprefix list \<Rightarrow> nprefix list \<Rightarrow> nprefix list \<Rightarrow> nprefix list \<Rightarrow> metrics \<Rightarrow> metrics" where
  "count_prefixes raw extrasV4 extrasV6 v4Agg v6Agg m =
     (let m = set_prefix_count ''v4'' ''ripe'' (int (length (IPv4 raw))) m;
          m = set_prefix_count ''v6'' ''ripe'' (int (length (IPv6 raw))) m;
          m = set_prefix_count ''v4'' ''extras'' (int (length extrasV4)) m;
          m = set_prefix_count ''v6'' ''extras'' (int (length extrasV6)) m;
          m = set_prefix_count ''v4'' ''merged'' (int (length v4Agg)) m;
          m = set_prefix_count ''v6'' ''merged'' (int (length v6Agg)) m
      in m)"

text \<open>The first half of \<open>run\<close>: the aggregated prefixes of both families.\<close>

definition run_feed ::
  "os_env \<Rightarrow> codec \<Rightarrow> cliFlags \<Rightarrow> world \<times> meters \<Rightarrow> (nprefix list \<times> nprefix list) res \<times> (world \<times> meters)" where
  "run_feed E C f = (\<lambda>(w, m).
     let fetchStart = clock E (calls w) in
     case fetch_with_cache E C (feedURL f, httpTimeout f) (cacheFile f) (cacheMaxAge f) (retryAttempts f) (retryBaseDelay f) w of
       ((r, source), w) \<Rightarrow>
     let m = map_option (observe_fetch (source_string source) (result_label r) (clock E (calls w) - fetchStart)) m in
     (case r of
        Inl e \<Rightarrow> (Inl (wrapf ''fetch: '' e []), (w, m))
      | Inr raw \<Rightarrow>
     (case load_extras_file E (extrasV4File f) 4 w of
        (Inl e, w) \<Rightarrow> (Inl (wrapf ''load extras v4: '' e []), (w, m))
      | (Inr extrasV4, w) \<Rightarrow>
     (case load_extras_file E (extrasV6File f) 6 w of
        (Inl e, w) \<Rightarrow> (Inl (wrapf ''load extras v6: '' e []), (w, m))
      | (Inr extrasV6, w) \<Rightarrow>
     (let v4Parsed = parse_prefixes (IPv4 raw) @ extrasV4;
          v6Parsed = parse_prefixes (IPv6 raw) @ extrasV6;
          v4Agg = aggregate v4Parsed;
          v6Agg = aggregate v6Parsed
      in (Inr (v4Agg, v6Agg), (w, map_option (count_prefixes raw extrasV4 extrasV6 v4Agg v6Agg) m)))))))"

section \<open>The FRR target\<close>

text \<open>From the nft update on; \<open>run_frr_conf\<close> from reading frr.conf on.\<close>

definition run_frr_conf ::
  "os_env \<Rightarrow> cliFlags \<Rightarrow> nprefix list \<Rightarrow> nprefix list \<Rightarrow> world \<times> meters \<Rightarrow> unit res \<times> (world \<times> meters)" where
  "run_frr_conf E f v4Agg v6Agg = (\<lambda>(w, m).
     case os_read_file E (frrConf f) w of
       (Inl e, w) \<Rightarrow> (Inl (wrapf ''read frr.conf: '' e []), (w, m))
     | (Inr cur, w) \<Rightarrow>
     (case frr_next f v4Agg v6Agg cur of
        Inl e \<Rightarrow> (Inl e, (w, m))
      | Inr next \<Rightarrow>
          if \<not> force f \<and> cur = next then (Inr (), (w, m))
          else
            let frrStart = clock E (calls w) in
            case apply_frr_config_opts E (frrConf f) next
                   \<lparr>opt_frrReloadScript = frrReloadScript f, opt_frrReloadTimeout = frrReloadTimeout f,
                    opt_skipReload = \<not> reloadOK f\<rparr> w of
              (r, w) \<Rightarrow>
            let m = map_option (observe_frr_reload (result_label r) (clock E (calls w) - frrStart)) m in
            (case r of
               Inl e \<Rightarrow> (Inl (wrapf ''apply frr.conf: '' e []), (w, m))
             | Inr _ \<Rightarrow> (Inr (), (w, m)))))"

definition run_frr ::
  "os_env \<Rightarrow> cliFlags \<Rightarrow> nprefix list \<Rightarrow> nprefix list \<Rightarrow> world \<times> meters \<Rightarrow> unit res \<times> (world \<times> meters)" where
  "run_frr E f v4Agg v6Agg = (\<lambda>(w, m).
     if \<not> updateNft f then run_frr_conf E f v4Agg v6Agg (w, m)
     else
       let nftStart = clock E (calls w) in
       case apply_nft E f v4Agg v6Agg w of
         (r, w) \<Rightarrow>
       let m = map_option (observe_nft_apply (result_label r) (clock E (calls w) - nftStart)) m in
       (case r of
          Inl e \<Rightarrow> (Inl (wrapf ''apply nft: '' e []), (w, m))
        | Inr _ \<Rightarrow> run_frr_conf E f v4Agg v6Agg (w, m)))"

section \<open>run\<close>

definition run ::
  "os_env \<Rightarrow> codec \<Rightarrow> ssh_env \<Rightarrow> cliFlags \<Rightarrow> world \<times> meters \<Rightarrow> unit res \<times> (world \<times> meters)" where
  "run E C S f st =
     (case run_feed E C f st of
        (Inl e, st) \<Rightarrow> (Inl e, st)
      | (Inr (v4Agg, v6Agg), (w, m)) \<Rightarrow>
          if target f \<noteq> ''frr'' then
            (case run_target E S f v4Agg w of (r, w) \<Rightarrow> (r, (w, m)))
          else
            (case validate_frr_target_mode (targetMode f) of
               Inl e \<Rightarrow> (Inl e, (w, m))
             | Inr _ \<Rightarrow>
                 if dryRun f then (Inr (), (w, m))
                 else run_frr E f v4Agg v6Agg (w, m)))"

section \<open>The feed half touches only the cache file\<close>

lemma read_cached_feed_keeps: "read_cached_feed E C p a w = (r, w') \<Longrightarrow> keeps q w w'"
  by (auto simp: read_cached_feed_def os_stat_def os_read_file_def os_call_def Let_def keeps_def
      split: prod.splits sum.splits option.splits if_splits)

lemma fetch_with_retry_effect:
  assumes "fetch_with_retry E C url n d w = (r, w')"
  shows "outputs w' = outputs w" "keeps q w w'"
proof -
  show "outputs w' = outputs w"
    using assms retry_loop_outputs unfolding fetch_with_retry_def by blast
  show "keeps q w w'"
    using assms retry_loop_fs unfolding fetch_with_retry_def keeps_def list_all_iff
    by (metis in_set_replicate)
qed

lemma fetch_with_cache_effect:
  assumes "fetch_with_cache E C url p a n d w = (x, w')"
  shows "outputs w' = outputs w" "fs w q \<noteq> None \<Longrightarrow> q \<noteq> p \<Longrightarrow> keeps q w w'"
proof -
  obtain r w1 where f: "fetch_with_retry E C url n d w = (r, w1)" by fastforce
  note e = fetch_with_retry_effect [OF f]
  obtain u w2 where wr: "write_cached_feed E C p (projr r) w1 = (u, w2)" by fastforce
  obtain c w3 where rd: "read_cached_feed E C p a w1 = (c, w3)" by fastforce
  have out: "w' = w1 \<or> w' = w2 \<or> w' = w3"
    using assms f wr rd by (auto simp: fetch_with_cache_def split: sum.splits if_splits)
  show "outputs w' = outputs w"
    using out e(1) effects_outputs [OF effects_write_cached_feed [OF wr]]
      effects_outputs [OF effects_read_cached_feed [OF rd]] by auto
  show "keeps q w w'" if q: "fs w q \<noteq> None" "q \<noteq> p"
  proof -
    have "fs w1 q \<noteq> None" using e(2) [of q] q(1) by (simp add: keeps_def)
    then show ?thesis
      using out e(2) keeps_trans [OF e(2) write_cached_feed_keeps [OF wr _ q(2)]]
        keeps_trans [OF e(2) read_cached_feed_keeps [OF rd]] by auto
  qed
qed

lemma load_extras_file_effect:
  assumes "load_extras_file E p fam w = (r, w')"
  shows "outputs w' = outputs w" "keeps q w w'" "r = load_extras (file_view E w) p fam"
  using assms by (auto simp: load_extras_file_def outputs_def keeps_def tick_def split: if_splits)

lemma load_extras_file_fs: "load_extras_file E p fam w = (r, w') \<Longrightarrow> fs w' = fs w"
  by (auto simp: load_extras_file_def)

lemma run_feed_effect:
  assumes "run_feed E C f (w, m) = (r, (w', m'))"
  shows "outputs w' = outputs w" "fs w q \<noteq> None \<Longrightarrow> q \<noteq> cacheFile f \<Longrightarrow> keeps q w w'"
proof -
  obtain x w1 where fe: "fetch_with_cache E C (feedURL f, httpTimeout f) (cacheFile f) (cacheMaxAge f) (retryAttempts f) (retryBaseDelay f) w = (x, w1)"
    by fastforce
  obtain y4 w2 where l4: "load_extras_file E (extrasV4File f) 4 w1 = (y4, w2)" by fastforce
  obtain y6 w3 where l6: "load_extras_file E (extrasV6File f) 6 w2 = (y6, w3)" by fastforce
  have out: "w' = w1 \<or> w' = w2 \<or> w' = w3"
    using assms fe l4 l6 by (auto simp: run_feed_def Let_def split: prod.splits sum.splits)
  note e1 = fetch_with_cache_effect [OF fe] and e4 = load_extras_file_effect [OF l4] and e6 = load_extras_file_effect [OF l6]
  show "outputs w' = outputs w" using out e1(1) e4(1) e6(1) by auto
  show "keeps q w w'" if "fs w q \<noteq> None" "q \<noteq> cacheFile f"
    using out e1(2) [OF that] e4(2) [of q] e6(2) [of q] keeps_trans by blast
qed

text \<open>What the feed half returns: both lists aggregated, from the fetched entries and the operator's lists.\<close>

lemma run_feed_Inr:
  assumes "run_feed E C f (w, m) = (Inr (v4, v6), st)"
  obtains raw src w1 ex4 ex6 w2 where
    "fetch_with_cache E C (feedURL f, httpTimeout f) (cacheFile f) (cacheMaxAge f) (retryAttempts f) (retryBaseDelay f) w = ((Inr raw, src), w1)"
    "load_extras_file E (extrasV4File f) 4 w1 = (Inr ex4, w2)" "load_extras_file E (extrasV6File f) 6 w2 = (Inr ex6, fst st)"
    "v4 = aggregate (parse_prefixes (IPv4 raw) @ ex4)" "v6 = aggregate (parse_prefixes (IPv6 raw) @ ex6)"
    "fs w2 = fs w1" "list_all canonical ex4" "list_all canonical ex6"
proof -
  obtain x w1 where fe: "fetch_with_cache E C (feedURL f, httpTimeout f) (cacheFile f) (cacheMaxAge f) (retryAttempts f) (retryBaseDelay f) w = (x, w1)"
    by fastforce
  obtain y4 w2 where l4: "load_extras_file E (extrasV4File f) 4 w1 = (y4, w2)" by fastforce
  obtain y6 w3 where l6: "load_extras_file E (extrasV6File f) 6 w2 = (y6, w3)" by fastforce
  obtain raw src ex4 ex6 where r: "x = (Inr raw, src)" "y4 = Inr ex4" "y6 = Inr ex6" "fst st = w3"
    "v4 = aggregate (parse_prefixes (IPv4 raw) @ ex4)" "v6 = aggregate (parse_prefixes (IPv6 raw) @ ex6)"
    using assms fe l4 l6 by (auto simp: run_feed_def Let_def split: prod.splits sum.splits)
  show thesis
    using that [of raw src w1 ex4 w2 ex6] fe r l4 l6 load_extras_file_fs [OF l4]
      load_extras_file_effect(3) [OF l4] load_extras_file_effect(3) [OF l6] load_extras_ok by metis
qed

text \<open>A list as \<open>aggregate\<close> returns it.\<close>

definition aggregated :: "nprefix list \<Rightarrow> bool" where
  "aggregated ps \<longleftrightarrow> list_all canonical ps \<and> sorted_wrt (<) ps \<and> pairwise_disjoint block ps"

lemma aggregated_aggregate: "list_all canonical ps \<Longrightarrow> aggregated (aggregate ps)"
  using aggregate_reduced [of ps] sorted_before_strict
  by (simp add: aggregated_def list_all_iff reduced_def)

lemma run_feed_aggregated:
  assumes "run_feed E C f (w, m) = (Inr (v4, v6), st)"
  shows "aggregated v4" "aggregated v6"
proof -
  obtain raw :: ripeResp and ex4 ex6 where r: "v4 = aggregate (parse_prefixes (IPv4 raw) @ ex4)"
    "v6 = aggregate (parse_prefixes (IPv6 raw) @ ex6)" "list_all canonical ex4" "list_all canonical ex6"
    using assms by (rule run_feed_Inr) (rule that; assumption)
  then show "aggregated v4" "aggregated v6"
    using parse_prefixes_ok by (auto intro!: aggregated_aggregate)
qed

section \<open>The FRR half\<close>

lemma keeps_steady: "keeps p w w' \<Longrightarrow> contents w p \<in> ds \<Longrightarrow> steady p ds w w'"
  by (auto simp: keeps_def steady_def safe_def contents_def list_all_iff)

lemma read_keeps: "os_read_file E p w = (r, w') \<Longrightarrow> keeps q w w' \<and> outputs w' = outputs w"
  by (auto simp: os_read_file_def os_call_def keeps_def outputs_def tick_def split: option.splits)

lemma nft_keeps: "apply_nft E f v4 v6 w = (r, w') \<Longrightarrow> keeps q w w'"
  using apply_nft_effect [of E f v4 v6 w r w'] by (simp add: keeps_def)

text \<open>The outcomes of the second part: nothing to do, an early error, or one call of \<open>applyFRRConfigOpts\<close>.\<close>

abbreviation frr_opts :: "cliFlags \<Rightarrow> applyOpts" where
  "frr_opts f \<equiv> \<lparr>opt_frrReloadScript = frrReloadScript f, opt_frrReloadTimeout = frrReloadTimeout f,
     opt_skipReload = \<not> reloadOK f\<rparr>"

lemma run_frr_conf_cases:
  assumes "run_frr_conf E f v4 v6 (w, m) = (r, (w', m'))"
  obtains (early) e where "r = Inl e" "keeps (frrConf f) w w'" "commands w' = commands w" "m' = m"
  | (unchanged) cur where "r = Inr ()" "contents w (frrConf f) = Some cur" "frr_next f v4 v6 cur = Inr cur"
      "\<not> force f" "fs w' = fs w" "keeps (frrConf f) w w'" "commands w' = commands w" "m' = m"
  | (applied) cur nxt w1 r1 where "contents w (frrConf f) = Some cur" "frr_next f v4 v6 cur = Inr nxt"
      "force f \<or> cur \<noteq> nxt" "keeps (frrConf f) w w1" "fs w1 = fs w" "commands w1 = commands w"
      "apply_frr_config_opts E (frrConf f) nxt (frr_opts f) w1 = (r1, w')"
      "r = (case r1 of Inl e \<Rightarrow> Inl (wrapf ''apply frr.conf: '' e []) | Inr u \<Rightarrow> Inr u)"
proof -
  obtain c w1 where rd: "os_read_file E (frrConf f) w = (c, w1)" by fastforce
  have k: "keeps (frrConf f) w w1" "commands w1 = commands w" "fs w1 = fs w"
    using read_keeps [OF rd] read_effect(1) [OF rd] by (auto simp: outputs_def)
  show thesis
  proof (cases c)
    case (Inl e)
    then show thesis using assms rd k early by (auto simp: run_frr_conf_def)
  next
    case (Inr cur)
    have cur: "contents w (frrConf f) = Some cur" using read_effect(2) rd Inr by blast
    show thesis
    proof (cases "frr_next f v4 v6 cur")
      case (Inl e)
      then show thesis using assms rd k \<open>c = Inr cur\<close> early by (auto simp: run_frr_conf_def)
    next
      case nx: (Inr nxt)
      obtain r1 w2 where ap: "apply_frr_config_opts E (frrConf f) nxt (frr_opts f) w1 = (r1, w2)" by fastforce
      show thesis
        using assms rd k Inr nx ap cur unchanged [of cur] applied [of cur nxt w1 r1]
        by (auto simp: run_frr_conf_def Let_def split: if_splits sum.splits)
    qed
  qed
qed

text \<open>With nft first, if asked for.\<close>

lemma run_frr_cases:
  assumes "run_frr E f v4 v6 (w, m) = (r, (w', m'))"
  obtains (plain) "\<not> updateNft f" "run_frr_conf E f v4 v6 (w, m) = (r, (w', m'))"
  | (failed) e where "updateNft f" "r = Inl e" "keeps (frrConf f) w w'"
      "commands w' = commands w @ [(nft_cmd f v4 v6, fs w, False)]"
  | (nft) w1 m1 where "updateNft f" "keeps (frrConf f) w w1" "fs w1 = fs w"
      "commands w1 = commands w @ [(nft_cmd f v4 v6, fs w, True)]"
      "run_frr_conf E f v4 v6 (w1, m1) = (r, (w', m'))"
proof (cases "updateNft f")
  case True
  obtain x w1 where n: "apply_nft E f v4 v6 w = (x, w1)" by fastforce
  note eff = apply_nft_effect [OF n] nft_keeps [OF n]
  show thesis
  proof (cases x)
    case (Inl e)
    then show thesis using assms True n eff failed by (auto simp: run_frr_def Let_def)
  next
    case (Inr u)
    then show thesis using assms True n eff nft by (auto simp: run_frr_def Let_def)
  qed
qed (use assms plain in \<open>simp add: run_frr_def\<close>)

lemma steady_mono: "steady p ds w0 w \<Longrightarrow> ds \<subseteq> es \<Longrightarrow> steady p es w0 w"
  unfolding steady_def safe_def list_all_iff by blast

text \<open>The contents frr.conf may have during a cycle that aggregated \<open>v4\<close> and \<open>v6\<close>.\<close>

definition frr_contents :: "cliFlags \<Rightarrow> nprefix list \<Rightarrow> nprefix list \<Rightarrow> string \<Rightarrow> string option set" where
  "frr_contents f v4 v6 old = {Some c |c. c = old \<or> frr_next f v4 v6 old = Inr c}"

lemma frr_contentsI:
  "c = old \<or> frr_next f v4 v6 old = Inr c \<Longrightarrow> Some c \<in> frr_contents f v4 v6 old"
  by (simp add: frr_contents_def)

lemma safe_frr_contents:
  "safe p (frr_contents f v4 v6 old) s \<longleftrightarrow> map_option bytes (s p) = Some old
     \<or> (\<exists>c. map_option bytes (s p) = Some c \<and> frr_next f v4 v6 old = Inr c)"
  unfolding safe_def frr_contents_def by blast

lemma run_frr_conf_steady:
  assumes "run_frr_conf E f v4 v6 (w, m) = (r, (w', m'))" "contents w (frrConf f) = Some old"
  shows "steady (frrConf f) (frr_contents f v4 v6 old) w w'"
proof -
  have kept: "steady (frrConf f) (frr_contents f v4 v6 old) w x" if "keeps (frrConf f) w x" for x
    by (rule keeps_steady [OF that]) (simp add: assms(2) frr_contentsI)
  from assms(1) show ?thesis
  proof (cases rule: run_frr_conf_cases)
    case (applied cur nxt w1 r1)
    then have "Some nxt \<in> frr_contents f v4 v6 old" using assms(2) by (simp add: frr_contentsI)
    then show ?thesis
      using steady_apply [OF kept [OF applied(4)], of nxt E "frr_opts f"] applied(7) by simp
  qed (use kept in simp_all)
qed

section \<open>The whole of run\<close>

lemma run_cases:
  assumes "run E C S f (w, m) = (r, (w', m'))"
  obtains (failed) e where "r = Inl e" "run_feed E C f (w, m) = (Inl e, (w', m'))"
  | (other) v4 v6 w1 where "target f \<noteq> ''frr''" "run_feed E C f (w, m) = (Inr (v4, v6), (w1, m'))"
      "run_target E S f v4 w1 = (r, w')"
  | (idle) v4 v6 where "target f = ''frr''" "run_feed E C f (w, m) = (Inr (v4, v6), (w', m'))"
      "(\<exists>e. r = Inl e) \<or> dryRun f \<and> r = Inr ()"
  | (frr) v4 v6 w1 m1 where "target f = ''frr''" "\<not> dryRun f"
      "run_feed E C f (w, m) = (Inr (v4, v6), (w1, m1))" "run_frr E f v4 v6 (w1, m1) = (r, (w', m'))"
proof -
  obtain x w1 m1 where fe: "run_feed E C f (w, m) = (x, (w1, m1))" by (metis prod_cases3)
  show thesis
  proof (cases x)
    case (Inl e)
    then show thesis using assms fe failed [of e] by (auto simp: run_def)
  next
    case (Inr vs)
    obtain v4 v6 where vs: "vs = (v4, v6)" by fastforce
    then show thesis
      using assms fe Inr other [of v4 v6 w1] idle [of v4 v6] frr [of v4 v6 w1 m1]
      by (cases "validate_frr_target_mode (targetMode f)")
        (auto simp: run_def split: if_splits prod.splits, metis)
  qed
qed

lemma steady_moments:
  assumes "steady p ds w0 w"
  shows "\<exists>hs. history w = history w0 @ hs \<and> list_all (safe p ds) hs"
  using assms by (auto simp: steady_def)

lemma steady_trans: "steady p ds w0 w1 \<Longrightarrow> steady p ds w1 w \<Longrightarrow> steady p ds w0 w"
  by (auto simp: steady_def)

lemma run_frr_steady:
  assumes "run_frr E f v4 v6 (w, m) = (r, (w', m'))" "contents w (frrConf f) = Some old"
  shows "steady (frrConf f) (frr_contents f v4 v6 old) w w'"
proof -
  have old: "contents w (frrConf f) \<in> frr_contents f v4 v6 old" using assms(2) by (simp add: frr_contentsI)
  from assms(1) show ?thesis
  proof (cases rule: run_frr_cases)
    case (nft w1 m1)
    then have "contents w1 (frrConf f) = Some old" using assms(2) by (simp add: contents_def)
    then show ?thesis using steady_trans [OF keeps_steady [OF nft(2) old] run_frr_conf_steady [OF nft(5)]] by simp
  next
    case (failed e)
    show ?thesis using keeps_steady [OF failed(3) old] .
  qed (use run_frr_conf_steady assms(2) in simp)
qed

lemma run_feed_keeps_conf:
  assumes "run_feed E C f (w, m) = (r, (w', m'))" "frrConf f \<noteq> cacheFile f" "contents w (frrConf f) = Some old"
  shows "keeps (frrConf f) w w'" "contents w' (frrConf f) = Some old" "commands w' = commands w"
proof -
  show k: "keeps (frrConf f) w w'"
    using run_feed_effect(2) [OF assms(1), of "frrConf f"] assms(2,3) by (auto simp: contents_def)
  then show "contents w' (frrConf f) = Some old" using assms(3) by (simp add: keeps_def contents_def)
  show "commands w' = commands w" using run_feed_effect(1) [OF assms(1)] by (simp add: outputs_def)
qed

lemma run_steady:
  assumes "run E C S f (w, m) = (r, (w', m'))" "target f = ''frr''" "frrConf f \<noteq> cacheFile f"
    "contents w (frrConf f) = Some old"
  obtains v4 v6 where "aggregated v4" "aggregated v6" "steady (frrConf f) (frr_contents f v4 v6 old) w w'"
proof -
  note feed = run_feed_keeps_conf [OF _ assms(3,4)]
  have kept: "steady (frrConf f) (frr_contents f v4 v6 old) w x" if "keeps (frrConf f) w x" for v4 v6 x
    by (rule keeps_steady [OF that]) (simp add: assms(4) frr_contentsI)
  have nil: "aggregated []" by (simp add: aggregated_def pairwise_disjoint_def)
  from assms(1) show thesis
  proof (cases rule: run_cases)
    case (failed e)
    show thesis by (rule that [OF nil nil kept [OF feed(1) [OF failed(2)]]])
  next
    case (idle v4 v6)
    show thesis by (rule that [OF run_feed_aggregated [OF idle(2)] kept [OF feed(1) [OF idle(2)]]])
  next
    case (frr v4 v6 w1 m1)
    show thesis
      by (rule that [OF run_feed_aggregated [OF frr(3)]
            steady_trans [OF kept [OF feed(1) [OF frr(3)]] run_frr_steady [OF frr(4) feed(2) [OF frr(3)]]]])
  qed (use assms(2) in simp)
qed

section \<open>A cycle that nothing disturbs\<close>

lemma fetch_answered:
  assumes "\<And>n. http E n url = Resp 200 b" "json_decode C (take max_body_bytes b) = Inr raw" "Status raw = ''ok''" "0 < n"
  obtains w1 where "fetch_with_retry E C url n d w = (Inr raw, w1)" "fs w1 = fs w"
proof -
  obtain k where "nat n = Suc k" using assms(4) by (metis not0_implies_Suc zero_less_nat_eq less_numeral_extra(3))
  then show thesis using that assms(1-3) by (simp add: fetch_with_retry_def fetch_def)
qed

lemma run_frr_conf_calm:
  assumes "\<And>n. fault E n = None" "\<And>n c. outcome E n c = None" "names_free E (frrConf f) (fs w)"
    "contents w (frrConf f) = Some cur" "frr_next f v4 v6 cur = Inr nxt"
  shows "fst (run_frr_conf E f v4 v6 (w, m)) = Inr ()"
proof -
  obtain c w1 where rd: "os_read_file E (frrConf f) w = (c, w1)" by fastforce
  then have c: "c = Inr cur" "fs w1 = fs w"
    using assms(1,4) by (auto simp: os_read_file_def os_call_def contents_def split: option.splits)
  have "\<exists>w'. apply_frr_config_opts E (frrConf f) nxt (frr_opts f) w1 = (Inr (), w')"
  proof (cases "reloadOK f")
    case True
    then show ?thesis using apply_frr_ok [OF assms(1), of "frrConf f" w1 "frr_opts f" nxt] assms(2,3) c(2) by simp
  next
    case False
    then show ?thesis
      using atomic_write_succeeds [OF assms(1), of w1 "frrConf f" nxt] assms(3) c(2)
      by (auto simp: apply_frr_config_opts_def names_free_def prod_eq_iff)
  qed
  then show ?thesis using rd c assms(5) by (auto simp: run_frr_conf_def Let_def)
qed

lemma run_frr_calm:
  assumes "\<And>n. fault E n = None" "\<And>n c. outcome E n c = None" "names_free E (frrConf f) (fs w)"
    "contents w (frrConf f) = Some cur" "frr_next f v4 v6 cur = Inr nxt"
  shows "fst (run_frr E f v4 v6 (w, m)) = Inr ()"
proof (cases "updateNft f")
  case True
  obtain x w1 where n: "apply_nft E f v4 v6 w = (x, w1)" by fastforce
  then have "x = Inr ()" using assms(2) by (auto simp: apply_nft_def os_exec_def Let_def)
  moreover have "fst (run_frr_conf E f v4 v6 (w1, k)) = Inr ()" for k
    using run_frr_conf_calm [OF assms(1,2), of f w1 cur v4 v6 nxt k] assms(3-5) apply_nft_effect(1) [OF n]
    by (simp add: contents_def)
  ultimately show ?thesis using n True by (simp add: run_frr_def Let_def)
qed (use run_frr_conf_calm [OF assms] in \<open>simp add: run_frr_def\<close>)

text \<open>The feed half: the answer is used, and no file but the cache changes.\<close>

lemma file_view_same:
  assumes "\<And>n. fault E n = None" "fs w p = fs w' p"
  shows "file_view E w p = file_view E w' p"
  using assms by (simp add: file_view_def split: option.split)

lemma fetch_with_cache_calm:
  assumes "\<And>n. http E n url = Resp 200 b" "json_decode C (take max_body_bytes b) = Inr raw" "Status raw = ''ok''" "0 < n"
    "\<And>n. fault E n = None"
  obtains w1 c where "fetch_with_cache E C url p age n d w = ((Inr raw, SourceFresh), w1)" "fs w1 = (fs w)(p := c)"
proof -
  obtain w1 where w1: "fetch_with_retry E C url n d w = (Inr raw, w1)" "fs w1 = fs w"
    by (rule fetch_answered [OF assms(1-4)])
  obtain u w2 where wr: "write_cached_feed E C p raw w1 = (u, w2)" by fastforce
  obtain c where c: "fs w2 = (fs w1)(p := c)" by (rule write_cached_feed_calm [OF assms(5) wr])
  show thesis
  proof (cases "p = []")
    case True
    then show thesis using that [of w1 "fs w p"] w1 by (simp add: fetch_with_cache_def)
  next
    case False
    then show thesis using that [of w2 c] w1 wr c by (simp add: fetch_with_cache_def)
  qed
qed

lemma run_feed_calm:
  assumes net: "\<And>n. http E n (feedURL f, httpTimeout f) = Resp 200 b" "json_decode C (take max_body_bytes b) = Inr raw"
      "Status raw = ''ok''" "0 < retryAttempts f" and calm: "\<And>n. fault E n = None"
    and own: "cacheFile f \<notin> {extrasV4File f, extrasV6File f} - {[]}"
    and ex: "load_extras (file_view E w) (extrasV4File f) 4 = Inr ex4" "load_extras (file_view E w) (extrasV6File f) 6 = Inr ex6"
  obtains w1 m1 c where "run_feed E C f (w, m) =
      (Inr (aggregate (parse_prefixes (IPv4 raw) @ ex4), aggregate (parse_prefixes (IPv6 raw) @ ex6)), (w1, m1))"
    "fs w1 = (fs w)(cacheFile f := c)"
proof -
  obtain w1 c where fe: "fetch_with_cache E C (feedURL f, httpTimeout f) (cacheFile f) (cacheMaxAge f)
      (retryAttempts f) (retryBaseDelay f) w = ((Inr raw, SourceFresh), w1)" "fs w1 = (fs w)(cacheFile f := c)"
    by (rule fetch_with_cache_calm [OF net calm])
  have same: "load_extras (file_view E x) p fam = load_extras (file_view E w) p fam"
    if "fs x = fs w1" "p \<in> {extrasV4File f, extrasV6File f}" for x p fam
  proof (cases "p = []")
    case False
    then have "fs x p = fs w p" using that own fe(2) by auto
    then show ?thesis by (intro load_extras_cong file_view_same calm)
  qed (simp add: load_extras_def)
  obtain w2 where l4: "load_extras_file E (extrasV4File f) 4 w1 = (Inr ex4, w2)" "fs w2 = fs w1"
    using same [of w1] ex(1) by (simp add: load_extras_file_def)
  obtain w3 where l6: "load_extras_file E (extrasV6File f) 6 w2 = (Inr ex6, w3)" "fs w3 = fs w1"
    using same [of w2] ex(2) l4(2) by (simp add: load_extras_file_def)
  show thesis
    using that [of w3 _ c] fe l4 l6 by (simp add: run_feed_def Let_def)
qed

lemma run_calm:
  assumes net: "\<And>n. http E n (feedURL f, httpTimeout f) = Resp 200 b" "json_decode C (take max_body_bytes b) = Inr raw"
      "Status raw = ''ok''" "0 < retryAttempts f"
    and flags: "target f = ''frr''" "targetMode f = ''apply''" "bang_free (markerPrefix f)" "bang_free (routeMap f)"
      "cacheFile f \<noteq> frrConf f" "cacheFile f \<notin> {extrasV4File f, extrasV6File f} - {[]}"
    and ex: "load_extras (file_view E w) (extrasV4File f) 4 = Inr ex4" "load_extras (file_view E w) (extrasV6File f) 6 = Inr ex6"
    and os: "\<And>n. fault E n = None" "\<And>n c. outcome E n c = None" "\<And>c. names_free E (frrConf f) ((fs w)(cacheFile f := c))"
      "contents w (frrConf f) = Some cur" "frr_layout f cur"
  shows "fst (run E C S f (w, m)) = Inr ()"
proof -
  obtain w1 m1 c where fe: "run_feed E C f (w, m) =
      (Inr (aggregate (parse_prefixes (IPv4 raw) @ ex4), aggregate (parse_prefixes (IPv6 raw) @ ex6)), (w1, m1))"
      "fs w1 = (fs w)(cacheFile f := c)"
    by (rule run_feed_calm [OF net os(1) flags(6) ex])
  let ?v4 = "aggregate (parse_prefixes (IPv4 raw) @ ex4)" and ?v6 = "aggregate (parse_prefixes (IPv6 raw) @ ex6)"
  have "list_all canonical ?v4" "list_all canonical ?v6"
    using run_feed_aggregated [OF fe(1)] by (simp_all add: aggregated_def)
  then obtain nxt where "frr_next f ?v4 ?v6 cur = Inr nxt"
    using frr_next_stable [OF flags(3,4) _ _ os(5)] by blast
  moreover have "names_free E (frrConf f) (fs w1)" "contents w1 (frrConf f) = Some cur"
    using os(3,4) fe(2) flags(5) by (simp_all add: contents_def)
  ultimately have "fst (run_frr E f ?v4 ?v6 (w1, m1)) = Inr ()"
    using run_frr_calm [OF os(1,2)] by blast
  then show ?thesis using fe(1) flags(1,2) by (simp add: run_def validate_frr_target_mode_def)
qed

section \<open>Properties\<close>

lemma run_crash_safe:
  assumes "run E C S f (w, m) = (r, (w', m'))" "target f = ''frr''" "frrConf f \<noteq> cacheFile f"
    "contents w (frrConf f) = Some old"
  shows "\<exists>v4 v6 hs. aggregated v4 \<and> aggregated v6 \<and> history w' = history w @ hs
    \<and> list_all (\<lambda>s. map_option bytes (s (frrConf f)) = Some old
        \<or> (\<exists>c. map_option bytes (s (frrConf f)) = Some c \<and> frr_next f v4 v6 old = Inr c)) hs"
proof -
  obtain v4 v6 where v: "aggregated v4" "aggregated v6" "steady (frrConf f) (frr_contents f v4 v6 old) w w'"
    using run_steady [OF assms] .
  obtain hs where "history w' = history w @ hs" "list_all (safe (frrConf f) (frr_contents f v4 v6 old)) hs"
    using steady_moments [OF v(3)] by (elim exE conjE)
  then show ?thesis using v(1,2) unfolding safe_frr_contents by (intro exI conjI)
qed

text \<open>The commands an apply may run with their results: a check, a reload, and the reload of a rollback.\<close>

definition cmd_result :: "command \<times> file_system \<times> bool \<Rightarrow> command \<times> bool" where
  "cmd_result = (\<lambda>(c, s, ok). (c, ok))"

definition apply_traces :: "cliFlags \<Rightarrow> path \<Rightarrow> (command \<times> bool) list set" where
  "apply_traces f staged =
     (let check = vtysh_check staged;
          reload = frr_reload_cmd (frrReloadScript f) (frrReloadTimeout f) (frrConf f)
      in {[], [(check, False)], [(check, True)], [(check, True), (reload, True)], [(check, True), (reload, False)],
          [(check, True), (reload, False), (reload, False)], [(check, True), (reload, False), (reload, True)]})"

lemma apply_trace:
  assumes "apply_frr_config_opts E (frrConf f) new (frr_opts f) w = (r, w')"
  obtains cs st where "commands w' = commands w @ cs" "map cmd_result cs \<in> apply_traces f st" "cs \<noteq> [] \<longrightarrow> reloadOK f"
proof (cases "reloadOK f")
  case False
  then have "commands w' = commands w"
    using assms effects_atomic_write [of E "frrConf f" new w r w'] by (simp add: apply_frr_config_opts_def effects_def)
  then show thesis using that [of "[]"] by (simp add: apply_traces_def Let_def)
next
  case True
  then have "\<not> opt_skipReload (frr_opts f)" by simp
  with assms show thesis
  proof (cases rule: apply_frr_cases)
    case (early e)
    then show thesis using that [of "[]"] by (simp add: apply_traces_def Let_def)
  next
    case (rejected e st s)
    then show thesis using that [of "[(vtysh_check st, s, False)]" st] True by (simp add: apply_traces_def cmd_result_def Let_def)
  next
    case (checked w3 w5 st)
    have "\<exists>cs. commands w5 = commands w3 @ cs \<and> map cmd_result ((vtysh_check st, fs w3, True) # cs) \<in> apply_traces f st"
      using checked(1)
      by (cases rule: install_live_cases) (auto simp: apply_traces_def cmd_result_def Let_def)
    then show thesis using checked(5,6) that True by (metis append.assoc append_Cons append_Nil)
  qed
qed

text \<open>C8: A run for the FRR target starts no program but nft, vtysh -C and the reload script: nft once and
  first, while frr.conf has its old contents, and nothing after it if it fails; then at most one
  check, after an accepted one at most one reload, after a failed one at most one more. nft and
  the reloads carry their configured deadlines, the check has none of its own.\<close>

theorem run_commands:
  assumes "run E C S f (w, m) = (r, (w', m'))" "target f = ''frr''" "frrConf f \<noteq> cacheFile f"
    "contents w (frrConf f) = Some old"
  shows "\<exists>pre post st. commands w' = commands w @ pre @ post
    \<and> map cmd_result post \<in> apply_traces f st \<and> (post \<noteq> [] \<longrightarrow> reloadOK f)
    \<and> (if updateNft f then
         pre = [] \<and> post = [] \<and> contents w' (frrConf f) = Some old
         \<or> (\<exists>v4 v6 s ok. pre = [(nft_cmd f v4 v6, s, ok)] \<and> aggregated v4 \<and> aggregated v6
              \<and> map_option bytes (s (frrConf f)) = Some old
              \<and> (ok \<or> post = [] \<and> contents w' (frrConf f) = Some old))
       else pre = [])"
  using assms(1)
proof (cases rule: run_cases)
  case (frr v4 v6 w1 m1)
  note feed = run_feed_keeps_conf [OF frr(3) assms(3,4)] run_feed_aggregated [OF frr(3)]
  have conf: "\<exists>post st. commands w' = commands x @ post \<and> map cmd_result post \<in> apply_traces f st \<and> (post \<noteq> [] \<longrightarrow> reloadOK f)"
    if "run_frr_conf E f v4 v6 (x, k) = (r, (w', m'))" for x k
    using that
  proof (cases rule: run_frr_conf_cases)
    case (applied cur nxt w3 r1)
    then show ?thesis using apply_trace [OF applied(7)] by metis
  qed (auto simp: apply_traces_def Let_def)
  from frr(4) show ?thesis
  proof (cases rule: run_frr_cases)
    case plain
    then show ?thesis using conf [OF plain(2)] feed(3) by auto
  next
    case (failed e)
    have "contents w' (frrConf f) = Some old" "map_option bytes (fs w1 (frrConf f)) = Some old"
      using failed(3) feed(2) by (simp_all add: contents_def keeps_def)
    then show ?thesis
      using failed(1,4) feed(3-5) by (intro exI [of _ "[(nft_cmd f v4 v6, fs w1, False)]"] exI [of _ "[]"])
        (auto simp: apply_traces_def Let_def)
  next
    case (nft w2 m2)
    obtain post st where p: "commands w' = commands w2 @ post" "map cmd_result post \<in> apply_traces f st" "post \<noteq> [] \<longrightarrow> reloadOK f"
      using conf [OF nft(5)] by metis
    have "map_option bytes (fs w1 (frrConf f)) = Some old" using feed(2) by (simp add: contents_def)
    then show ?thesis
      using p nft(1,4) feed(3-5) by (intro exI [of _ "[(nft_cmd f v4 v6, fs w1, True)]"] exI [of _ post] exI [of _ st]) auto
  qed
qed (use assms(2) run_feed_keeps_conf [OF _ assms(3,4)] in \<open>auto simp: apply_traces_def Let_def\<close>)

lemma run_dry_run:
  assumes "dryRun f" "run E C S f (w, m) = (r, (w', m'))"
  shows "outputs w' = outputs w \<and> (fs w q = None \<or> q = cacheFile f \<or> fs w' q = fs w q)"
proof -
  have feed: ?thesis if "run_feed E C f (w, m) = (x, (w', k))" for x k
    using run_feed_effect(1) [OF that] run_feed_effect(2) [OF that, of q] by (auto simp: keeps_def)
  from assms(2) show ?thesis
  proof (cases rule: run_cases)
    case (other v4 v6 w1)
    then have "w' = w1" using assms(1) by (auto simp: run_target_def split: option.splits sum.splits)
    then show ?thesis using feed other(2) by simp
  qed (use assms(1) feed in auto)
qed

text \<open>C9: The prefix lists run works with are aggregated (valid, sorted, disjoint) and cover exactly the
  addresses of the parsed feed entries together with those of the operator's lists; both lists are
  read from the files as the fetch left them, the v4 list first, and reading them changes nothing.\<close>

theorem run_feed_prefixes:
  assumes "run_feed E C f (w, m) = (Inr (v4, v6), (w', m'))"
  shows "\<exists>raw src w1 w2 ex4 ex6. aggregated v4 \<and> aggregated v6
    \<and> fetch_with_cache E C (feedURL f, httpTimeout f) (cacheFile f) (cacheMaxAge f) (retryAttempts f) (retryBaseDelay f) w = ((Inr raw, src), w1)
    \<and> load_extras_file E (extrasV4File f) 4 w1 = (Inr ex4, w2) \<and> load_extras_file E (extrasV6File f) 6 w2 = (Inr ex6, w')
    \<and> load_extras (file_view E w1) (extrasV4File f) 4 = Inr ex4 \<and> load_extras (file_view E w2) (extrasV6File f) 6 = Inr ex6
    \<and> fs w1 = fs w' \<and> fs w2 = fs w'
    \<and> covered v4 = covered (parse_prefixes (IPv4 raw)) \<union> covered ex4
    \<and> covered v6 = covered (parse_prefixes (IPv6 raw)) \<union> covered ex6"
proof -
  have u: "covered (aggregate (ps @ qs)) = covered ps \<union> covered qs"
    if "list_all canonical ps" "list_all canonical qs" for ps qs
    using aggregate_reduced(3) [of "ps @ qs"] that by (auto simp: covered_def list_all_iff)
  obtain raw :: ripeResp and src w1 ex4 ex6 w2 where r:
    "fetch_with_cache E C (feedURL f, httpTimeout f) (cacheFile f) (cacheMaxAge f) (retryAttempts f) (retryBaseDelay f) w = ((Inr raw, src), w1)"
    "load_extras_file E (extrasV4File f) 4 w1 = (Inr ex4, w2)" "load_extras_file E (extrasV6File f) 6 w2 = (Inr ex6, w')"
    "v4 = aggregate (parse_prefixes (IPv4 raw) @ ex4)" "v6 = aggregate (parse_prefixes (IPv6 raw) @ ex6)"
    "list_all canonical ex4" "list_all canonical ex6"
    using assms by (rule run_feed_Inr) (rule that; simp)
  note u = u [OF parse_prefixes_ok r(6)] u [OF parse_prefixes_ok r(7)]
  show ?thesis
    using u r load_extras_file_effect(3) [OF r(2)] load_extras_file_effect(3) [OF r(3)]
      load_extras_file_fs [OF r(2)] load_extras_file_fs [OF r(3)] run_feed_aggregated [OF assms]
    by (intro exI [of _ raw] exI [of _ src] exI [of _ w1] exI [of _ w2] exI [of _ ex4] exI [of _ ex6]) simp
qed

lemma apply_frr_last:
  assumes "apply_frr_config_opts E p new opts w = (Inr u, w')"
  shows "contents w' p = Some new"
    and "opt_skipReload opts \<or> (\<exists>s. last (commands w') = (frr_reload_cmd (opt_frrReloadScript opts) (opt_frrReloadTimeout opts) p, s, True)
           \<and> map_option bytes (s p) = Some new)"
  using apply_frr_done [OF assms] by auto

text \<open>C6: When run succeeds for the FRR target, frr.conf holds exactly the old file with the v4 block
  replaced by the rendered v4 list of this run's feed half and the v6 block by its v6 list, and
  unless nothing changed without force or reloads are off, the last command was a successful
  reload that saw that file.\<close>

theorem run_frr_success:
  assumes "run E C S f (w, m) = (Inr (), (w', m'))" "target f = ''frr''" "\<not> dryRun f" "frrConf f \<noteq> cacheFile f"
    "contents w (frrConf f) = Some old"
  shows "\<exists>v4 v6 st b4 e4 b6 e6 mid nxt. run_feed E C f (w, m) = (Inr (v4, v6), st) \<and> aggregated v4 \<and> aggregated v6
    \<and> markers f = (b4, e4, b6, e6)
    \<and> splice old b4 e4 (render_networks v4 (routeMap f)) = Inr mid
    \<and> splice mid b6 e6 (render_networks v6 (routeMap f)) = Inr nxt
    \<and> contents w' (frrConf f) = Some nxt
    \<and> (nxt = old \<and> \<not> force f \<or> \<not> reloadOK f
       \<or> (\<exists>s. last (commands w') = (frr_reload_cmd (frrReloadScript f) (frrReloadTimeout f) (frrConf f), s, True)
            \<and> map_option bytes (s (frrConf f)) = Some nxt))"
  using assms(1)
proof (cases rule: run_cases)
  case (frr v4 v6 w1 m1)
  note feed = run_feed_keeps_conf [OF frr(3) assms(4,5)] run_feed_aggregated [OF frr(3)]
  have spliced: "\<exists>b4 e4 b6 e6 mid. markers f = (b4, e4, b6, e6)
      \<and> splice old b4 e4 (render_networks v4 (routeMap f)) = Inr mid
      \<and> splice mid b6 e6 (render_networks v6 (routeMap f)) = Inr nxt" if "frr_next f v4 v6 old = Inr nxt" for nxt
    using that by (auto simp: frr_next_def split: prod.splits sum.splits)
  have goal: ?thesis if "frr_next f v4 v6 old = Inr nxt" "contents w' (frrConf f) = Some nxt"
      "nxt = old \<and> \<not> force f \<or> \<not> reloadOK f
       \<or> (\<exists>s. last (commands w') = (frr_reload_cmd (frrReloadScript f) (frrReloadTimeout f) (frrConf f), s, True)
            \<and> map_option bytes (s (frrConf f)) = Some nxt)" for nxt
    using spliced [OF that(1)] that(2,3) frr(3) feed(4,5) by blast
  have conf: ?thesis
    if c: "run_frr_conf E f v4 v6 (w2, m2) = (Inr (), (w', m'))" and o: "contents w2 (frrConf f) = Some old" for w2 m2
    using c
  proof (cases rule: run_frr_conf_cases)
    case (unchanged cur)
    have "cur = old" using unchanged(2) o by simp
    then show ?thesis using goal [of old] o unchanged(3,4,5) by (simp add: contents_def)
  next
    case (applied cur nxt w3 r1)
    have "r1 = Inr ()" using applied(8) by (cases r1) simp_all
    note last = apply_frr_last [OF applied(7) [unfolded this], unfolded applyOpts.simps]
    have "frr_next f v4 v6 old = Inr nxt" using applied(1,2) o by simp
    then show ?thesis using goal [of nxt] last by blast
  qed simp
  from frr(4) show ?thesis
  proof (cases rule: run_frr_cases)
    case (nft w2 m2)
    have "contents w2 (frrConf f) = Some old" using nft(3) feed(2) by (simp add: contents_def)
    then show ?thesis by (rule conf [OF nft(5)])
  next
    case plain
    show ?thesis by (rule conf [OF plain(2) feed(2)])
  qed simp
qed (use assms(2,3) in auto)

theorem run_frr_conf_again:
  assumes "run_frr_conf E f v4 v6 (w, m) = (Inr (), (w', m'))" "contents w (frrConf f) = Some cur" "frr_layout f cur"
    "bang_free (markerPrefix f)" "bang_free (routeMap f)" "list_all canonical v4" "list_all canonical v6"
    "\<not> force f" "fault E (calls w') = None"
  shows "\<exists>w''. run_frr_conf E f v4 v6 (w', k) = (Inr (), (w'', k)) \<and> fs w'' = fs w' \<and> commands w'' = commands w'"
proof -
  obtain nxt where n: "frr_next f v4 v6 cur = Inr nxt" "frr_next f v4 v6 nxt = Inr nxt"
    using frr_next_stable [OF assms(4-7,3)] by blast
  have "contents w' (frrConf f) = Some nxt"
    using assms(1)
  proof (cases rule: run_frr_conf_cases)
    case (applied c x w1 r1)
    have "r1 = Inr ()" using applied(8) by (cases r1) simp_all
    then have "apply_frr_config_opts E (frrConf f) x (frr_opts f) w1 = (Inr (), w')" using applied(7) by simp
    moreover have "x = nxt" using applied(1,2) n(1) assms(2) by simp
    ultimately show ?thesis by (simp add: apply_frr_last(1))
  next
    case (unchanged c)
    have "c = nxt" using unchanged(2,3) n(1) assms(2) by simp
    then show ?thesis using unchanged(2,5) by (simp add: contents_def)
  qed simp
  then have "os_read_file E (frrConf f) w' = (Inr nxt, tick (fs w') w')"
    using assms(9) by (auto simp: os_read_file_def os_call_def contents_def)
  then show ?thesis using n(2) assms(8) by (simp add: run_frr_conf_def)
qed

text \<open>C10: For the FRR target in apply mode, with at least one attempt, run succeeds if the feed answers,
  the operator's lists load where they are set, no system call or command fails, the first random
  names are free, frr.conf has both blocks, no exclamation mark is configured in its markers, and
  the cache file is none of the other files.\<close>

theorem run_succeeds:
  assumes "\<And>n. http E n (feedURL f, httpTimeout f) = Resp 200 b" "json_decode C (take max_body_bytes b) = Inr raw"
      "Status raw = ''ok''" "0 < retryAttempts f"
    and "target f = ''frr''" "targetMode f = ''apply''" "bang_free (markerPrefix f)" "bang_free (routeMap f)"
      "cacheFile f \<noteq> frrConf f" "cacheFile f \<notin> {extrasV4File f, extrasV6File f} - {[]}"
    and "load_extras (file_view E w) (extrasV4File f) 4 = Inr ex4" "load_extras (file_view E w) (extrasV6File f) 6 = Inr ex6"
    and "\<And>n. fault E n = None" "\<And>n c. outcome E n c = None" "\<And>c. names_free E (frrConf f) ((fs w)(cacheFile f := c))"
      "contents w (frrConf f) = Some cur" "frr_layout f cur"
  shows "fst (run E C S f (w, m)) = Inr ()"
  using assms by (rule run_calm)

section \<open>Concrete runs\<close>

definition run_env :: os_env where
  "run_env = calm\<lparr>http := \<lambda>_ _. Resp 200 sample_body\<rparr>"

definition run_flags :: cliFlags where
  "run_flags = feed_flags\<lparr>frrConf := ''f'', target := ''frr'', targetMode := ''apply'', retryAttempts := 1,
     updateNft := True, reloadOK := True\<rparr>"

definition frr_world :: world where
  "frr_world = start_world [''f'' \<mapsto> \<lparr>bytes = frr_text, perm = 416, mtime = 0\<rparr>]"

definition sample_run :: "cliFlags \<Rightarrow> unit res \<times> (world \<times> meters)" where
  "sample_run f = run run_env sample_codec (sshd []) f (frr_world, None)"

lemma sample_facts:
  "http run_env n u = Resp 200 sample_body" "fault run_env n = None" "outcome run_env n c = None"
  "frr_layout run_flags frr_text" "contents frr_world ''f'' = Some frr_text" "names_free run_env ''f'' ((fs frr_world)([] := g))"
  "frrConf run_flags = ''f''" "target run_flags = ''frr''" "targetMode run_flags = ''apply''" "retryAttempts run_flags = 1"
  "cacheFile run_flags = []" "extrasV4File run_flags = []" "extrasV6File run_flags = []" "updateNft run_flags"
  "markerPrefix run_flags = ''X''" "routeMap run_flags = ''M''" "\<not> dryRun run_flags"
  "load_extras files [] family = Inr []" "names_free run_env ''f'' (fs frr_world)"
  by (simp_all add: run_env_def run_flags_def frr_world_def contents_def names_free_def frr_layout_def markers_def
      two_blocks_def has_prefix_def load_extras_def)

lemma sample_ok: "fst (sample_run run_flags) = Inr ()"
  unfolding sample_run_def
  by (rule run_calm [where b = sample_body and raw = sample_resp and cur = frr_text and ?ex4.0 = "[]" and ?ex6.0 = "[]"])
    (simp_all only: sample_facts, simp_all)

lemma sample_split: "run run_env sample_codec (sshd []) f (frr_world, None)
    = (fst (sample_run f), (fst (snd (sample_run f)), snd (snd (sample_run f))))"
  by (simp add: sample_run_def)

lemma run_commands_witness:
  "\<exists>pre post st. commands (fst (snd (sample_run run_flags))) = commands frr_world @ pre @ post
    \<and> map cmd_result post \<in> apply_traces run_flags st \<and> length pre \<le> 1"
proof -
  obtain pre post st where p: "commands (fst (snd (sample_run run_flags))) = commands frr_world @ pre @ post"
    "map cmd_result post \<in> apply_traces run_flags st"
    "pre = [] \<or> (\<exists>v4 v6 s ok. pre = [(nft_cmd run_flags v4 v6, s, ok)])"
    using run_commands [OF sample_split [of run_flags], of frr_text] unfolding sample_facts by (simp split: if_splits) blast
  then show ?thesis by (intro exI [of _ pre] exI [of _ post] exI [of _ st]) auto
qed

lemma sample_feed:
  "run_feed run_env sample_codec run_flags (frr_world, None) =
    (Inr (aggregate (parse_prefixes [''10.0.0.0/8'']), aggregate []), ((tick (fs frr_world) frr_world)\<lparr>requests := [(feedURL run_flags, httpTimeout run_flags)]\<rparr>, None))"
  by (simp add: run_feed_def fetch_with_cache_def fetch_with_retry_def fetch_def sample_facts load_extras_file_def
      load_extras_def Let_def) (simp add: frr_world_def)

text \<open>The network of the feed in frr.conf, and reloaded.\<close>

definition net_10 :: nprefix where "net_10 = Prefix (addr_from4 0x0A000000) 8"

lemma net_10_text: "canonical net_10" "prefix_string net_10 = ''10.0.0.0/8''"
proof -
  show c: "canonical net_10" by code_simp
  have "nat_str 10 = ''10''" "nat_str 0 = ''0''" "nat_str 8 = ''8''" by code_simp+
  then show "prefix_string net_10 = ''10.0.0.0/8''"
    by (simp add: net_10_def prefix_string_def prefix_valid_def addr_string_def string4_def addr_from4_def int_str_def)
qed

lemma sample_parsed: "parse_prefixes [''10.0.0.0/8''] = [net_10]"
proof -
  have "list_all prefix_char ''10.0.0.0/8''" by (simp add: prefix_char_def is_digit_def) 
  then have t: "trim_space ''10.0.0.0/8'' = ''10.0.0.0/8''" using trim_space_prefix_chars [of "''10.0.0.0/8''"] by simp
  have "\<not> str_contains ''10.0.0.0/8'' ''-''" by code_simp
  then show ?thesis
    using t net_10_text parse_prefix_string [of net_10] by (simp add: canonical_def Let_def)
qed

lemma sample_aggregated: "aggregate [net_10] = [net_10]" "aggregate [] = []"
  by code_simp+

lemma run_frr_conf_again_witness:
  "\<exists>w' m' w''. run_frr_conf run_env run_flags [net_a] [] (frr_world, None) = (Inr (), (w', m'))
     \<and> run_frr_conf run_env run_flags [net_a] [] (w', None) = (Inr (), (w'', None)) \<and> fs w'' = fs w'"
proof -
  have free: "bang_free (markerPrefix run_flags)" "bang_free (routeMap run_flags)"
    "list_all canonical [net_a]" "list_all canonical []" "\<not> force run_flags"
    using nets_canonical by (simp_all add: run_flags_def)
  obtain nxt where n: "frr_next run_flags [net_a] [] frr_text = Inr nxt"
    using frr_next_stable [OF free(1-4) sample_facts(4)] by blast
  have "fst (run_frr_conf run_env run_flags [net_a] [] (frr_world, None)) = Inr ()"
    by (rule run_frr_conf_calm [OF _ _ _ _ n]) (simp_all only: sample_facts)
  then obtain w' m' where r: "run_frr_conf run_env run_flags [net_a] [] (frr_world, None) = (Inr (), (w', m'))"
    by (metis prod.collapse)
  have c: "contents frr_world (frrConf run_flags) = Some frr_text" by (simp only: sample_facts)
  show ?thesis using run_frr_conf_again [OF r c sample_facts(4) free sample_facts(2), of None] r by blast
qed

end
