(* ===== verification/GoFlag.thy ===== *)
theory GoFlag
  imports Go_Prelude
begin

text \<open>
  The package \<open>flag\<close> of the standard library as \<open>realMain\<close> uses it: the table of the registered
  flags, the values they take (\<open>strconv.ParseBool\<close>, \<open>strconv.ParseInt\<close> with base 0,
  \<open>time.ParseDuration\<close> with its 64-bit limits and its float64 fractions) and the loop over the
  arguments. The results: a number or duration printed in decimal is read back, a list of
  \<open>--name=value\<close> arguments sets every flag once, and parsing stops at the first argument that is
  no flag, whatever follows.
\<close>

section \<open>strconv.ParseBool and ParseInt\<close>

definition parse_bool :: "string \<Rightarrow> bool option" where
  "parse_bool s =
     (if s \<in> {''1'', ''t'', ''T'', ''true'', ''TRUE'', ''True''} then Some True
      else if s \<in> {''0'', ''f'', ''F'', ''false'', ''FALSE'', ''False''} then Some False
      else None)"

datatype num_error = ErrSyntax | ErrRange

text \<open>\<open>flag.numError\<close> shortens the two errors.\<close>

definition num_error_text :: "num_error \<Rightarrow> string" where
  "num_error_text e = (case e of ErrSyntax \<Rightarrow> ''parse error'' | ErrRange \<Rightarrow> ''value out of range'')"

text \<open>The value of a digit of a base up to 36; \<open>char_lower\<close> is the identity outside the letters.\<close>

definition digit_value :: "char \<Rightarrow> nat option" where
  "digit_value c =
     (let n = of_char c :: nat; l = of_char (char_lower c) :: nat in
      if 48 \<le> n \<and> n \<le> 57 then Some (n - 48)
      else if 97 \<le> l \<and> l \<le> 122 then Some (l - 87)
      else None)"

text \<open>The loop of \<open>ParseUint\<close> for base 0, where underscores are skipped and noted.\<close>

fun uint_loop :: "nat \<Rightarrow> nat \<Rightarrow> bool \<Rightarrow> string \<Rightarrow> num_error + nat \<times> bool" where
  "uint_loop base n us [] = Inr (n, us)"
| "uint_loop base n us (c # s) =
     (if c = CHR ''_'' then uint_loop base n True s
      else case digit_value c of
        None \<Rightarrow> Inl ErrSyntax
      | Some d \<Rightarrow>
          if base \<le> d then Inl ErrSyntax
          else if 2 ^ 64 \<le> n * base + d then Inl ErrRange
          else uint_loop base (n * base + d) us s)"

text \<open>The prefix that chooses the base.\<close>

definition base_prefix :: "string \<Rightarrow> nat \<times> string" where
  "base_prefix s =
     (if s \<noteq> [] \<and> hd s = CHR ''0'' then
        (if 3 \<le> length s \<and> char_lower (s ! 1) = CHR ''b'' then (2, drop 2 s)
         else if 3 \<le> length s \<and> char_lower (s ! 1) = CHR ''o'' then (8, drop 2 s)
         else if 3 \<le> length s \<and> char_lower (s ! 1) = CHR ''x'' then (16, drop 2 s)
         else (8, drop 1 s))
      else (10, s))"

text \<open>\<open>underscoreOK\<close>: underscores only between digits, a base prefix counting as one.\<close>

datatype saw = SawStart | SawDigit | SawUnderscore | SawOther

fun underscore_loop :: "bool \<Rightarrow> saw \<Rightarrow> string \<Rightarrow> bool" where
  "underscore_loop hex saw [] = (saw \<noteq> SawUnderscore)"
| "underscore_loop hex saw (c # s) =
     (let n = of_char c :: nat; l = of_char (char_lower c) :: nat in
      if 48 \<le> n \<and> n \<le> 57 \<or> hex \<and> 97 \<le> l \<and> l \<le> 102 then underscore_loop hex SawDigit s
      else if c = CHR ''_'' then saw = SawDigit \<and> underscore_loop hex SawUnderscore s
      else saw \<noteq> SawUnderscore \<and> underscore_loop hex SawOther s)"

definition underscore_ok :: "string \<Rightarrow> bool" where
  "underscore_ok s =
     (if 2 \<le> length s \<and> s ! 0 = CHR ''0'' \<and> char_lower (s ! 1) \<in> {CHR ''b'', CHR ''o'', CHR ''x''}
      then underscore_loop (char_lower (s ! 1) = CHR ''x'') SawDigit (drop 2 s)
      else underscore_loop False SawStart s)"

definition parse_uint :: "string \<Rightarrow> num_error + nat" where
  "parse_uint s =
     (if s = [] then Inl ErrSyntax
      else case base_prefix s of
        (base, digits) \<Rightarrow>
     (case uint_loop base 0 False digits of
        Inl e \<Rightarrow> Inl e
      | Inr (n, underscores) \<Rightarrow> if underscores \<and> \<not> underscore_ok s then Inl ErrSyntax else Inr n))"

definition parse_int :: "string \<Rightarrow> num_error + int" where
  "parse_int s =
     (if s = [] then Inl ErrSyntax
      else
        let neg = (hd s = CHR ''-'');
            s = (if hd s = CHR ''+'' \<or> hd s = CHR ''-'' then tl s else s)
        in case parse_uint s of
          Inl e \<Rightarrow> Inl e
        | Inr un \<Rightarrow>
            if \<not> neg \<and> 2 ^ 63 \<le> un then Inl ErrRange
            else if neg \<and> 2 ^ 63 < un then Inl ErrRange
            else Inr (if neg then - int un else int un))"

section \<open>float64\<close>

text \<open>
  A positive float64 is kept as a numerator and a power of two as denominator. \<open>f64 p q\<close> rounds
  \<open>p / q\<close> to 53 bits, halves to even. The exponents that occur here are far from the limits.
\<close>

fun bits :: "nat \<Rightarrow> nat" where
  "bits n = (if n = 0 then 0 else Suc (bits (n div 2)))"

declare bits.simps [simp del]

definition half_even :: "nat \<Rightarrow> nat \<Rightarrow> nat" where
  "half_even p q =
     (let d = p div q; r = p mod q in if q < 2 * r \<or> q = 2 * r \<and> odd d then Suc d else d)"

definition f64 :: "nat \<Rightarrow> nat \<Rightarrow> nat \<times> nat" where
  "f64 p q =
     (if p = 0 then (0, 1)
      else
        let e = int (bits p) - int (bits q) - 53;
            e = (if p * 2 ^ nat (- e) div (q * 2 ^ nat e) < 2 ^ 53 then e else e + 1)
        in (half_even (p * 2 ^ nat (- e)) (q * 2 ^ nat e) * 2 ^ nat e, 2 ^ nat (- e)))"

definition f64_mul :: "nat \<times> nat \<Rightarrow> nat \<times> nat \<Rightarrow> nat \<times> nat" where
  "f64_mul x y = f64 (fst x * fst y) (snd x * snd y)"

text \<open>\<open>uint64(float64(f) * (float64(unit) / scale))\<close>; the conversion truncates.\<close>

definition fraction_part :: "nat \<Rightarrow> nat \<Rightarrow> nat \<Rightarrow> nat" where
  "fraction_part f unit scale = (let x = f64_mul (f64 f 1) (f64 unit scale) in fst x div snd x)"

section \<open>time.ParseDuration\<close>

text \<open>\<open>leadingInt\<close> fails beyond 2 ^ 63; \<open>leadingFraction\<close> ignores the digits it cannot hold.\<close>

fun leading_int :: "nat \<Rightarrow> string \<Rightarrow> (nat \<times> string) option" where
  "leading_int x [] = Some (x, [])"
| "leading_int x (c # s) =
     (if \<not> is_digit c then Some (x, c # s)
      else if 2 ^ 63 < x * 10 + digit_val c then None
      else leading_int (x * 10 + digit_val c) s)"

fun leading_fraction :: "nat \<Rightarrow> nat \<Rightarrow> bool \<Rightarrow> string \<Rightarrow> nat \<times> nat \<times> string" where
  "leading_fraction x scale overflow [] = (x, scale, [])"
| "leading_fraction x scale overflow (c # s) =
     (if \<not> is_digit c then (x, scale, c # s)
      else if overflow \<or> 2 ^ 63 < x * 10 + digit_val c then leading_fraction x scale True s
      else leading_fraction (x * 10 + digit_val c) (scale * 10) False s)"

definition unit_map :: "(string \<times> nat) list" where
  "unit_map =
     [(''ns'', 1), (''us'', 10 ^ 3), ([CHR 0xC2, CHR 0xB5, CHR ''s''], 10 ^ 3), ([CHR 0xCE, CHR 0xBC, CHR ''s''], 10 ^ 3),
      (''ms'', 10 ^ 6), (''s'', 10 ^ 9), (''m'', 60 * 10 ^ 9), (''h'', 3600 * 10 ^ 9)]"

definition number_char :: "char \<Rightarrow> bool" where "number_char c \<longleftrightarrow> c = CHR ''.'' \<or> is_digit c"

text \<open>One round of the loop: a number with an optional fraction and a unit, in nanoseconds, and the rest.\<close>

definition duration_term :: "string \<Rightarrow> (nat \<times> string) option" where
  "duration_term s =
     (if s = [] \<or> \<not> number_char (hd s) then None
      else case leading_int 0 s of
        None \<Rightarrow> None
      | Some (v, s1) \<Rightarrow>
     (let pre = (length s1 \<noteq> length s);
          dot = (s1 \<noteq> [] \<and> hd s1 = CHR ''.'');
          (f, scale, s2) = (if dot then leading_fraction 0 1 False (tl s1) else (0, 1, s1));
          post = (dot \<and> length s2 \<noteq> length (tl s1));
          u = takeWhile (\<lambda>c. \<not> number_char c) s2
      in if \<not> pre \<and> \<not> post then None
         else if u = [] then None
         else case map_of unit_map u of
           None \<Rightarrow> None
         | Some unit \<Rightarrow>
             if 2 ^ 63 div unit < v then None
             else
               let v = v * unit + (if 0 < f then fraction_part f unit scale else 0)
               in if 0 < f \<and> 2 ^ 63 < v then None
                  else Some (v, dropWhile (\<lambda>c. \<not> number_char c) s2)))"

lemma leading_int_length: "leading_int x s = Some (v, r) \<Longrightarrow> length r \<le> length s"
  by (induction x s rule: leading_int.induct) (auto split: if_splits)

lemma leading_fraction_length: "leading_fraction x k b s = (v, k', r) \<Longrightarrow> length r \<le> length s"
  by (induction x k b s rule: leading_fraction.induct) (auto split: if_splits)

lemma unit_shortens: "takeWhile P s \<noteq> [] \<Longrightarrow> length (dropWhile P s) < length s"
  by (cases s) (auto simp: less_Suc_eq_le length_dropWhile_le split: if_splits)

lemma duration_term_shorter: "duration_term s = Some (v, r) \<Longrightarrow> length r < length s"
proof -
  assume a: "duration_term s = Some (v, r)"
  then obtain x s1 where l: "leading_int 0 s = Some (x, s1)"
    by (auto simp: duration_term_def split: if_splits option.splits)
  obtain f k s2 where lf: "(if s1 \<noteq> [] \<and> hd s1 = CHR ''.'' then leading_fraction 0 1 False (tl s1) else (0, 1, s1)) = (f, k, s2)"
    by (metis prod_cases3)
  have le: "length s2 \<le> length s"
    using leading_int_length [OF l] leading_fraction_length [of 0 1 False "tl s1" f k s2] lf by (auto split: if_splits)
  have "takeWhile (\<lambda>c. \<not> number_char c) s2 \<noteq> []" "r = dropWhile (\<lambda>c. \<not> number_char c) s2"
    using a l lf by (auto simp: duration_term_def Let_def split: if_splits option.splits)
  then show ?thesis using unit_shortens [of "\<lambda>c. \<not> number_char c" s2] le by simp
qed

text \<open>The sum is a \<open>uint64\<close>.\<close>

function duration_loop :: "nat \<Rightarrow> string \<Rightarrow> nat option" where
  "duration_loop d s =
     (if s = [] then Some d
      else case duration_term s of
        None \<Rightarrow> None
      | Some (v, r) \<Rightarrow>
          if 2 ^ 63 < (d + v) mod 2 ^ 64 then None else duration_loop ((d + v) mod 2 ^ 64) r)"
  by pat_completeness auto
termination
  by (relation "measure (\<lambda>(d, s). length s)") (auto dest: duration_term_shorter)

declare duration_loop.simps [simp del]

definition parse_duration :: "string \<Rightarrow> int option" where
  "parse_duration s =
     (let neg = (s \<noteq> [] \<and> hd s = CHR ''-'');
          s = (if s \<noteq> [] \<and> (hd s = CHR ''-'' \<or> hd s = CHR ''+'') then tl s else s)
      in if s = ''0'' then Some 0
         else if s = [] then None
         else case duration_loop 0 s of
           None \<Rightarrow> None
         | Some d \<Rightarrow> if neg then Some (- int d) else if 2 ^ 63 - 1 < d then None else Some (int d))"

section \<open>Decimal numbers are read back\<close>


lemma digit_value_char: "d < 10 \<Longrightarrow> digit_value (digit_char d) = Some d \<and> digit_char d \<noteq> CHR ''_''"
proof -
  assume "d < 10"
  then have "of_char (digit_char d) = 48 + d" by (simp add: digit_char_def take_bit_nat_eq_self)
  then show ?thesis using \<open>d < 10\<close> by (auto simp: digit_value_def)
qed

lemma uint_loop_append:
  "uint_loop b n us (s @ t) = (case uint_loop b n us s of Inl e \<Rightarrow> Inl e | Inr (m, us) \<Rightarrow> uint_loop b m us t)"
  by (induction b n us s rule: uint_loop.induct) (auto split: option.split)

lemma uint_loop_nat_str: "n < 2 ^ 64 \<Longrightarrow> uint_loop 10 0 us (nat_str n) = Inr (n, us)"
proof (induction n rule: nat_str.induct)
  case (1 n)
  have IH: "\<not> n < 10 \<Longrightarrow> uint_loop 10 0 us (nat_str (n div 10)) = Inr (n div 10, us)"
    using 1 by (simp add: less_mult_imp_div_less)
  have "n mod 10 < 10" "\<not> 10 \<le> n mod 10" by (simp_all add: not_le)
  then show ?case
    using digit_value_char [of n] digit_value_char [of "n mod 10"] 1(2)
    by (simp add: nat_str.simps [of n] uint_loop_append IH)
qed

lemma hd_nat_str: "n \<noteq> 0 \<Longrightarrow> hd (nat_str n) \<noteq> CHR ''0''"
proof (induction n rule: nat_str.induct)
  case (1 n)
  have "digit_val (digit_char n) \<noteq> digit_val (CHR ''0'')" if "n < 10"
    using 1(2) that digit_char_props(2) [of n] by (simp add: digit_val_def)
  then show ?case using 1 by (auto simp: nat_str.simps [of n] hd_append)
qed

lemma parse_uint_nat_str: "n < 2 ^ 64 \<Longrightarrow> parse_uint (nat_str n) = Inr n"
proof (cases "n = 0")
  case True
  moreover have "nat_str 0 = ''0''" by code_simp
  ultimately show ?thesis by (simp add: parse_uint_def base_prefix_def)
next
  case False
  then show "n < 2 ^ 64 \<Longrightarrow> ?thesis"
    using hd_nat_str [of n] by (simp add: parse_uint_def base_prefix_def uint_loop_nat_str)
qed

lemma hd_digit: "is_digit (hd (nat_str n @ s))"
  using nat_str_digits [of n] by (simp add: list_all_iff)

lemma parse_int_int_str:
  assumes "int64 i"
  shows "parse_int (int_str i) = Inr i"
proof -
  have "hd (nat_str n) \<noteq> CHR ''-''" "hd (nat_str n) \<noteq> CHR ''+''" for n
    using is_digit_not(5,6) hd_digit [of n "[]"] by auto
  then show ?thesis
    using assms by (auto simp: parse_int_def int_str_def parse_uint_nat_str int64_def nat_less_iff)
qed

section \<open>Durations are read back\<close>

lemma leading_int_stop: "s = [] \<or> \<not> is_digit (hd s) \<Longrightarrow> leading_int x s = Some (x, s)"
  by (cases s) auto

lemma leading_int_append:
  "list_all is_digit ds \<Longrightarrow> leading_int x (ds @ s) =
    (case leading_int x ds of None \<Rightarrow> None | Some (y, _) \<Rightarrow> leading_int y s)"
  by (induction ds arbitrary: x) auto

lemma leading_int_nat_str:
  assumes "n \<le> 2 ^ 63" "s = [] \<or> \<not> is_digit (hd s)"
  shows "leading_int 0 (nat_str n @ s) = Some (n, s)"
proof -
  have "leading_int 0 (nat_str n) = Some (n, [])"
    using assms(1)
  proof (induction n rule: nat_str.induct)
    case (1 n)
    have "\<not> n < 10 \<Longrightarrow> leading_int 0 (nat_str (n div 10)) = Some (n div 10, [])"
      using 1 by (meson div_le_dividend le_trans)
    then show ?case
      using 1(2) nat_str_digits [of "n div 10"]
      by (simp add: nat_str.simps [of n] leading_int_append digit_char_props)
  qed
  then show ?thesis by (simp add: leading_int_append nat_str_digits leading_int_stop assms(2))
qed

definition digits_value :: "nat \<Rightarrow> string \<Rightarrow> nat" where
  "digits_value = foldl (\<lambda>n c. n * 10 + digit_val c)"

lemma digits_value_simps [simp]:
  "digits_value x [] = x" "digits_value x (c # s) = digits_value (x * 10 + digit_val c) s"
  "digits_value x (s @ t) = digits_value (digits_value x s) t"
  by (simp_all add: digits_value_def)

lemma digits_value_zeros: "digits_value x (replicate j (CHR ''0'')) = x * 10 ^ j"
  by (induction j arbitrary: x) (simp_all add: digit_val_def)

lemma digits_value_nat_str: "digits_value 0 (nat_str n) = n"
  by (induction n rule: nat_str.induct) (simp add: nat_str.simps digit_char_props)

lemma leading_fraction_digits:
  assumes "list_all is_digit ds" "(x + 1) * 10 ^ length ds \<le> 2 ^ 63" "s = [] \<or> \<not> is_digit (hd s)"
  shows "leading_fraction x k False (ds @ s) = (digits_value x ds, k * 10 ^ length ds, s)"
  using assms(1,2)
proof (induction ds arbitrary: x k)
  case Nil
  then show ?case using assms(3) by (cases s) auto
next
  case (Cons c ds)
  have d: "digit_val c < 10" using Cons.prems(1) by (auto simp: is_digit_iff digit_val_def)
  have "(x * 10 + digit_val c + 1) * 10 ^ length ds \<le> ((x + 1) * 10) * 10 ^ length ds"
    by (rule mult_right_mono) (use d in simp_all)
  also have "\<dots> = (x + 1) * 10 ^ length (c # ds)" by (simp only: length_Cons power_Suc mult.assoc)
  also note Cons.prems(2)
  finally have le: "(x * 10 + digit_val c + 1) * 10 ^ length ds \<le> 2 ^ 63" .
  have "x * 10 + digit_val c + 1 \<le> 2 ^ 63" using order_trans [OF _ le] by (metis mult.right_neutral mult_le_mono2 one_le_numeral one_le_power)
  then show ?case using Cons.IH [OF _ le] Cons.prems(1) by (simp add: mult.assoc)
qed

lemma pad_digits_facts:
  assumes "n < 10 ^ k" "0 < k"
  shows "length (pad_digits k n) = k" "digits_value 0 (pad_digits k n) = n" "list_all is_digit (pad_digits k n)"
proof -
  obtain l where "k = Suc l" using assms(2) by (cases k) auto
  then have "length (nat_str n) \<le> k" using length_nat_str [of n l] assms(1) by simp
  then show "length (pad_digits k n) = k" by (simp add: pad_digits_def Let_def)
  show "digits_value 0 (pad_digits k n) = n"
    by (simp add: pad_digits_def Let_def digits_value_zeros digits_value_nat_str)
  have "is_digit (CHR ''0'')" by (simp add: is_digit_def)
  then show "list_all is_digit (pad_digits k n)"
    using nat_str_digits [of n] by (auto simp: pad_digits_def Let_def list_all_iff)
qed

lemma trailing_zeros:
  obtains j where "s = rev (dropWhile (\<lambda>c. c = CHR ''0'') (rev s)) @ replicate j (CHR ''0'')"
proof -
  have "takeWhile (\<lambda>c. c = CHR ''0'') t = replicate (length (takeWhile (\<lambda>c. c = CHR ''0'') t)) (CHR ''0'')" for t
    by (induction t) auto
  then show thesis
    using that [of "length (takeWhile (\<lambda>c. c = CHR ''0'') (rev s))"]
    by (metis rev_append rev_replicate rev_rev_ident takeWhile_dropWhile_id)
qed

text \<open>A fraction: a point, then the digits without the zeros at the end, or nothing at all.\<close>

lemma frac_digits_read:
  assumes "k \<le> 9" "s = [] \<or> \<not> number_char (hd s)"
  obtains (none) "frac_digits k v = []" "v mod 10 ^ k = 0"
  | (some) ds f where "frac_digits k v = CHR ''.'' # ds" "ds \<noteq> []" "length ds \<le> k" "v mod 10 ^ k = f * 10 ^ (k - length ds)"
      "f \<noteq> 0" "f < 10 ^ length ds" "leading_fraction 0 1 False (ds @ s) = (f, 10 ^ length ds, s)"
proof (cases "k = 0")
  case True
  have "nat_str 0 = ''0''" by code_simp
  then show thesis using none True by (simp add: frac_digits_def pad_digits_def)
next
  case False
  let ?p = "pad_digits k (v mod 10 ^ k)"
  define ds where "ds = rev (dropWhile (\<lambda>c. c = CHR ''0'') (rev ?p))"
  obtain j where j: "?p = ds @ replicate j (CHR ''0'')" using trailing_zeros [of ?p] unfolding ds_def by blast
  have p: "length ?p = k" "digits_value 0 ?p = v mod 10 ^ k" "list_all is_digit ?p"
    using pad_digits_facts [of "v mod 10 ^ k" k] False by simp_all
  have len: "length ds + j = k" using p(1) j by simp
  have v: "v mod 10 ^ k = digits_value 0 ds * 10 ^ (k - length ds)" using p(2) j len by (auto simp: digits_value_zeros)
  have fr: "frac_digits k v = (if ds = [] then [] else CHR ''.'' # ds)"
    by (simp add: frac_digits_def ds_def Let_def)
  show thesis
  proof (cases "ds = []")
    case True
    then show thesis using none fr v by simp
  next
    case ne: False
    have "(0 + 1) * 10 ^ length ds \<le> (10 :: nat) ^ 9"
      using power_increasing [of "length ds" 9 "10 :: nat"] len assms(1) by simp
    also have "(10 :: nat) ^ 9 \<le> 2 ^ 63" by simp
    finally have le: "(0 + 1) * 10 ^ length ds \<le> (2 :: nat) ^ 63" .
    have dig: "list_all is_digit ds" using p(3) j by simp
    have stop: "s = [] \<or> \<not> is_digit (hd s)" using assms(2) by (auto simp: number_char_def)
    have lt: "digits_value x ds < (x + 1) * 10 ^ length ds" for x
      using dig
    proof (induction ds arbitrary: x)
      case (Cons c ds)
      have d: "digit_val c + 1 \<le> 10" using Cons.prems by (auto simp: is_digit_iff digit_val_def)
      have "(x * 10 + digit_val c + 1) * 10 ^ length ds \<le> ((x + 1) * 10) * 10 ^ length ds"
        by (rule mult_right_mono) (use d in simp_all)
      also have "\<dots> = (x + 1) * 10 ^ length (c # ds)" by (simp only: length_Cons power_Suc mult.assoc)
      finally show ?case using Cons.IH [of "x * 10 + digit_val c"] Cons.prems by simp
    qed simp
    have last: "last ds \<noteq> CHR ''0''"
      using ne hd_dropWhile [of "\<lambda>c. c = CHR ''0''" "rev ?p"] unfolding ds_def by (simp add: last_rev)
    have "digits_value 0 ds \<noteq> 0"
    proof -
      obtain es c where e: "ds = es @ [c]" using ne by (cases ds rule: rev_cases) auto
      have "char_of (48 :: nat) = CHR ''0''" by code_simp
      then have "of_char c \<noteq> (48 :: nat)" using last unfolding e by (metis char_of_char last_snoc)
      then have "digit_val c \<noteq> 0" using dig unfolding e by (simp add: digit_val_def is_digit_iff)
      then show ?thesis by (simp add: e)
    qed
    then show thesis
      using some [of ds "digits_value 0 ds"] fr ne len v leading_fraction_digits [OF dig le stop, of 1] lt [of 0] by simp
  qed
qed

section \<open>Exact fractions\<close>

lemma bits_le_iff: "bits n \<le> k \<longleftrightarrow> n < 2 ^ k"
proof (induction k arbitrary: n)
  case 0
  then show ?case by (simp add: bits.simps [of n])
next
  case (Suc k)
  have "n div 2 < 2 ^ k \<longleftrightarrow> n < 2 ^ Suc k" by (simp add: div_less_iff_less_mult mult.commute)
  then show ?case using Suc.IH [of "n div 2"] by (subst bits.simps) simp
qed

text \<open>An integer below 2 ^ 53 is a float64.\<close>

lemma f64_exact:
  assumes "p = n * q" "n < 2 ^ 53" "0 < q"
  shows "fst (f64 p q) = n * snd (f64 p q)" "0 < snd (f64 p q)"
proof -
  have p0: "fst (f64 p q) = n * snd (f64 p q) \<and> 0 < snd (f64 p q)"
  proof (cases "n = 0")
    case False
    define e0 where "e0 = int (bits p) - int (bits q) - 53"
    define e where "e = (if p * 2 ^ nat (- e0) div (q * 2 ^ nat e0) < 2 ^ 53 then e0 else e0 + 1)"
    have "q < 2 ^ bits q" using bits_le_iff [of q "bits q"] by simp
    then have "p < 2 ^ 53 * 2 ^ bits q" unfolding assms(1) using assms(2) by (intro mult_strict_mono) simp_all
    then have "bits p \<le> 53 + bits q" by (simp only: bits_le_iff power_add)
    then have e0: "e0 \<le> 0" by (simp add: e0_def)
    have "e0 = 0 \<Longrightarrow> p * 2 ^ nat (- e0) div (q * 2 ^ nat e0) < 2 ^ 53" using assms by simp
    then have e: "e \<le> 0" using e0 by (cases "e0 = 0") (simp_all add: e_def)
    have "half_even (p * 2 ^ nat (- e)) (q * 2 ^ nat e) = n * 2 ^ nat (- e)"
      using assms(1,3) e by (simp add: half_even_def Let_def ac_simps)
    moreover have "p \<noteq> 0" using False assms by simp
    then have "f64 p q = (half_even (p * 2 ^ nat (- e)) (q * 2 ^ nat e) * 2 ^ nat e, 2 ^ nat (- e))"
      by (simp only: f64_def Let_def e_def e0_def if_False)
    ultimately show ?thesis using e by simp
  qed (simp add: assms(1) f64_def)
  from p0 show "fst (f64 p q) = n * snd (f64 p q)" "0 < snd (f64 p q)" by simp_all
qed

lemma fraction_part_exact:
  assumes "unit = g * scale" "0 < scale" "f < 2 ^ 53" "g < 2 ^ 53" "f * g < 2 ^ 53"
  shows "fraction_part f unit scale = f * g"
proof -
  note a = f64_exact [of f f 1, OF _ assms(3)] and b = f64_exact [OF assms(1,4,2)]
  have pos: "0 < snd (f64 f 1) * snd (f64 unit scale)" using a b by simp
  have "fst (f64 f 1) * fst (f64 unit scale) = f * g * (snd (f64 f 1) * snd (f64 unit scale))"
    using a b by simp
  from f64_exact [OF this assms(5) pos] show ?thesis
    by (simp add: fraction_part_def f64_mul_def Let_def)
qed

section \<open>The text of a duration is read back\<close>

lemma unit_read:
  assumes "list_all (\<lambda>c. \<not> number_char c) u" "r = [] \<or> number_char (hd r)"
  shows "takeWhile (\<lambda>c. \<not> number_char c) (u @ r) = u" "dropWhile (\<lambda>c. \<not> number_char c) (u @ r) = r"
  using assms by (induction u) (cases r; auto)+

text \<open>A whole number of a unit.\<close>

lemma duration_term_whole:
  assumes "map_of unit_map u = Some unit" "list_all (\<lambda>c. \<not> number_char c) u" "u \<noteq> []" "r = [] \<or> number_char (hd r)"
    "v \<le> 2 ^ 63 div unit" "v \<le> 2 ^ 63"
  shows "duration_term (nat_str v @ u @ r) = Some (v * unit, r)"
proof -
  have hd: "\<not> number_char (hd (u @ r))" using assms(2,3) by (cases u) simp_all
  then have "leading_int 0 (nat_str v @ u @ r) = Some (v, u @ r)" "hd (u @ r) \<noteq> CHR ''.''"
    using leading_int_nat_str [OF assms(6), of "u @ r"] by (auto simp: number_char_def)
  then show ?thesis
    using assms hd_digit [of v "u @ r"] unit_read [OF assms(2,4)]
    by (simp add: duration_term_def number_char_def not_less)
qed

text \<open>A number of a decimal unit with the fraction \<open>frac_digits\<close> prints.\<close>

lemma duration_term_decimal:
  assumes "map_of unit_map u = Some (10 ^ k)" "list_all (\<lambda>c. \<not> number_char c) u" "u \<noteq> []" "r = [] \<or> number_char (hd r)"
    "k \<le> 9" "v * 10 ^ k + x mod 10 ^ k \<le> 2 ^ 63"
  shows "duration_term (nat_str v @ frac_digits k x @ u @ r) = Some (v * 10 ^ k + x mod 10 ^ k, r)"
proof -
  have v: "v \<le> 2 ^ 63 div 10 ^ k" "v \<le> 2 ^ 63"
    using order_trans [OF _ add_leD1 [OF assms(6)], of v] add_leD1 [OF assms(6)]
    by (simp_all add: less_eq_div_iff_mult_less_eq)
  have hd: "u @ r = [] \<or> \<not> number_char (hd (u @ r))" using assms(2,3) by (cases u) simp_all
  from assms(5) hd show ?thesis
  proof (cases rule: frac_digits_read [where v = x])
    case none
    then show ?thesis using duration_term_whole [OF assms(1-4) v] by simp
  next
    case (some ds f)
    let ?s = "CHR ''.'' # ds @ u @ r"
    have li: "leading_int 0 (nat_str v @ ?s) = Some (v, ?s)"
      by (rule leading_int_nat_str [OF v(2)]) (simp add: is_digit_def)
    have k: "10 ^ k = 10 ^ (k - length ds) * (10 :: nat) ^ length ds"
      using some(3) by (simp flip: power_add)
    have small: "(10 :: nat) ^ j < 2 ^ 53" if "j \<le> 9" for j
      using power_increasing [OF that, of "10 :: nat"] by simp
    have "f * 10 ^ (k - length ds) < 2 ^ 53"
      using some(4) small [OF assms(5)] by (metis mod_less_divisor order_less_trans zero_less_numeral zero_less_power)
    moreover have "f < 2 ^ 53" using some(6) small [of "length ds"] some(3) assms(5) by simp
    ultimately have fp: "fraction_part f (10 ^ k) (10 ^ length ds) = f * 10 ^ (k - length ds)"
      using fraction_part_exact [OF k] small [of "k - length ds"] assms(5) by simp
    show ?thesis
      using li some v assms(1,3,6) hd_digit [of v ?s] unit_read [OF assms(2,4)] fp
      by (simp add: duration_term_def number_char_def not_less)
  qed
qed

lemma nat_str_hd: "number_char (hd (nat_str n @ s))"
  using hd_digit by (simp add: number_char_def)

lemma unit_texts:
  "map_of unit_map ''ns'' = Some 1" "map_of unit_map [CHR 0xC2, CHR 0xB5, CHR ''s''] = Some (10 ^ 3)"
  "map_of unit_map ''ms'' = Some (10 ^ 6)" "map_of unit_map ''s'' = Some (10 ^ 9)"
  "map_of unit_map ''m'' = Some (60 * 10 ^ 9)" "map_of unit_map ''h'' = Some (3600 * 10 ^ 9)"
  by (simp_all add: unit_map_def)

lemma unit_chars:
  "\<not> number_char (CHR ''n'')" "\<not> number_char (CHR ''s'')" "\<not> number_char (CHR ''m'')" "\<not> number_char (CHR ''h'')"
  "\<not> number_char (CHR 0xC2)" "\<not> number_char (CHR 0xB5)"
  by (simp_all add: number_char_def is_digit_def less_eq_char_def)

lemma duration_loop_term:
  "duration_term s = Some (v, r) \<Longrightarrow> d + v \<le> 2 ^ 63 \<Longrightarrow> duration_loop d s = duration_loop (d + v) r"
  by (subst duration_loop.simps) (auto simp: duration_term_def)

text \<open>The text of a length below 2 ^ 63 nanoseconds, without its sign.\<close>

definition duration_body :: "nat \<Rightarrow> string" where
  "duration_body u = duration_string (int u)"

lemma duration_loop_body:
  assumes "u \<noteq> 0" "u \<le> 2 ^ 63"
  shows "duration_loop 0 (duration_body u) = Some u"
proof -
  have nil: "duration_loop d [] = Some d" for d by (simp add: duration_loop.simps)
  have decimal: "duration_loop d (nat_str v @ frac_digits k u @ t) = Some (d + (v * 10 ^ k + u mod 10 ^ k))"
    if "map_of unit_map t = Some (10 ^ k)" "list_all (\<lambda>c. \<not> number_char c) t" "t \<noteq> []" "k \<le> 9"
      "d + (v * 10 ^ k + u mod 10 ^ k) \<le> 2 ^ 63" for d v k t
    using duration_loop_term [OF duration_term_decimal [OF that(1-3) _ that(4), of "[]" v u]] that(5) nil by simp
  consider "u < 10 ^ 3" | "10 ^ 3 \<le> u" "u < 10 ^ 6" | "10 ^ 6 \<le> u" "u < 10 ^ 9" | "10 ^ 9 \<le> u" by linarith
  then show ?thesis
  proof cases
    case 1
    have "duration_term (nat_str u @ ''ns'' @ []) = Some (u * 1, [])"
      by (rule duration_term_whole) (use 1 unit_texts unit_chars in simp_all)
    from duration_loop_term [OF this, of 0] show ?thesis
      using 1 assms nil by (simp add: duration_body_def duration_string_def Let_def)
  next
    case 2
    have "u div 10 ^ 3 * 10 ^ 3 + u mod 10 ^ 3 = u" by simp
    then show ?thesis
      using decimal [of "[CHR 0xC2, CHR 0xB5, CHR ''s'']" 3 0 "u div 10 ^ 3"] 2 assms unit_texts unit_chars
      by (simp add: duration_body_def duration_string_def Let_def)
  next
    case 3
    have "u div 10 ^ 6 * 10 ^ 6 + u mod 10 ^ 6 = u" by simp
    then show ?thesis
      using decimal [of "''ms''" 6 0 "u div 10 ^ 6"] 3 assms unit_texts unit_chars
      by (simp add: duration_body_def duration_string_def Let_def)
  next
    case 4
    define s where "s = u div 10 ^ 9"
    define m where "m = s div 60"
    define h where "h = m div 60"
    let ?secs = "nat_str (s mod 60) @ frac_digits 9 u @ ''s''"
    have split: "u = s * 10 ^ 9 + u mod 10 ^ 9" "s = m * 60 + s mod 60" "m = h * 60 + m mod 60"
      by (simp_all add: s_def m_def h_def)
    have secs: "duration_loop d ?secs = Some (d + (s mod 60 * 10 ^ 9 + u mod 10 ^ 9))"
      if "d + (s mod 60 * 10 ^ 9 + u mod 10 ^ 9) \<le> 2 ^ 63" for d
      using decimal [of "''s''" 9 d "s mod 60"] that unit_texts unit_chars by simp
    have mins: "duration_loop d (nat_str x @ ''m'' @ ?secs) = duration_loop (d + x * (60 * 10 ^ 9)) ?secs"
      if "x \<le> 2 ^ 63 div (60 * 10 ^ 9)" "d + x * (60 * 10 ^ 9) \<le> 2 ^ 63" for d x
      by (rule duration_loop_term [OF duration_term_whole that(2)])
        (use that(1) unit_texts unit_chars nat_str_hd in simp_all)
    have hours: "duration_loop d (nat_str x @ ''h'' @ nat_str y @ r) = duration_loop (d + x * (3600 * 10 ^ 9)) (nat_str y @ r)"
      if "x \<le> 2 ^ 63 div (3600 * 10 ^ 9)" "d + x * (3600 * 10 ^ 9) \<le> 2 ^ 63" for d x y r
      by (rule duration_loop_term [OF duration_term_whole that(2)])
        (use that(1) unit_texts unit_chars nat_str_hd in simp_all)
    have body: "duration_body u = (if m = 0 then ?secs else if h = 0 then nat_str m @ ''m'' @ ?secs
        else nat_str h @ ''h'' @ nat_str (m mod 60) @ ''m'' @ ?secs)"
      using 4 by (simp add: duration_body_def duration_string_def Let_def s_def m_def h_def)
    have arith: "m * (60 * 10 ^ 9) \<le> 2 ^ 63 \<and> h * (3600 * 10 ^ 9) + c * (60 * 10 ^ 9) \<le> 2 ^ 63"
      if "u = s * 10 ^ 9 + a" "s = m * 60 + b" "m = h * 60 + c" for a b c :: nat
      using that assms(2) by simp
    have le: "m * (60 * 10 ^ 9) \<le> 2 ^ 63" "h * (3600 * 10 ^ 9) + m mod 60 * (60 * 10 ^ 9) \<le> 2 ^ 63"
      using arith [OF split] by simp_all
    have dv: "m \<le> 2 ^ 63 div (60 * 10 ^ 9)" "h \<le> 2 ^ 63 div (3600 * 10 ^ 9)" "m mod 60 \<le> 2 ^ 63 div (60 * 10 ^ 9)"
      using le add_leD1 [OF le(2)] add_leD2 [OF le(2)] by (simp_all add: less_eq_div_iff_mult_less_eq)
    show ?thesis
    proof (cases "m = 0")
      case True
      then show ?thesis using body secs [of 0] split assms(2) by simp
    next
      case False
      show ?thesis
      proof (cases "h = 0")
        case True
        have "duration_loop 0 (nat_str m @ ''m'' @ ?secs) = Some u"
          using mins [of m 0] secs [of "m * (60 * 10 ^ 9)"] dv le split assms(2) by simp
        then show ?thesis using body True False by simp
      next
        case h: False
        have "duration_loop 0 (nat_str h @ ''h'' @ nat_str (m mod 60) @ ''m'' @ ?secs) = Some u"
          using hours [of h 0 "m mod 60"] mins [of "m mod 60" "h * (3600 * 10 ^ 9)"]
            secs [of "h * (3600 * 10 ^ 9) + m mod 60 * (60 * 10 ^ 9)"] dv le split assms(2) by simp
        then show ?thesis using body h False by simp
      qed
    qed
  qed
qed

lemma duration_body_hd: "duration_body u \<noteq> []" "is_digit (hd (duration_body u))"
proof -
  have "is_digit (CHR ''0'')" by (simp add: is_digit_def)
  moreover have "is_digit (hd (nat_str n))" for n using hd_digit [of n "[]"] by simp
  ultimately show "duration_body u \<noteq> []" "is_digit (hd (duration_body u))"
    by (simp_all add: duration_body_def duration_string_def Let_def hd_digit)
qed

lemma duration_zero: "duration_term ''0s'' = Some (0, [])" "duration_term ''0'' = None"
  by (simp_all add: duration_term_def number_char_def is_digit_def less_eq_char_def digit_val_def unit_map_def)

lemma parse_duration_string:
  assumes "int64 d"
  shows "parse_duration (duration_string d) = Some d"
proof -
  let ?u = "nat \<bar>d\<bar>"
  have s: "duration_string d = (if d < 0 then CHR ''-'' # duration_body ?u else duration_body ?u)"
    by (simp add: duration_body_def duration_string_def Let_def)
  show ?thesis
  proof (cases "d = 0")
    case True
    have "parse_duration ''0s'' = Some 0"
      by (simp add: parse_duration_def duration_loop.simps [of 0 "''0s''"] duration_loop.simps [of 0 "[]"] duration_zero)
    then show ?thesis using True by (simp add: duration_string_def)
  next
    case False
    then have l: "duration_loop 0 (duration_body ?u) = Some ?u"
      using assms by (intro duration_loop_body) (auto simp: int64_def)
    have "duration_loop 0 ''0'' = None" by (simp add: duration_loop.simps [of 0 "''0''"] duration_zero)
    with l have "duration_body ?u \<noteq> ''0''" by auto
    moreover have "hd (duration_body ?u) \<noteq> CHR ''-''" "hd (duration_body ?u) \<noteq> CHR ''+''"
      using duration_body_hd is_digit_not(5,6) by metis+
    ultimately have p: "parse_duration (CHR ''-'' # duration_body ?u) = Some (- int ?u)"
      "parse_duration (duration_body ?u) = (if 2 ^ 63 - 1 < ?u then None else Some (int ?u))"
      using l duration_body_hd(1) [of ?u] by (simp_all only: parse_duration_def Let_def list.sel list.distinct simp_thms
          if_True if_False option.case not_False_eq_True char.inject)
    show ?thesis
    proof (cases "d < 0")
      case False
      then have "\<not> 2 ^ 63 - 1 < ?u" using assms by (simp add: int64_def not_less nat_le_iff)
      then show ?thesis using s p(2) False by simp
    qed (use s p(1) in simp)
  qed
qed

section \<open>The flags of a program\<close>

text \<open>
  A registered flag: the field of the program's state it sets, given by its update function, and its
  default. A table lists the flags with their names.
\<close>

datatype 's flag_value =
    StringVar "(string \<Rightarrow> string) \<Rightarrow> 's \<Rightarrow> 's" string
  | BoolVar "(bool \<Rightarrow> bool) \<Rightarrow> 's \<Rightarrow> 's" bool
  | IntVar "(int \<Rightarrow> int) \<Rightarrow> 's \<Rightarrow> 's" int
  | DurationVar "(int \<Rightarrow> int) \<Rightarrow> 's \<Rightarrow> 's" int

type_synonym 's flag_table = "(string \<times> 's flag_value) list"

text \<open>Registering a flag stores its default.\<close>

fun set_default :: "'s flag_value \<Rightarrow> 's \<Rightarrow> 's" where
  "set_default (StringVar u d) = u (\<lambda>_. d)"
| "set_default (BoolVar u d) = u (\<lambda>_. d)"
| "set_default (IntVar u d) = u (\<lambda>_. d)"
| "set_default (DurationVar u d) = u (\<lambda>_. d)"

text \<open>\<open>Value.Set\<close>: the text of the error, or what it does to the state.\<close>

fun set_value :: "'s flag_value \<Rightarrow> string \<Rightarrow> string + ('s \<Rightarrow> 's)" where
  "set_value (StringVar u d) v = Inr (u (\<lambda>_. v))"
| "set_value (BoolVar u d) v =
     (case parse_bool v of None \<Rightarrow> Inl ''parse error'' | Some b \<Rightarrow> Inr (u (\<lambda>_. b)))"
| "set_value (IntVar u d) v =
     (case parse_int v of Inl e \<Rightarrow> Inl (num_error_text e) | Inr i \<Rightarrow> Inr (u (\<lambda>_. i)))"
| "set_value (DurationVar u d) v =
     (case parse_duration v of None \<Rightarrow> Inl ''parse error'' | Some i \<Rightarrow> Inr (u (\<lambda>_. i)))"

fun is_bool_flag :: "'s flag_value \<Rightarrow> bool" where
  "is_bool_flag (BoolVar u d) = True"
| "is_bool_flag _ = False"

datatype flag_error = ErrHelp | FlagErr string

text \<open>\<open>name=value\<close>: the first \<open>=\<close> that is not the first character splits.\<close>

definition split_value :: "string \<Rightarrow> string \<times> string option" where
  "split_value s =
     (let n = hd s # takeWhile (\<lambda>c. c \<noteq> CHR ''='') (tl s)
      in (n, if length n < length s then Some (drop (Suc (length n)) s) else None))"

text \<open>The value of a flag that needs one: after the \<open>=\<close>, or the next argument.\<close>

fun flag_operand :: "string option \<Rightarrow> string list \<Rightarrow> (string \<times> string list) option" where
  "flag_operand (Some v) rest = Some (v, rest)"
| "flag_operand None [] = None"
| "flag_operand None (v # rest) = Some (v, rest)"

definition apply_flag ::
  "'s flag_table \<Rightarrow> string \<Rightarrow> string option \<Rightarrow> string list \<Rightarrow> 's \<Rightarrow> flag_error + string list \<times> 's" where
  "apply_flag T name value rest s =
     (case map_of T name of
        None \<Rightarrow>
          if name = ''help'' \<or> name = ''h'' then Inl ErrHelp
          else Inl (FlagErr (''flag provided but not defined: -'' @ name))
      | Some flag \<Rightarrow>
          if is_bool_flag flag then
            (case set_value flag (case value of None \<Rightarrow> ''true'' | Some v \<Rightarrow> v) of
               Inl e \<Rightarrow> Inl (FlagErr (case value of
                   None \<Rightarrow> ''invalid boolean flag '' @ name @ '': '' @ e
                 | Some v \<Rightarrow> ''invalid boolean value '' @ go_quote v @ '' for -'' @ name @ '': '' @ e))
             | Inr u \<Rightarrow> Inr (rest, u s))
          else
            (case flag_operand value rest of
               None \<Rightarrow> Inl (FlagErr (''flag needs an argument: -'' @ name))
             | Some (v, rest) \<Rightarrow>
                 (case set_value flag v of
                    Inl e \<Rightarrow> Inl (FlagErr (''invalid value '' @ go_quote v @ '' for flag -'' @ name @ '': '' @ e))
                  | Inr u \<Rightarrow> Inr (rest, u s))))"

text \<open>\<open>parseOne\<close>: whether an argument was a flag, the arguments left and the state.\<close>

definition parse_one ::
  "'s flag_table \<Rightarrow> string list \<Rightarrow> 's \<Rightarrow> flag_error + bool \<times> string list \<times> 's" where
  "parse_one T args s =
     (case args of
        [] \<Rightarrow> Inr (False, args, s)
      | a # rest \<Rightarrow>
          if length a < 2 \<or> hd a \<noteq> CHR ''-'' then Inr (False, args, s)
          else if a = ''--'' then Inr (False, rest, s)
          else
            let name = (if a ! 1 = CHR ''-'' then drop 2 a else drop 1 a)
            in if name = [] \<or> hd name = CHR ''-'' \<or> hd name = CHR ''='' then Inl (FlagErr (''bad flag syntax: '' @ a))
               else (case split_value name of
                 (name, value) \<Rightarrow> map_sum id (Pair True) (apply_flag T name value rest s)))"

lemma map_sum_Inr: "map_sum id f x = Inr y \<Longrightarrow> (\<And>z. x = Inr z \<Longrightarrow> y = f z \<Longrightarrow> P) \<Longrightarrow> P"
  by (cases x) auto

lemma flag_operand_rest:
  "flag_operand value rest = Some (v, r) \<Longrightarrow> length r \<le> length rest \<and> flag_operand value (rest @ more) = Some (v, r @ more)"
  by (cases "(value, rest)" rule: flag_operand.cases) auto

lemma apply_flag_rest:
  assumes "apply_flag T n value rest s = Inr (r, s')"
  shows "length r \<le> length rest" "apply_flag T n value (rest @ more) s = Inr (r @ more, s')"
proof -
  obtain flag where f: "map_of T n = Some flag"
    using assms by (auto simp: apply_flag_def split: option.splits if_splits)
  have "length r \<le> length rest \<and> apply_flag T n value (rest @ more) s = Inr (r @ more, s')"
  proof (cases "is_bool_flag flag")
    case True
    then show ?thesis using assms f by (auto simp: apply_flag_def split: sum.splits)
  next
    case False
    then obtain v q where "flag_operand value rest = Some (v, q)"
      using assms f by (auto simp: apply_flag_def split: option.splits)
    with flag_operand_rest [OF this, of more] show ?thesis
      using assms f False by (auto simp: apply_flag_def split: sum.splits)
  qed
  then show "length r \<le> length rest" "apply_flag T n value (rest @ more) s = Inr (r @ more, s')" by simp_all
qed

lemma parse_one_shorter: "parse_one T args s = Inr (True, rest, s') \<Longrightarrow> length rest < length args"
  by (cases args) (auto simp: parse_one_def Let_def map_sum_def dest: apply_flag_rest(1) split: if_splits prod.splits sum.splits)

text \<open>\<open>FlagSet.Parse\<close>: the arguments that are left, and the state.\<close>

function parse_flags :: "'s flag_table \<Rightarrow> string list \<Rightarrow> 's \<Rightarrow> flag_error + string list \<times> 's" where
  "parse_flags T args s =
     (case parse_one T args s of
        Inl e \<Rightarrow> Inl e
      | Inr (seen, rest, s') \<Rightarrow> if seen then parse_flags T rest s' else Inr (rest, s'))"
  by pat_completeness auto
termination
  by (relation "measure (\<lambda>(T, args, s). length args)") (auto dest: parse_one_shorter)

declare parse_flags.simps [simp del]

text \<open>The exit code of \<open>flag.Parse\<close> when it does not return.\<close>

fun flag_exit :: "flag_error \<Rightarrow> int" where
  "flag_exit ErrHelp = 0"
| "flag_exit (FlagErr _) = 2"

section \<open>Every flag set once\<close>

definition flag_arg :: "string \<Rightarrow> string \<Rightarrow> string" where
  "flag_arg name v = ''--'' @ name @ ''='' @ v"

definition plain_name :: "string \<Rightarrow> bool" where
  "plain_name n \<longleftrightarrow> n \<noteq> [] \<and> hd n \<noteq> CHR ''-'' \<and> list_all (\<lambda>c. c \<noteq> CHR ''='') n"

lemma parse_one_flag_arg:
  assumes "plain_name n" "map_of T n = Some flag" "set_value flag v = Inr u"
  shows "parse_one T (flag_arg n v # rest) s = Inr (True, rest, u s)"
proof -
  obtain c m where n: "n = c # m" using assms(1) by (cases n) (auto simp: plain_name_def)
  have "takeWhile (\<lambda>c. c \<noteq> CHR ''='') (m @ CHR ''='' # v) = m"
    using assms(1) n by (simp add: plain_name_def takeWhile_append list_all_iff)
  then have "split_value (n @ ''='' @ v) = (n, Some v)" by (simp add: split_value_def n Let_def)
  then show ?thesis
    using assms n by (auto simp: parse_one_def apply_flag_def flag_arg_def plain_name_def Let_def)
qed

lemma parse_flags_args:
  assumes "list_all2 (\<lambda>(n, v) u. plain_name n \<and> (\<exists>flag. map_of T n = Some flag \<and> set_value flag v = Inr u)) nvs us"
  shows "parse_flags T (map (\<lambda>(n, v). flag_arg n v) nvs) s = Inr ([], fold (\<lambda>u. u) us s)"
  using assms
proof (induction nvs us arbitrary: s rule: list_all2_induct)
  case Nil
  show ?case by (simp add: parse_flags.simps parse_one_def)
next
  case (Cons nv nvs u us)
  obtain n v where nv: "nv = (n, v)" by fastforce
  from Cons(1) obtain flag where "plain_name n" "map_of T n = Some flag" "set_value flag v = Inr u" by (auto simp: nv)
  from parse_one_flag_arg [OF this] show ?case
    by (simp add: nv parse_flags.simps [of T "_ # _"] Cons(3))
qed

section \<open>Where parsing stops\<close>

definition flag_like :: "string \<Rightarrow> bool" where
  "flag_like a \<longleftrightarrow> 2 \<le> length a \<and> hd a = CHR ''-''"

lemma parse_one_more:
  assumes "parse_one T args s = Inr (seen, rest, s')" "args \<noteq> []"
  shows "parse_one T (args @ more) s = Inr (seen, rest @ more, s')"
proof -
  obtain a r where args: "args = a # r" using assms(2) by (cases args) auto
  show ?thesis
    using assms(1) unfolding args
    by (auto simp: parse_one_def Let_def apply_flag_rest(2) split: if_splits prod.splits elim!: map_sum_Inr)
qed

lemma parse_flags_stops:
  assumes "parse_flags T args s = Inr ([], s')" "more = [] \<or> \<not> flag_like (hd more)"
  shows "parse_flags T (args @ more) s = Inr (more, s')"
  using assms(1)
proof (induction T args s rule: parse_flags.induct)
  case (1 T args s)
  obtain seen rest t where p: "parse_one T args s = Inr (seen, rest, t)"
    using 1(2) by (subst (asm) parse_flags.simps) (auto split: sum.splits prod.splits)
  show ?case
  proof (cases "args = []")
    case True
    then have "s' = s" using 1(2) by (simp add: parse_flags.simps parse_one_def)
    moreover have "parse_one T more s = Inr (False, more, s)"
      using assms(2) by (cases more) (auto simp: parse_one_def flag_like_def)
    ultimately show ?thesis using True by (simp add: parse_flags.simps [of T more])
  next
    case False
    note m = parse_one_more [OF p False, of more]
    show ?thesis
    proof (cases seen)
      case True
      then have "parse_flags T rest t = Inr ([], s')" using 1(2) p by (simp add: parse_flags.simps [of T args])
      then have "parse_flags T (rest @ more) t = Inr (more, s')" using 1(1) [OF p refl refl] True by simp
      then show ?thesis using m True by (simp add: parse_flags.simps [of T "args @ more"])
    next
      case notseen: False
      then show ?thesis using m 1(2) p by (simp add: parse_flags.simps)
    qed
  qed
qed

end
