(* ===== verification/CommandLine.thy ===== *)
theory CommandLine
  imports GoFlag Config
begin

text \<open>
  The command line of the program: the flags \<open>realMain\<close> registers with package \<open>flag\<close>, their
  defaults, and what they make of the arguments. The results: the defaults are \<open>flag_defaults\<close>; every
  configuration whose numbers fit 64 bits can be written as a command line that parses to exactly it,
  so each flag sets its own field and no two flags clash; and everything from the first argument
  that is no flag on is ignored.
\<close>

section \<open>The registered flags\<close>

record command_line =
  cl_showVersion :: bool
  cl_flags :: cliFlags

definition flag_table :: "command_line flag_table" where
  "flag_table =
     [(''version'', BoolVar cl_showVersion_update False),
      (''frr-conf'', StringVar (cl_flags_update \<circ> frrConf_update) ''/etc/frr/frr.conf''),
      (''reload'', BoolVar (cl_flags_update \<circ> reloadOK_update) True),
      (''dry-run'', BoolVar (cl_flags_update \<circ> dryRun_update) False),
      (''force'', BoolVar (cl_flags_update \<circ> force_update) False),
      (''nft'', BoolVar (cl_flags_update \<circ> updateNft_update) True),
      (''lock-file'', StringVar (cl_flags_update \<circ> lockFile_update) []),
      (''country'', StringVar (cl_flags_update \<circ> country_update) ''RU''),
      (''route-map'', StringVar (cl_flags_update \<circ> routeMap_update) []),
      (''nft-set-v4'', StringVar (cl_flags_update \<circ> nftSetV4_update) []),
      (''nft-set-v6'', StringVar (cl_flags_update \<circ> nftSetV6_update) []),
      (''marker-prefix'', StringVar (cl_flags_update \<circ> markerPrefix_update) []),
      (''feed-url'', StringVar (cl_flags_update \<circ> feedURL_update) []),
      (''extras-v4-file'', StringVar (cl_flags_update \<circ> extrasV4File_update) []),
      (''extras-v6-file'', StringVar (cl_flags_update \<circ> extrasV6File_update) []),
      (''cache-file'', StringVar (cl_flags_update \<circ> cacheFile_update) []),
      (''cache-max-age'', DurationVar (cl_flags_update \<circ> cacheMaxAge_update) 0),
      (''http-addr'', StringVar (cl_flags_update \<circ> httpAddr_update) []),
      (''last-success-file'', StringVar (cl_flags_update \<circ> lastSuccessFile_update) []),
      (''ready-max-age'', DurationVar (cl_flags_update \<circ> readyMaxAge_update) 0),
      (''log-format'', StringVar (cl_flags_update \<circ> logFormat_update) []),
      (''log-level'', StringVar (cl_flags_update \<circ> logLevel_update) []),
      (''http-timeout'', DurationVar (cl_flags_update \<circ> httpTimeout_update) 0),
      (''frr-reload-timeout'', DurationVar (cl_flags_update \<circ> frrReloadTimeout_update) 0),
      (''nft-timeout'', DurationVar (cl_flags_update \<circ> nftTimeout_update) 0),
      (''retry-attempts'', IntVar (cl_flags_update \<circ> retryAttempts_update) 0),
      (''retry-base-delay'', DurationVar (cl_flags_update \<circ> retryBaseDelay_update) 0),
      (''frr-reload-script'', StringVar (cl_flags_update \<circ> frrReloadScript_update) []),
      (''nft-binary'', StringVar (cl_flags_update \<circ> nftBinary_update) []),
      (''target'', StringVar (cl_flags_update \<circ> target_update) []),
      (''mode'', StringVar (cl_flags_update \<circ> targetMode_update) []),
      (''target-output'', StringVar (cl_flags_update \<circ> targetOutput_update) []),
      (''iosxe-prefix-list'', StringVar (cl_flags_update \<circ> iosxePrefixList_update) []),
      (''iosxe-route-map'', StringVar (cl_flags_update \<circ> iosxeRouteMap_update) []),
      (''iosxe-static-next-hop'', StringVar (cl_flags_update \<circ> iosxeStaticNextHop_update) []),
      (''iosxe-static-route-map'', StringVar (cl_flags_update \<circ> iosxeStaticRouteMap_update) []),
      (''iosxe-static-route-name'', StringVar (cl_flags_update \<circ> iosxeStaticRouteName_update) []),
      (''iosxe-bgp-as'', StringVar (cl_flags_update \<circ> iosxeBGPAS_update) []),
      (''iosxe-ssh-host'', StringVar (cl_flags_update \<circ> iosxeSSHHost_update) []),
      (''iosxe-ssh-user'', StringVar (cl_flags_update \<circ> iosxeSSHUser_update) []),
      (''iosxe-ssh-key-file'', StringVar (cl_flags_update \<circ> iosxeSSHKeyFile_update) []),
      (''iosxe-known-hosts-file'', StringVar (cl_flags_update \<circ> iosxeKnownHostsFile_update) []),
      (''iosxe-vrf-leak-route-map'', StringVar (cl_flags_update \<circ> iosxeVRFLeakRouteMap_update) []),
      (''iosxe-ssh-port'', IntVar (cl_flags_update \<circ> iosxeSSHPort_update) 0),
      (''iosxe-ssh-timeout'', DurationVar (cl_flags_update \<circ> iosxeSSHTimeout_update) 0),
      (''iosxe-route-map-seq'', IntVar (cl_flags_update \<circ> iosxeRouteMapSeq_update) 0),
      (''iosxe-route-map-deny-seq'', IntVar (cl_flags_update \<circ> iosxeRouteMapDenySeq_update) 0),
      (''iosxe-vrf-leak-route-map-seq'', IntVar (cl_flags_update \<circ> iosxeVRFLeakRouteMapSeq_update) 0),
      (''iosxe-static-tag'', IntVar (cl_flags_update \<circ> iosxeStaticTag_update) 0),
      (''iosxe-apply-max-prefixes'', IntVar (cl_flags_update \<circ> iosxeApplyMaxPrefixes_update) 100),
      (''iosxe-save-config'', BoolVar (cl_flags_update \<circ> iosxeSaveConfig_update) False),
      (''iosxe-replace-prefix-list'', BoolVar (cl_flags_update \<circ> iosxeReplacePrefixList_update) False),
      (''refresh-interval'', DurationVar (cl_flags_update \<circ> refreshInterval_update) 0)]"

text \<open>\<open>flag.Parse\<close> on the arguments after the program name: the values, and the arguments left over,
  which \<open>realMain\<close> does not look at.\<close>

definition registered :: command_line where
  "registered = fold (\<lambda>(_, v). set_default v) flag_table \<lparr>cl_showVersion = False, cl_flags = no_flags\<rparr>"

definition parse_command_line :: "string list \<Rightarrow> flag_error + string list \<times> command_line" where
  "parse_command_line args = parse_flags flag_table args registered"

section \<open>Names and defaults\<close>

text \<open>\<open>flag.Var\<close> panics when a name is registered twice or has a form the parser cannot reach.\<close>

lemma flag_names: "distinct (map fst flag_table)" "list_all (\<lambda>(n, _). plain_name n) flag_table"
  by (simp_all add: flag_table_def plain_name_def)

lemma registered_defaults: "registered = \<lparr>cl_showVersion = False, cl_flags = flag_defaults\<rparr>"
  by (simp add: registered_def flag_table_def flag_defaults_def)

section \<open>A configuration as a command line\<close>

definition bool_str :: "bool \<Rightarrow> string" where "bool_str b = (if b then ''true'' else ''false'')"

definition settings :: "command_line \<Rightarrow> (string \<times> string) list" where
  "settings c =
     [(''version'', bool_str (cl_showVersion c)),
      (''frr-conf'', frrConf (cl_flags c)),
      (''reload'', bool_str (reloadOK (cl_flags c))),
      (''dry-run'', bool_str (dryRun (cl_flags c))),
      (''force'', bool_str (force (cl_flags c))),
      (''nft'', bool_str (updateNft (cl_flags c))),
      (''lock-file'', lockFile (cl_flags c)),
      (''country'', country (cl_flags c)),
      (''route-map'', routeMap (cl_flags c)),
      (''nft-set-v4'', nftSetV4 (cl_flags c)),
      (''nft-set-v6'', nftSetV6 (cl_flags c)),
      (''marker-prefix'', markerPrefix (cl_flags c)),
      (''feed-url'', feedURL (cl_flags c)),
      (''extras-v4-file'', extrasV4File (cl_flags c)),
      (''extras-v6-file'', extrasV6File (cl_flags c)),
      (''cache-file'', cacheFile (cl_flags c)),
      (''cache-max-age'', duration_string (cacheMaxAge (cl_flags c))),
      (''http-addr'', httpAddr (cl_flags c)),
      (''last-success-file'', lastSuccessFile (cl_flags c)),
      (''ready-max-age'', duration_string (readyMaxAge (cl_flags c))),
      (''log-format'', logFormat (cl_flags c)),
      (''log-level'', logLevel (cl_flags c)),
      (''http-timeout'', duration_string (httpTimeout (cl_flags c))),
      (''frr-reload-timeout'', duration_string (frrReloadTimeout (cl_flags c))),
      (''nft-timeout'', duration_string (nftTimeout (cl_flags c))),
      (''retry-attempts'', int_str (retryAttempts (cl_flags c))),
      (''retry-base-delay'', duration_string (retryBaseDelay (cl_flags c))),
      (''frr-reload-script'', frrReloadScript (cl_flags c)),
      (''nft-binary'', nftBinary (cl_flags c)),
      (''target'', target (cl_flags c)),
      (''mode'', targetMode (cl_flags c)),
      (''target-output'', targetOutput (cl_flags c)),
      (''iosxe-prefix-list'', iosxePrefixList (cl_flags c)),
      (''iosxe-route-map'', iosxeRouteMap (cl_flags c)),
      (''iosxe-static-next-hop'', iosxeStaticNextHop (cl_flags c)),
      (''iosxe-static-route-map'', iosxeStaticRouteMap (cl_flags c)),
      (''iosxe-static-route-name'', iosxeStaticRouteName (cl_flags c)),
      (''iosxe-bgp-as'', iosxeBGPAS (cl_flags c)),
      (''iosxe-ssh-host'', iosxeSSHHost (cl_flags c)),
      (''iosxe-ssh-user'', iosxeSSHUser (cl_flags c)),
      (''iosxe-ssh-key-file'', iosxeSSHKeyFile (cl_flags c)),
      (''iosxe-known-hosts-file'', iosxeKnownHostsFile (cl_flags c)),
      (''iosxe-vrf-leak-route-map'', iosxeVRFLeakRouteMap (cl_flags c)),
      (''iosxe-ssh-port'', int_str (iosxeSSHPort (cl_flags c))),
      (''iosxe-ssh-timeout'', duration_string (iosxeSSHTimeout (cl_flags c))),
      (''iosxe-route-map-seq'', int_str (iosxeRouteMapSeq (cl_flags c))),
      (''iosxe-route-map-deny-seq'', int_str (iosxeRouteMapDenySeq (cl_flags c))),
      (''iosxe-vrf-leak-route-map-seq'', int_str (iosxeVRFLeakRouteMapSeq (cl_flags c))),
      (''iosxe-static-tag'', int_str (iosxeStaticTag (cl_flags c))),
      (''iosxe-apply-max-prefixes'', int_str (iosxeApplyMaxPrefixes (cl_flags c))),
      (''iosxe-save-config'', bool_str (iosxeSaveConfig (cl_flags c))),
      (''iosxe-replace-prefix-list'', bool_str (iosxeReplacePrefixList (cl_flags c))),
      (''refresh-interval'', duration_string (refreshInterval (cl_flags c)))]"

definition command_line_args :: "command_line \<Rightarrow> string list" where
  "command_line_args c = map (\<lambda>(n, v). flag_arg n v) (settings c)"

text \<open>The numbers of a configuration fit 64 bits, as they do in the program.\<close>

definition numbers :: "cliFlags \<Rightarrow> int list" where
  "numbers f =
     [cacheMaxAge f, readyMaxAge f, httpTimeout f, frrReloadTimeout f, nftTimeout f, retryAttempts f, retryBaseDelay f, iosxeSSHPort f, iosxeSSHTimeout f, iosxeRouteMapSeq f, iosxeRouteMapDenySeq f, iosxeVRFLeakRouteMapSeq f, iosxeStaticTag f, iosxeApplyMaxPrefixes f, refreshInterval f]"

lemma parse_bool_str: "parse_bool (bool_str b) = Some b"
  by (simp add: parse_bool_def bool_str_def)

text \<open>What each setting does.\<close>

definition setters :: "command_line \<Rightarrow> (command_line \<Rightarrow> command_line) list" where
  "setters c =
     [cl_showVersion_update (\<lambda>_. cl_showVersion c),
      cl_flags_update (frrConf_update (\<lambda>_. frrConf (cl_flags c))),
      cl_flags_update (reloadOK_update (\<lambda>_. reloadOK (cl_flags c))),
      cl_flags_update (dryRun_update (\<lambda>_. dryRun (cl_flags c))),
      cl_flags_update (force_update (\<lambda>_. force (cl_flags c))),
      cl_flags_update (updateNft_update (\<lambda>_. updateNft (cl_flags c))),
      cl_flags_update (lockFile_update (\<lambda>_. lockFile (cl_flags c))),
      cl_flags_update (country_update (\<lambda>_. country (cl_flags c))),
      cl_flags_update (routeMap_update (\<lambda>_. routeMap (cl_flags c))),
      cl_flags_update (nftSetV4_update (\<lambda>_. nftSetV4 (cl_flags c))),
      cl_flags_update (nftSetV6_update (\<lambda>_. nftSetV6 (cl_flags c))),
      cl_flags_update (markerPrefix_update (\<lambda>_. markerPrefix (cl_flags c))),
      cl_flags_update (feedURL_update (\<lambda>_. feedURL (cl_flags c))),
      cl_flags_update (extrasV4File_update (\<lambda>_. extrasV4File (cl_flags c))),
      cl_flags_update (extrasV6File_update (\<lambda>_. extrasV6File (cl_flags c))),
      cl_flags_update (cacheFile_update (\<lambda>_. cacheFile (cl_flags c))),
      cl_flags_update (cacheMaxAge_update (\<lambda>_. cacheMaxAge (cl_flags c))),
      cl_flags_update (httpAddr_update (\<lambda>_. httpAddr (cl_flags c))),
      cl_flags_update (lastSuccessFile_update (\<lambda>_. lastSuccessFile (cl_flags c))),
      cl_flags_update (readyMaxAge_update (\<lambda>_. readyMaxAge (cl_flags c))),
      cl_flags_update (logFormat_update (\<lambda>_. logFormat (cl_flags c))),
      cl_flags_update (logLevel_update (\<lambda>_. logLevel (cl_flags c))),
      cl_flags_update (httpTimeout_update (\<lambda>_. httpTimeout (cl_flags c))),
      cl_flags_update (frrReloadTimeout_update (\<lambda>_. frrReloadTimeout (cl_flags c))),
      cl_flags_update (nftTimeout_update (\<lambda>_. nftTimeout (cl_flags c))),
      cl_flags_update (retryAttempts_update (\<lambda>_. retryAttempts (cl_flags c))),
      cl_flags_update (retryBaseDelay_update (\<lambda>_. retryBaseDelay (cl_flags c))),
      cl_flags_update (frrReloadScript_update (\<lambda>_. frrReloadScript (cl_flags c))),
      cl_flags_update (nftBinary_update (\<lambda>_. nftBinary (cl_flags c))),
      cl_flags_update (target_update (\<lambda>_. target (cl_flags c))),
      cl_flags_update (targetMode_update (\<lambda>_. targetMode (cl_flags c))),
      cl_flags_update (targetOutput_update (\<lambda>_. targetOutput (cl_flags c))),
      cl_flags_update (iosxePrefixList_update (\<lambda>_. iosxePrefixList (cl_flags c))),
      cl_flags_update (iosxeRouteMap_update (\<lambda>_. iosxeRouteMap (cl_flags c))),
      cl_flags_update (iosxeStaticNextHop_update (\<lambda>_. iosxeStaticNextHop (cl_flags c))),
      cl_flags_update (iosxeStaticRouteMap_update (\<lambda>_. iosxeStaticRouteMap (cl_flags c))),
      cl_flags_update (iosxeStaticRouteName_update (\<lambda>_. iosxeStaticRouteName (cl_flags c))),
      cl_flags_update (iosxeBGPAS_update (\<lambda>_. iosxeBGPAS (cl_flags c))),
      cl_flags_update (iosxeSSHHost_update (\<lambda>_. iosxeSSHHost (cl_flags c))),
      cl_flags_update (iosxeSSHUser_update (\<lambda>_. iosxeSSHUser (cl_flags c))),
      cl_flags_update (iosxeSSHKeyFile_update (\<lambda>_. iosxeSSHKeyFile (cl_flags c))),
      cl_flags_update (iosxeKnownHostsFile_update (\<lambda>_. iosxeKnownHostsFile (cl_flags c))),
      cl_flags_update (iosxeVRFLeakRouteMap_update (\<lambda>_. iosxeVRFLeakRouteMap (cl_flags c))),
      cl_flags_update (iosxeSSHPort_update (\<lambda>_. iosxeSSHPort (cl_flags c))),
      cl_flags_update (iosxeSSHTimeout_update (\<lambda>_. iosxeSSHTimeout (cl_flags c))),
      cl_flags_update (iosxeRouteMapSeq_update (\<lambda>_. iosxeRouteMapSeq (cl_flags c))),
      cl_flags_update (iosxeRouteMapDenySeq_update (\<lambda>_. iosxeRouteMapDenySeq (cl_flags c))),
      cl_flags_update (iosxeVRFLeakRouteMapSeq_update (\<lambda>_. iosxeVRFLeakRouteMapSeq (cl_flags c))),
      cl_flags_update (iosxeStaticTag_update (\<lambda>_. iosxeStaticTag (cl_flags c))),
      cl_flags_update (iosxeApplyMaxPrefixes_update (\<lambda>_. iosxeApplyMaxPrefixes (cl_flags c))),
      cl_flags_update (iosxeSaveConfig_update (\<lambda>_. iosxeSaveConfig (cl_flags c))),
      cl_flags_update (iosxeReplacePrefixList_update (\<lambda>_. iosxeReplacePrefixList (cl_flags c))),
      cl_flags_update (refreshInterval_update (\<lambda>_. refreshInterval (cl_flags c)))]"

lemma settings_names: "map fst (settings c) = map fst flag_table"
  by (simp add: settings_def flag_table_def)

lemma settings_set:
  assumes "list_all int64 (numbers (cl_flags c))"
  shows "list_all2 (\<lambda>(flag, v) u. set_value flag v = Inr u)
    (zip (map snd flag_table) (map snd (settings c))) (setters c)"
  using assms
  by (simp add: settings_def setters_def flag_table_def numbers_def parse_bool_str parse_int_int_str parse_duration_string)

lemma setters_set: "fold (\<lambda>u. u) (setters c) c0 = c"
proof -
  have "fold (\<lambda>u. u) (setters c) \<lparr>cl_showVersion = v, cl_flags = f\<rparr> = c" for v f
    by (cases f, cases c, cases "cl_flags c") (simp add: setters_def)
  then show ?thesis by (cases c0) simp
qed

lemma map_fst_nth: "map fst xs = map fst ys \<Longrightarrow> i < length xs \<Longrightarrow> fst (xs ! i) = fst (ys ! i) \<and> i < length ys"
  by (metis length_map nth_map)

lemma settings_flags:
  assumes "list_all int64 (numbers (cl_flags c))"
  shows "list_all2 (\<lambda>(n, v) u. plain_name n \<and> (\<exists>flag. map_of flag_table n = Some flag \<and> set_value flag v = Inr u))
    (settings c) (setters c)"
proof -
  note s = settings_set [OF assms]
  have len: "length (settings c) = length flag_table" using settings_names by (metis length_map)
  have "length (setters c) = length (settings c)" using list_all2_lengthD [OF s] len by simp
  moreover have "plain_name n \<and> (\<exists>flag. map_of flag_table n = Some flag \<and> set_value flag v = Inr (setters c ! i))"
    if i: "i < length (settings c)" and nv: "settings c ! i = (n, v)" for i n v
  proof -
    obtain flag where t: "flag_table ! i = (n, flag)" "i < length flag_table"
      using map_fst_nth [OF settings_names i] nv by (metis fst_conv prod.collapse)
    then have "(n, flag) \<in> set flag_table" by (metis nth_mem)
    then have "map_of flag_table n = Some flag" "plain_name n"
      using flag_names by (auto simp: list_all_iff)
    moreover have "set_value flag v = Inr (setters c ! i)"
      using list_all2_nthD [OF s, of i] t nv i by simp
    ultimately show ?thesis by blast
  qed
  ultimately show ?thesis by (simp add: list_all2_conv_all_nth split: prod.split)
qed

section \<open>Properties\<close>

text \<open>C18: Every configuration whose numbers fit 64 bits, written as one --name=value argument per flag, is
  parsed back to exactly that configuration, so each flag sets its own field, in its own syntax,
  and no two flags clash.\<close>

theorem command_line_round_trip:
  assumes "list_all int64 (numbers (cl_flags c))"
  shows "parse_command_line (command_line_args c) = Inr ([], c)"
  unfolding parse_command_line_def command_line_args_def
  using parse_flags_args [OF settings_flags [OF assms], of registered] by (simp only: setters_set)

lemma command_line_stops:
  assumes "parse_command_line args = Inr ([], c)" "\<not> flag_like x"
  shows "parse_command_line (args @ x # rest) = Inr (x # rest, c)"
  unfolding parse_command_line_def
  by (rule parse_flags_stops) (use assms in \<open>simp_all add: parse_command_line_def\<close>)

section \<open>Concrete command lines\<close>

definition sample_line :: command_line where
  "sample_line = \<lparr>cl_showVersion = False, cl_flags = flag_defaults\<lparr>country := ''UZ'', dryRun := True, updateNft := False,
     refreshInterval := 5400000000000, retryAttempts := 5\<rparr>\<rparr>"

lemma command_line_round_trip_witness:
  "parse_command_line (command_line_args sample_line) = Inr ([], sample_line)"
  by (rule command_line_round_trip) (simp add: sample_line_def numbers_def int64_def flag_defaults_def)

lemma reload_alone: "parse_command_line [''-reload''] = Inr ([], registered)"
proof -
  have "map_of flag_table ''reload'' = Some (BoolVar (cl_flags_update \<circ> reloadOK_update) True)"
    by (simp add: flag_table_def)
  moreover have "split_value ''reload'' = (''reload'', None)" by (simp add: split_value_def)
  ultimately show ?thesis
    by (simp add: parse_command_line_def parse_flags.simps parse_one_def apply_flag_def parse_bool_def
        registered_defaults flag_defaults_def)
qed

end
