(* ===== verification/Main_Program.thy ===== *)
theory Main_Program
  imports Run Refresh Health CommandLine
begin

text \<open>
  \<open>realMain\<close> and \<open>acquireLock\<close> of main.go: the arguments, the logger, the exclusive lock, the health
  server, then one cycle or the refresh loop, and the exit code. A cycle is the \<open>work\<close> closure: one
  call of \<open>run\<close>, the run metrics and the last-success marker. The results: without the lock
  nothing happens; the exit code of a oneshot run tells whether \<open>run\<close> succeeded; a bound server is
  shut down once, whenever its goroutine ran; whatever the
  number and interleaving of cycles, every recorded frr.conf is the first one or what complete cycles
  made of it, with both marker blocks in place; the run counters equal the completed cycles, and every
  series has one value per label of its collector.
\<close>

section \<open>The lock\<close>

definition os_open_create :: "os_env \<Rightarrow> path \<Rightarrow> nat \<Rightarrow> world \<Rightarrow> unit res \<times> world" where
  "os_open_create E p mode w =
     os_call E (fs w)
       (if fs w p = None then (fs w)(p \<mapsto> \<lparr>bytes = [], perm = mode, mtime = clock E (calls w)\<rparr>) else fs w) () w"

text \<open>Whether another process holds the lock is up to the environment.\<close>

definition os_flock :: "os_env \<Rightarrow> world \<Rightarrow> unit res \<times> world" where
  "os_flock E w = os_call E (fs w) (fs w) () w"

definition acquire_lock :: "os_env \<Rightarrow> path \<Rightarrow> world \<Rightarrow> unit res \<times> world" where
  "acquire_lock E path w =
     (case os_open_create E path 420 w of
        (Inl e, w) \<Rightarrow> (Inl (wrapf (''open lock '' @ path @ '': '') e []), w)
      | (Inr _, w) \<Rightarrow>
     (case os_flock E w of
        (Inl e, w) \<Rightarrow>
          (if errors_is e ErrWouldBlock then Inl (wrapf [] (errors_new ErrLocked) ('': '' @ path))
           else Inl (wrapf ''flock: '' e []),
           snd (os_close E path w))
      | (Inr _, w) \<Rightarrow> (Inr (), w)))"

section \<open>One cycle\<close>

text \<open>The closure \<open>work\<close>, with \<open>lastRunOK\<close> as part of the data.\<close>

type_synonym cycle_data = "bool \<times> world \<times> meters"

definition run_cycle :: "os_env \<Rightarrow> codec \<Rightarrow> ssh_env \<Rightarrow> cliFlags \<Rightarrow> cycle_data \<Rightarrow> cycle_data" where
  "run_cycle E C S f = (\<lambda>(_, w, m).
     let runStart = clock E (calls w) in
     case run E C S f (w, m) of
       (Inl runErr, (w, m)) \<Rightarrow> (False, w, map_option (observe_run ''error'' (clock E (calls w) - runStart)) m)
     | (Inr _, (w, m)) \<Rightarrow>
         let m = map_option (observe_run ''success'' (clock E (calls w) - runStart)) m;
             m = map_option (set_last_success (clock E (calls w))) m;
             w = (if httpAddr f \<noteq> [] \<or> lastSuccessFile f \<noteq> [] then snd (write_last_success E (lastSuccessFile f) w) else w)
         in (True, w, m))"

section \<open>The process\<close>

text \<open>What the process is started with: the version, the libraries of the server, and the TCP stack.\<close>

record boot_env =
  version_text :: string
  boot_lib :: health_lib
  listen_tcp :: "string \<Rightarrow> go_error option"

text \<open>
  Up to the work: an exit code, or the complete flags, the server and the metrics. A panic closes the
  lock file and exits with 2.
\<close>

definition boot ::
  "os_env \<Rightarrow> boot_env \<Rightarrow> bool \<Rightarrow> cliFlags \<Rightarrow> world \<Rightarrow> (int + cliFlags \<times> health_server option \<times> meters) \<times> world" where
  "boot E B showVersion flags w =
     (if showVersion then (Inl 0, snd (os_println E (version_text B) w))
      else
        let f = apply_defaults flags in
        case new_logger (logFormat f) (logLevel f) of
          Inl e \<Rightarrow> (Inl 1, w)
        | Inr logger \<Rightarrow>
        (case acquire_lock E (lockFile f) w of
           (Inl e, w) \<Rightarrow> (Inl 1, w)
         | (Inr _, w) \<Rightarrow>
             if httpAddr f = [] then (Inr (f, None, None), w)
             else
               (case new_health_server (boot_lib B) (httpAddr f) (lastSuccessFile f) (str_lower (country f)) (readyMaxAge f) of
                  None \<Rightarrow> (Inl 2, snd (os_close E (lockFile f) w))
                | Some (Inl e) \<Rightarrow> (Inl 1, snd (os_close E (lockFile f) w))
                | Some (Inr (hs, m)) \<Rightarrow>
               (case pre_bind (listen_tcp B) hs of
                  (Inl e, hs) \<Rightarrow> (Inl 1, snd (os_close E (lockFile f) w))
                | (Inr _, hs) \<Rightarrow> (Inr (f, Some hs, Some m), w)))))"

text \<open>
  What becomes of the server between its binding and the exit: its goroutine may run before the
  shutdown, after it, when \<open>Serve\<close> reports a closed server at once, or not at all.
\<close>

inductive server_ends :: "boot_env \<Rightarrow> health_server option \<Rightarrow> health_server option \<Rightarrow> bool" for B where
  no_server: "server_ends B None None"
| not_started: "server_ends B (Some hs) (Some (snd (shutdown e hs)))"
| served: "server_ends B (Some hs) (Some (snd (shutdown e (snd (start (listen_tcp B) served hs)))))"
| too_late: "server_ends B (Some hs)
    (Some (snd (start (listen_tcp B) (Some (errors_new ErrServerClosed)) (snd (shutdown e hs)))))"

text \<open>
  How the process ends, with its exit code, the world it leaves and its server: before the work,
  after one cycle, or when the refresh loop has returned. With a server a oneshot process is parked
  until a signal arrives, the lock still held. \<open>refreshLoop\<close> never reports an error.
\<close>

inductive main_exits ::
  "os_env \<Rightarrow> codec \<Rightarrow> ssh_env \<Rightarrow> boot_env \<Rightarrow> bool \<Rightarrow> cliFlags \<Rightarrow> world \<Rightarrow> int \<Rightarrow> world \<Rightarrow> health_server option \<Rightarrow> bool"
  for E C S B showVersion flags w where
  early: "boot E B showVersion flags w = (Inl code, w') \<Longrightarrow> main_exits E C S B showVersion flags w code w' None"
| oneshot: "boot E B showVersion flags w = (Inr (f, hs, m), w1) \<Longrightarrow> \<not> 0 < refreshInterval f \<Longrightarrow>
    run_cycle E C S f (False, w1, m) = (lastRunOK, w2, m2) \<Longrightarrow> server_ends B hs hs' \<Longrightarrow>
    main_exits E C S B showVersion flags w (if \<not> lastRunOK then 1 else 0) (snd (os_close E (lockFile f) w2)) hs'"
| daemon: "boot E B showVersion flags w = (Inr (f, hs, m), w1) \<Longrightarrow> 0 < refreshInterval f \<Longrightarrow>
    loop_reaches (run_cycle E C S f) (loop_start (False, w1, m)) s \<Longrightarrow> control s = Returned \<Longrightarrow>
    loop_data s = (lastRunOK, w2, m2) \<Longrightarrow> server_ends B hs hs' \<Longrightarrow>
    main_exits E C S B showVersion flags w 0 (snd (os_close E (lockFile f) w2)) hs'"

text \<open>
  \<open>realMain\<close> from the arguments on. A usage error or a request for help ends the process inside
  \<open>flag.Parse\<close>; the arguments that are left over are not looked at.
\<close>

inductive program_exits ::
  "os_env \<Rightarrow> codec \<Rightarrow> ssh_env \<Rightarrow> boot_env \<Rightarrow> string list \<Rightarrow> world \<Rightarrow> int \<Rightarrow> world \<Rightarrow> health_server option \<Rightarrow> bool"
  for E C S B argv w where
  usage: "parse_command_line argv = Inl e \<Longrightarrow> program_exits E C S B argv w (flag_exit e) w None"
| started: "parse_command_line argv = Inr (rest, c) \<Longrightarrow>
    main_exits E C S B (cl_showVersion c) (cl_flags c) w code w' hs' \<Longrightarrow> program_exits E C S B argv w code w' hs'"

inductive_cases main_exitsE: "main_exits E C S B showVersion flags w code w' hs'"

section \<open>Before the work\<close>

lemma acquire_lock_effect:
  assumes "acquire_lock E p w = (r, w')"
  shows "effects w' = effects w" "q \<noteq> p \<Longrightarrow> keeps q w w'"
proof -
  obtain a w1 where o1: "os_open_create E p 420 w = (a, w1)" by fastforce
  obtain b w2 where o2: "os_flock E w1 = (b, w2)" by fastforce
  have w1: "effects w1 = effects w" "q \<noteq> p \<Longrightarrow> keeps q w w1"
    using o1 by (auto simp: os_open_create_def os_call_def keeps_def split: option.splits if_splits)
  have w2: "effects w2 = effects w1" "keeps q w1 w2"
    using o2 by (auto simp: os_flock_def os_call_def keeps_def split: option.splits)
  have w3: "keeps q w2 (snd (os_close E p w2))"
    by (auto simp: os_close_def os_call_def keeps_def split: option.split)
  have out: "w' = w1 \<or> w' = w2 \<or> w' = snd (os_close E p w2)"
    using assms o1 o2 by (auto simp: acquire_lock_def split: sum.splits)
  show "effects w' = effects w" using out w1(1) w2(1) by auto
  show "q \<noteq> p \<Longrightarrow> keeps q w w'" using out w1(2) w2(2) w3 keeps_trans by metis
qed

lemma close_keeps: "keeps q w (snd (os_close E p w))"
  by (auto simp: os_close_def os_call_def keeps_def split: option.split)

lemma boot_keeps:
  assumes "boot E B v flags w = (x, w')" "q \<noteq> lockFile (apply_defaults flags)"
  shows "keeps q w w'"
proof (cases v)
  case True
  then show ?thesis
    using assms(1) by (auto simp: boot_def os_println_def keeps_def tick_def split: option.splits)
next
  case False
  let ?f = "apply_defaults flags"
  obtain a w1 where l: "acquire_lock E (lockFile ?f) w = (a, w1)" by fastforce
  have "w' = w \<or> w' = w1 \<or> w' = snd (os_close E (lockFile ?f) w1)"
    using assms(1) False l by (auto simp: boot_def Let_def split: sum.splits prod.splits if_splits option.splits)
  then show ?thesis
    using keeps_refl acquire_lock_effect(2) [OF l assms(2)] keeps_trans [OF _ close_keeps] by metis
qed

lemma boot_Inr:
  assumes "boot E B v flags w = (Inr (f, hs, m), w')"
  shows "\<not> v" "f = apply_defaults flags" "m = None \<or> m = Some (new_metrics (str_lower (country f)))"
  using assms new_health_server_Inr(1)
  by (auto simp: boot_def Let_def split: if_splits sum.splits prod.splits option.splits)

section \<open>What a cycle keeps\<close>

text \<open>A frr.conf made from \<open>old\<close> by complete cycles.\<close>

inductive generated :: "cliFlags \<Rightarrow> string \<Rightarrow> string \<Rightarrow> bool" for f old where
  first: "generated f old old"
| again: "generated f old c \<Longrightarrow> aggregated v4 \<Longrightarrow> aggregated v6 \<Longrightarrow> frr_next f v4 v6 c = Inr c' \<Longrightarrow> generated f old c'"

lemma generated_layout:
  assumes "generated f old c" "frr_layout f old" "bang_free (markerPrefix f)" "bang_free (routeMap f)"
  shows "frr_layout f c"
  using assms(1)
proof (induction rule: generated.induct)
  case (again c v4 v6 c')
  then have "list_all canonical v4" "list_all canonical v6" by (simp_all add: aggregated_def)
  from frr_next_stable [OF assms(3,4) this again.IH] again.hyps(4) show ?case by auto
qed (rule assms(2))

definition generations :: "cliFlags \<Rightarrow> string \<Rightarrow> string option set" where
  "generations f old = {Some c |c. generated f old c}"

definition cycle_ok :: "cliFlags \<Rightarrow> string \<Rightarrow> world \<Rightarrow> cycle_data \<Rightarrow> bool" where
  "cycle_ok f old w0 = (\<lambda>(ok, w, m). target f = ''frr'' \<and> frrConf f \<noteq> cacheFile f \<and> frrConf f \<noteq> lastSuccessFile f
     \<and> steady (frrConf f) (generations f old) w0 w)"

lemma run_cycle_world:
  assumes "run_cycle E C S f (ok, w, m) = (ok', w', m')"
  obtains r w1 m1 where "run E C S f (w, m) = (r, (w1, m1))" "ok' \<longleftrightarrow> r = Inr ()"
    "w' = w1 \<or> w' = snd (write_last_success E (lastSuccessFile f) w1)"
proof -
  obtain r w1 m1 where r: "run E C S f (w, m) = (r, (w1, m1))" by (metis prod_cases3)
  then show thesis
    using assms that by (cases r) (auto simp: run_cycle_def Let_def split: if_splits)
qed

lemma run_cycle_ok: "cycle_ok f old w0 d \<Longrightarrow> cycle_ok f old w0 (run_cycle E C S f d)"
proof -
  assume a: "cycle_ok f old w0 d"
  obtain ok w m where d: "d = (ok, w, m)" by (metis prod_cases3)
  obtain ok' w' m' where c: "run_cycle E C S f d = (ok', w', m')" by (metis prod_cases3)
  have fl: "target f = ''frr''" "frrConf f \<noteq> cacheFile f" "frrConf f \<noteq> lastSuccessFile f"
    and st: "steady (frrConf f) (generations f old) w0 w" using a d by (simp_all add: cycle_ok_def)
  obtain c where cur: "contents w (frrConf f) = Some c" "generated f old c"
    using steady_safe [OF st] by (auto simp: safe_def generations_def contents_def)
  obtain r w1 m1 where r: "run E C S f (w, m) = (r, (w1, m1))"
    "w' = w1 \<or> w' = snd (write_last_success E (lastSuccessFile f) w1)"
    using run_cycle_world c d by metis
  obtain v4 v6 where v: "aggregated v4" "aggregated v6" "steady (frrConf f) (frr_contents f v4 v6 c) w w1"
    using run_steady [OF r(1) fl(1,2) cur(1)] .
  have "frr_contents f v4 v6 c \<subseteq> generations f old"
    using cur(2) generated.again [OF cur(2) v(1,2)] by (auto simp: frr_contents_def generations_def)
  from steady_mono [OF v(3) this] have s1: "steady (frrConf f) (generations f old) w0 w1"
    using steady_trans [OF st] by simp
  have "fs w1 (frrConf f) \<noteq> None" using steady_safe [OF s1] by (auto simp: safe_def generations_def)
  then have "keeps (frrConf f) w1 (snd (write_last_success E (lastSuccessFile f) w1))"
    using write_last_success_keeps [of E "lastSuccessFile f" w1] fl(3) by (metis prod.collapse)
  then have "keeps (frrConf f) w1 w'" using r(2) keeps_refl by auto
  moreover have "contents w1 (frrConf f) \<in> generations f old"
    using steady_safe [OF s1] by (simp add: safe_def contents_def)
  ultimately have "steady (frrConf f) (generations f old) w0 w'"
    using steady_trans [OF s1 keeps_steady] by blast
  then show ?thesis using c fl by (simp add: cycle_ok_def)
qed

interpretation cyc: kept_by_cycle "run_cycle E C S f" "cycle_ok f old w0" for E C S f old w0
  by unfold_locales (rule run_cycle_ok)

section \<open>Counting the cycles\<close>

text \<open>
  The metrics as the daemon shows them: what the cycles left, with the ticks that found the mutex
  taken. The two counters are separate, so the order of the updates does not matter.
\<close>

definition scraped :: "cycle_data loop_state \<Rightarrow> meters" where
  "scraped s = (case loop_data s of (ok, w, m) \<Rightarrow> map_option (count_skip ^^ skippedOverlap s) m)"

text \<open>The part of the metrics that \<open>run\<close> leaves alone.\<close>

definition run_counts :: "meters \<Rightarrow> (string \<times> (string list \<Rightarrow> nat) \<times> (string list \<Rightarrow> nat)) option" where
  "run_counts m = map_option (\<lambda>m. (metrics_country m, runsTotal m, skippedOverlapTotal m)) m"

lemma run_counts_kept [simp]:
  "run_counts (map_option (observe_fetch a b d) m) = run_counts m"
  "run_counts (map_option (observe_nft_apply a d) m) = run_counts m"
  "run_counts (map_option (observe_frr_reload a d) m) = run_counts m"
  "run_counts (map_option (count_prefixes raw x4 x6 v4 v6) m) = run_counts m"
  "run_counts (map_option (set_last_success t) m) = run_counts m"
  by (cases m; simp add: run_counts_def observe_fetch_def observe_nft_apply_def observe_frr_reload_def
      count_prefixes_def set_prefix_count_def set_last_success_def Let_def)+

lemma run_feed_counts: "run_feed E C f (w, m) = (r, (w', m')) \<Longrightarrow> run_counts m' = run_counts m"
  by (auto simp: run_feed_def Let_def split: prod.splits sum.splits)

lemma run_frr_conf_counts: "run_frr_conf E f v4 v6 (w, m) = (r, (w', m')) \<Longrightarrow> run_counts m' = run_counts m"
  by (auto simp: run_frr_conf_def Let_def split: prod.splits sum.splits if_splits)

lemma run_frr_counts: "run_frr E f v4 v6 (w, m) = (r, (w', m')) \<Longrightarrow> run_counts m' = run_counts m"
  by (auto simp: run_frr_def Let_def dest!: run_frr_conf_counts split: prod.splits sum.splits if_splits)

lemma run_run_counts:
  assumes "run E C S f (w, m) = (r, (w', m'))"
  shows "run_counts m' = run_counts m"
  using assms
  by (cases rule: run_cases) (auto dest!: run_feed_counts run_frr_counts)

definition cycles_counted :: "string \<Rightarrow> nat \<Rightarrow> cycle_data \<Rightarrow> bool" where
  "cycles_counted cc n = (\<lambda>(ok, w, m). \<exists>k. m = Some k \<and> metrics_country k = cc
     \<and> runsTotal k [cc, ''success''] + runsTotal k [cc, ''error''] = n \<and> skippedOverlapTotal k [cc] = 0)"

lemma run_cycle_counted:
  assumes "cycles_counted cc n d"
  shows "cycles_counted cc (Suc n) (run_cycle E C S f d)"
proof -
  obtain ok w k where d: "d = (ok, w, Some k)" "metrics_country k = cc"
    "runsTotal k [cc, ''success''] + runsTotal k [cc, ''error''] = n" "skippedOverlapTotal k [cc] = 0"
    using assms by (auto simp: cycles_counted_def split: prod.splits)
  obtain r w1 m1 where r: "run E C S f (w, Some k) = (r, (w1, m1))" by (metis prod_cases3)
  then obtain k1 where k1: "m1 = Some k1" "metrics_country k1 = cc" "runsTotal k1 = runsTotal k"
      "skippedOverlapTotal k1 = skippedOverlapTotal k"
    using run_run_counts [OF r] d(2) by (auto simp: run_counts_def)
  show ?thesis
    using d r k1
    by (cases r) (auto simp: run_cycle_def cycles_counted_def observe_run_def set_last_success_def inc_def Let_def)
qed

lemma cycles_counted_funpow:
  "cycles_counted cc n d \<Longrightarrow> cycles_counted cc (k + n) ((run_cycle E C S f ^^ k) d)"
  by (induction k) (simp_all add: run_cycle_counted)

lemma count_skips:
  "metrics_country ((count_skip ^^ n) k) = metrics_country k \<and> runsTotal ((count_skip ^^ n) k) = runsTotal k
    \<and> skippedOverlapTotal ((count_skip ^^ n) k) [metrics_country k] = skippedOverlapTotal k [metrics_country k] + n"
  by (induction n) (simp_all add: count_skip_def inc_def)

section \<open>The labels in use\<close>

text \<open>The metrics, if any, are those of the country and every label has a value of its domain.\<close>

definition meters_ok :: "string \<Rightarrow> meters \<Rightarrow> bool" where
  "meters_ok cc m \<longleftrightarrow> (\<forall>k. m = Some k \<longrightarrow> metrics_country k = cc \<and> labelled k)"

lemma result_labels: "result_label r \<in> set [''success'', ''error'']" "source_string s \<in> set [''fresh'', ''cache'', ''unknown'']"
  by (auto simp: result_label_def source_string_def split: sum.split feedSource.split)

lemma country_kept [simp]:
  "metrics_country (observe_fetch a b d k) = metrics_country k" "metrics_country (observe_nft_apply a d k) = metrics_country k"
  "metrics_country (observe_frr_reload a d k) = metrics_country k" "metrics_country (observe_run a d k) = metrics_country k"
  "metrics_country (set_prefix_count a b n k) = metrics_country k" "metrics_country (set_last_success t k) = metrics_country k"
  "metrics_country (count_skip k) = metrics_country k"
  by (simp_all add: observe_fetch_def observe_nft_apply_def observe_frr_reload_def observe_run_def set_prefix_count_def
      set_last_success_def count_skip_def)

lemma meters_ok_ops:
  "meters_ok cc m \<Longrightarrow> meters_ok cc (map_option (observe_fetch (source_string s) (result_label r) d) m)"
  "meters_ok cc m \<Longrightarrow> meters_ok cc (map_option (observe_nft_apply (result_label r) d) m)"
  "meters_ok cc m \<Longrightarrow> meters_ok cc (map_option (observe_frr_reload (result_label r) d) m)"
  "meters_ok cc m \<Longrightarrow> meters_ok cc (map_option (count_prefixes raw x4 x6 v4 v6) m)"
  "meters_ok cc m \<Longrightarrow> meters_ok cc (map_option (observe_run ''success'' d) m)"
  "meters_ok cc m \<Longrightarrow> meters_ok cc (map_option (observe_run ''error'' d) m)"
  "meters_ok cc m \<Longrightarrow> meters_ok cc (map_option (set_last_success t) m)"
  "meters_ok cc m \<Longrightarrow> meters_ok cc (map_option (count_skip ^^ n) m)"
proof -
  have skip: "labelled k \<Longrightarrow> labelled ((count_skip ^^ n) k) \<and> metrics_country ((count_skip ^^ n) k) = metrics_country k" for k
    by (induction n) (simp_all add: labelled_ops)
  then show "meters_ok cc m \<Longrightarrow> meters_ok cc (map_option (count_skip ^^ n) m)" by (auto simp: meters_ok_def)
qed (auto simp: meters_ok_def count_prefixes_def Let_def intro!: labelled_ops result_labels)

lemma run_feed_labels: "run_feed E C f (w, m) = (r, (w', m')) \<Longrightarrow> meters_ok cc m \<Longrightarrow> meters_ok cc m'"
  by (auto simp: run_feed_def Let_def intro: meters_ok_ops split: prod.splits sum.splits)

lemma run_frr_conf_labels: "run_frr_conf E f v4 v6 (w, m) = (r, (w', m')) \<Longrightarrow> meters_ok cc m \<Longrightarrow> meters_ok cc m'"
  by (auto simp: run_frr_conf_def Let_def intro: meters_ok_ops split: prod.splits sum.splits if_splits)

lemma run_frr_labels: "run_frr E f v4 v6 (w, m) = (r, (w', m')) \<Longrightarrow> meters_ok cc m \<Longrightarrow> meters_ok cc m'"
  by (auto simp: run_frr_def Let_def intro: meters_ok_ops dest!: run_frr_conf_labels [where cc = cc]
      split: prod.splits sum.splits if_splits)

lemma run_labels:
  assumes "run E C S f (w, m) = (r, (w', m'))" "meters_ok cc m"
  shows "meters_ok cc m'"
  using assms(1)
  by (cases rule: run_cases) (use assms(2) in \<open>auto dest: run_feed_labels [where cc = cc] run_frr_labels [where cc = cc]\<close>)

definition labels_ok :: "string \<Rightarrow> cycle_data \<Rightarrow> bool" where
  "labels_ok cc = (\<lambda>(ok, w, m). meters_ok cc m)"

lemma run_cycle_labels: "labels_ok cc d \<Longrightarrow> labels_ok cc (run_cycle E C S f d)"
proof -
  assume a: "labels_ok cc d"
  obtain ok w m where d: "d = (ok, w, m)" by (metis prod_cases3)
  obtain r w1 m1 where r: "run E C S f (w, m) = (r, (w1, m1))" by (metis prod_cases3)
  have "meters_ok cc m1" using run_labels [OF r] a d by (simp add: labels_ok_def)
  then show ?thesis using d r by (cases r) (simp_all add: run_cycle_def labels_ok_def Let_def meters_ok_ops)
qed

interpretation lab: kept_by_cycle "run_cycle E C S f" "labels_ok cc" for E C S f cc
  by unfold_locales (rule run_cycle_labels)

text \<open>A bound server is shut down once, whatever its goroutine did before.\<close>

definition server_stopped :: "health_server \<Rightarrow> bool" where
  "server_stopped h \<longleftrightarrow> hs_ln h \<and> hs_stopBgOnce h \<and> hc_shutdowns h = 1 \<and> hc_starts h \<le> 1"

lemma shutdown_fields:
  "hs_ln (snd (shutdown e h)) = hs_ln h" "hc_starts (snd (shutdown e h)) = hc_starts h" "hs_stopBgOnce (snd (shutdown e h))"
  "\<not> hs_stopBgOnce h \<Longrightarrow> hc_shutdowns (snd (shutdown e h)) = Suc (hc_shutdowns h)"
  by (auto simp: shutdown_def stop_background_loop_def split: option.split)

lemma start_bound: "hs_ln h \<Longrightarrow> snd (start l e h) = h\<lparr>hc_starts := Suc (hc_starts h)\<rparr>"
  by (simp add: start_def)

lemma boot_server:
  assumes "boot E B v flags w = (Inr (f, Some h, m), w')"
  shows "hs_ln h \<and> \<not> hs_stopBgOnce h \<and> hc_shutdowns h = 0 \<and> hc_starts h = 0"
  using assms
  by (auto simp: boot_def Let_def pre_bind_def new_health_server_def split: if_splits sum.splits prod.splits option.splits)

lemma server_ends_stopped:
  assumes "boot E B v flags w = (Inr (f, hs, m), w1)" "server_ends B hs hs'"
  shows "case hs of None \<Rightarrow> hs' = None | Some h \<Rightarrow> \<exists>h'. hs' = Some h' \<and> server_stopped h'"
  using assms(2)
  by cases (use assms(1) in \<open>auto dest!: boot_server simp: server_stopped_def shutdown_fields start_bound\<close>)

lemma server_ends_total: "\<exists>hs'. server_ends B hs hs'"
  by (cases hs) (auto intro: server_ends.intros)

text \<open>
  Without a refresh interval the process ends, and its exit code and the world it leaves do not
  depend on what the goroutine of the server did.
\<close>

lemma oneshot_exits:
  assumes "\<not> 0 < refreshInterval (apply_defaults flags)"
  shows "\<exists>code w' hs'. main_exits E C S B v flags w code w' hs'"
proof (cases "boot E B v flags w")
  case (Pair x w1)
  show ?thesis
  proof (cases x)
    case (Inl code)
    then show ?thesis using main_exits.early [OF Pair [unfolded Inl]] by blast
  next
    case (Inr y)
    obtain f hs m where y: "y = (f, hs, m)" by (metis prod_cases3)
    note b = Pair [unfolded Inr y]
    have i: "\<not> 0 < refreshInterval f" using boot_Inr(2) [OF b] assms by simp
    obtain ok w2 m2 where c: "run_cycle E C S f (False, w1, m) = (ok, w2, m2)" by (metis prod_cases3)
    obtain hs' where "server_ends B hs hs'" using server_ends_total by blast
    from main_exits.oneshot [OF b i c this] show ?thesis by blast
  qed
qed

lemma oneshot_same:
  assumes "main_exits E C S B v flags w code w' hs" "main_exits E C S B v flags w code2 w2 hs2"
    "\<not> 0 < refreshInterval (apply_defaults flags)"
  shows "code2 = code \<and> w2 = w'"
proof -
  have i: "\<not> 0 < refreshInterval f" if "boot E B v flags w = (Inr (f, h, m), x)" for f h m x
    using boot_Inr(2) [OF that] assms(3) by simp
  show ?thesis
    using assms(1)
  proof (cases rule: main_exits.cases)
    case early
    then show ?thesis using assms(2) by (auto elim!: main_exitsE)
  next
    case (oneshot f h m w1 lastRunOK x2 m2)
    then show ?thesis using assms(2) by (auto elim!: main_exitsE)
  qed (use i in blast)
qed

section \<open>Properties\<close>

text \<open>C1: Whatever the number and interleaving of cycles, and whatever fails, every state of frr.conf
  recorded by an FRR process is its first contents or what complete cycles made of them by
  splicing aggregated prefix lists, and still has both marker blocks.\<close>

theorem main_conf_safe:
  assumes "main_exits E C S B v flags w code w' hs'" "contents w (frrConf f) = Some old" "f = apply_defaults flags"
    "target f = ''frr''" "frrConf f \<notin> {cacheFile f, lastSuccessFile f, lockFile f}"
    "frr_layout f old" "bang_free (markerPrefix f)" "bang_free (routeMap f)"
  shows "\<exists>hs. history w' = history w @ hs
    \<and> list_all (\<lambda>s. \<exists>c. map_option bytes (s (frrConf f)) = Some c \<and> generated f old c \<and> frr_layout f c) hs"
proof -
  let ?gs = "generations f old"
  have old: "contents w (frrConf f) \<in> ?gs" using assms(2) generated.first by (simp add: generations_def)
  have kept: "steady (frrConf f) ?gs w x" if "keeps (frrConf f) w x" for x
    by (rule keeps_steady [OF that old])
  have close: "steady (frrConf f) ?gs w (snd (os_close E q x))" if "steady (frrConf f) ?gs w x" for q x
    by (rule steady_trans [OF that keeps_steady [OF close_keeps]])
      (use steady_safe [OF that] in \<open>simp add: safe_def contents_def\<close>)
  have ok: "cycle_ok f old w (b, w1, m)" if "keeps (frrConf f) w w1" for b w1 m
    using kept [OF that] assms(4,5) by (simp add: cycle_ok_def)
  have "steady (frrConf f) ?gs w w'"
    using assms(1)
  proof (cases rule: main_exits.cases)
    case early
    then show ?thesis using kept boot_keeps assms(3,5) by blast
  next
    case (oneshot g hs m w1 lastRunOK w2 m2)
    then have g: "g = f" "keeps (frrConf f) w w1" using boot_Inr(2) boot_keeps assms(3,5) by blast+
    have "steady (frrConf f) ?gs w w2"
      using cyc.work_ok [OF ok [OF g(2)]] oneshot(5) g(1) by (metis case_prodD cycle_ok_def)
    then show ?thesis using close oneshot by simp
  next
    case (daemon g hs m w1 s lastRunOK w2 m2)
    then have g: "g = f" "keeps (frrConf f) w w1" using boot_Inr(2) boot_keeps assms(3,5) by blast+
    have "cycle_ok f old w (loop_data s)" using cyc.loop_ok [OF ok [OF g(2)]] daemon g(1) by blast
    then have "steady (frrConf f) ?gs w w2" using daemon by (simp add: cycle_ok_def)
    then show ?thesis using close daemon by simp
  qed
  then obtain hs where hs: "history w' = history w @ hs" "list_all (safe (frrConf f) ?gs) hs"
    using steady_moments by blast
  have "list_all (\<lambda>s. \<exists>c. map_option bytes (s (frrConf f)) = Some c \<and> generated f old c \<and> frr_layout f c) hs"
    by (rule list.pred_mono_strong [OF hs(2)]) (use generated_layout assms(6-8) in \<open>auto simp: safe_def generations_def\<close>)
  then show ?thesis using hs(1) by blast
qed

text \<open>C36: If the lock cannot be taken the process exits with 1, runs no command, makes no request, starts
  no session, prints nothing and changes no file but the lock file.\<close>

theorem main_locked:
  assumes "main_exits E C S B False flags w code w' hs'" "fst (acquire_lock E (lockFile (apply_defaults flags)) w) = Inl e"
  shows "code = 1 \<and> effects w' = effects w \<and> (q = lockFile (apply_defaults flags) \<or> fs w' q = fs w q)"
proof -
  let ?f = "apply_defaults flags"
  obtain w1 where l: "acquire_lock E (lockFile ?f) w = (Inl e, w1)" using assms(2) by (metis prod.collapse)
  note k = acquire_lock_effect [OF l]
  have b: "boot E B False flags w = (Inl 1, w) \<or> boot E B False flags w = (Inl 1, w1)"
    using l by (auto simp: boot_def Let_def split: sum.split)
  then have "code = 1 \<and> (w' = w \<or> w' = w1)" using assms(1) by (auto elim!: main_exitsE)
  then show ?thesis using k(1) k(2) [of q] by (auto simp: keeps_def)
qed

text \<open>C38: A process that got as far as its work exits with 0 in daemon mode, and otherwise with 0 exactly
  if run succeeded; a server it bound is shut down by then and its check loop stopped exactly
  once, whenever its goroutine ran.\<close>

theorem main_exit_status:
  assumes "main_exits E C S B v flags w code w' hs'" "boot E B v flags w = (Inr (f, hs, m), w1)"
  shows "code = (if 0 < refreshInterval f \<or> fst (run E C S f (w1, m)) = Inr () then 0 else 1)
    \<and> (case hs of None \<Rightarrow> hs' = None | Some h \<Rightarrow> \<exists>h'. hs' = Some h' \<and> server_stopped h')"
  using assms(1)
proof (cases rule: main_exits.cases)
  case (oneshot g h k x1 lastRunOK x2 k2)
  then have "run_cycle E C S f (False, w1, m) = (lastRunOK, x2, k2)" "server_ends B hs hs'" "\<not> 0 < refreshInterval f"
    using assms(2) by simp_all
  moreover have "lastRunOK = (fst (run E C S f (w1, m)) = Inr ())" by (rule run_cycle_world [OF calculation(1)]) simp
  ultimately show ?thesis using oneshot(1) server_ends_stopped [OF assms(2)] by auto
next
  case (daemon g h k x1 s lastRunOK x2 k2)
  then show ?thesis using assms(2) server_ends_stopped [OF assms(2)] by simp
qed (use assms(2) in simp)

inductive_simps program_exits_iff: "program_exits E C S B argv w code w' hs'"

text \<open>C37: Everything from the first argument that is no flag on has no effect: the process behaves as if
  the command line ended there, so after a stray word the flags that follow are silently lost.\<close>

theorem program_ignores_rest:
  assumes "parse_command_line argv = Inr ([], c)" "\<not> flag_like x"
  shows "program_exits E C S B (argv @ x # rest) w code w' hs' = program_exits E C S B argv w code w' hs'"
  unfolding program_exits_iff command_line_stops [OF assms] assms(1) by simp

text \<open>C40: Whatever cycles have run, every series the daemon exposes has exactly one value per label of its
  collector, with the country first and each value from its small fixed domain, so no
  WithLabelValues call panics and the number of series is bounded.\<close>

theorem main_labels:
  assumes "boot E B False flags w = (Inr (f, hs, m), w1)"
    "loop_reaches (run_cycle E C S f) (loop_start (False, w1, m)) s" "scraped s = Some k"
  shows "metrics_country k = str_lower (country f) \<and> map fst (used_labels k) = metric_collectors
    \<and> list_all (\<lambda>(d, used). \<forall>ls \<in> used. proper_labels (str_lower (country f)) d ls) (used_labels k)"
proof -
  have "labels_ok (str_lower (country f)) (False, w1, m)"
    using boot_Inr(3) [OF assms(1)] labelled_new
    by (auto simp: labels_ok_def meters_ok_def) (simp_all add: new_metrics_def)
  then have "labels_ok (str_lower (country f)) (loop_data s)" using lab.loop_ok assms(2) by blast
  then have "meters_ok (str_lower (country f)) (scraped s)"
    by (auto simp: labels_ok_def scraped_def meters_ok_ops split: prod.splits)
  then show ?thesis
    unfolding assms(3) using used_collectors [of k] by (auto simp: meters_ok_def labelled_def)
qed

text \<open>C39: In daemon mode with a health server the run counters for success and error together always equal
  the number of completed cycles, and the skip counter equals the number of ticks that found the
  previous cycle still running.\<close>

theorem main_runs_counted:
  assumes "boot E B v flags w = (Inr (f, hs, Some k), w1)"
    "loop_reaches (run_cycle E C S f) (loop_start (False, w1, Some k)) s"
  shows "\<exists>k'. scraped s = Some k'
    \<and> runsTotal k' [str_lower (country f), ''success''] + runsTotal k' [str_lower (country f), ''error''] = completed s
    \<and> skippedOverlapTotal k' [str_lower (country f)] = skippedOverlap s"
proof -
  let ?cc = "str_lower (country f)"
  have "k = new_metrics ?cc" using boot_Inr(3) [OF assms(1)] by simp
  then have "cycles_counted ?cc 0 (False, w1, Some k)" by (simp add: cycles_counted_def new_metrics_def)
  from cycles_counted_funpow [OF this] have "cycles_counted ?cc (completed s) (loop_data s)"
    using loop_inv_reachable [OF assms(2)] by (simp add: loop_inv_def)
  then obtain ok w' k' where d: "loop_data s = (ok, w', Some k')" "metrics_country k' = ?cc"
    "runsTotal k' [?cc, ''success''] + runsTotal k' [?cc, ''error''] = completed s" "skippedOverlapTotal k' [?cc] = 0"
    by (auto simp: cycles_counted_def split: prod.splits)
  show ?thesis
    by (rule exI [of _ "(count_skip ^^ skippedOverlap s) k'"])
      (use count_skips [of "skippedOverlap s" k', unfolded d(2)] d in \<open>simp add: scraped_def\<close>)
qed

section \<open>Concrete processes\<close>

text \<open>The program started without arguments, and with a health server.\<close>

definition main_flags :: "string \<Rightarrow> cliFlags" where
  "main_flags addr = flag_defaults\<lparr>httpAddr := addr\<rparr>"

abbreviation default_flags :: cliFlags where
  "default_flags \<equiv> apply_defaults (main_flags [])"

definition main_text :: string where
  "main_text = str_join [nl] [''  ! BEGIN-RU-FEED-V4'', ''  ! END-RU-FEED-V4'', ''  ! BEGIN-RU-FEED-V6'', ''  ! END-RU-FEED-V6'']"

definition main_world :: world where
  "main_world = start_world [''/etc/frr/frr.conf'' \<mapsto> \<lparr>bytes = main_text, perm = 416, mtime = 0\<rparr>]"

definition boot_calm :: boot_env where
  "boot_calm = \<lparr>version_text = ''dev'', boot_lib = plain_lib, listen_tcp = \<lambda>_. None\<rparr>"

definition locked_env :: os_env where
  "locked_env = calm\<lparr>fault := \<lambda>n. if n = 1 then Some (errors_new ErrWouldBlock) else None\<rparr>"

lemmas main_flags_simps = main_flags_def flag_defaults_def apply_defaults_def apply_base_defaults_def
  apply_runtime_defaults_def apply_iosxe_target_defaults_def apply_iosxe_defaults_def Let_def str_default_def int_default_def

lemma country_case: "str_upper ''RU'' = ''RU''" "str_lower ''RU'' = ''ru''"
  by code_simp+

lemma main_facts:
  "refreshInterval (apply_defaults (main_flags a)) = 0" "target default_flags = ''frr''"
  "frrConf default_flags = ''/etc/frr/frr.conf''" "httpAddr (apply_defaults (main_flags a)) = a"
  "logFormat (apply_defaults (main_flags a)) = ''text''" "logLevel (apply_defaults (main_flags a)) = ''info''"
  "bang_free (markerPrefix default_flags)" "bang_free (routeMap default_flags)"
  "''/etc/frr/frr.conf'' \<notin> {cacheFile default_flags, lastSuccessFile default_flags, lockFile default_flags}"
  "frr_layout default_flags main_text" "contents main_world ''/etc/frr/frr.conf'' = Some main_text"
  by (simp_all add: main_flags_simps country_case main_text_def main_world_def contents_def frr_layout_def markers_def
      two_blocks_def has_prefix_def)

text \<open>The defaults with an operator's list for each family, and the files they name.\<close>

definition list_flags :: "path \<Rightarrow> path \<Rightarrow> cliFlags" where
  "list_flags p4 p6 = apply_defaults (flag_defaults\<lparr>extrasV4File := p4, extrasV6File := p6\<rparr>)"

definition list_world :: world where
  "list_world = start_world [''/etc/frr/frr.conf'' \<mapsto> \<lparr>bytes = main_text, perm = 416, mtime = 0\<rparr>,
     ''v4.txt'' \<mapsto> \<lparr>bytes = render_prefix_lines [net_c] @ [nl], perm = 420, mtime = 0\<rparr>,
     ''v6.txt'' \<mapsto> \<lparr>bytes = render_prefix_lines [net_6] @ [nl], perm = 420, mtime = 0\<rparr>]"

lemma list_facts:
  "frrConf (list_flags a b) = ''/etc/frr/frr.conf''" "cacheFile (list_flags a b) = ''/var/lib/georoute/feed-ru.json.gz''"
  "extrasV4File (list_flags a b) = a" "extrasV6File (list_flags a b) = b" "target (list_flags a b) = ''frr''"
  "targetMode (list_flags a b) = ''apply''" "retryAttempts (list_flags a b) = 3" "markerPrefix (list_flags a b) = ''RU-FEED''"
  "routeMap (list_flags a b) = ''MARK-RU-EXIT''" "\<not> dryRun (list_flags a b)" "updateNft (list_flags a b)" "reloadOK (list_flags a b)"
  "nftSetV4 (list_flags a b) = ''ru_v4''" "nftSetV6 (list_flags a b) = ''ru_v6''"
  "frrReloadScript (list_flags a b) = ''/usr/lib/frr/frr-reload.py''" "nftBinary (list_flags a b) = ''/usr/sbin/nft''"
  "frr_layout (list_flags a b) main_text" "contents list_world ''/etc/frr/frr.conf'' = Some main_text"
  by (simp_all add: list_flags_def main_flags_simps country_case main_text_def list_world_def contents_def frr_layout_def
      markers_def two_blocks_def has_prefix_def)

lemma list_names: "names_free run_env ''/etc/frr/frr.conf'' ((fs list_world)(''/var/lib/georoute/feed-ru.json.gz'' := c))"
  by (simp add: names_free_def list_world_def run_env_def)

lemma list_extras:
  assumes "\<And>n. fault E n = None"
  shows "load_extras (file_view E list_world) ''v4.txt'' 4 = Inr [net_c]"
    "load_extras (file_view E list_world) ''v6.txt'' 6 = Inr [net_6]"
    "load_extras (file_view E list_world) [] 6 = Inr []"
proof -
  have "file_view E list_world ''v4.txt'' = FileRead True (int (length (render_prefix_lines [net_c] @ [nl]))) (render_prefix_lines [net_c] @ [nl]) None"
    "file_view E list_world ''v6.txt'' = FileRead True (int (length (render_prefix_lines [net_6] @ [nl]))) (render_prefix_lines [net_6] @ [nl]) None"
    using assms by (simp_all add: file_view_def list_world_def)
  moreover have "length (prefix_string net_c) < 4096" "length (prefix_string net_6) < 4096"
    using net_c_canonical net_6_canonical by (simp_all add: prefix_string_short canonical_def)
  ultimately show "load_extras (file_view E list_world) ''v4.txt'' 4 = Inr [net_c]"
    "load_extras (file_view E list_world) ''v6.txt'' 6 = Inr [net_6]" "load_extras (file_view E list_world) [] 6 = Inr []"
    using net_c_canonical net_6_canonical
    by (simp_all add: load_extras_printed extras_ok_def render_prefix_lines_def) (simp add: load_extras_def)
qed

lemma list_answer:
  "json_decode sample_codec (take max_body_bytes sample_body) = Inr sample_resp" "Status sample_resp = ''ok''"
  "0 < retryAttempts (list_flags a b)" "cacheFile (list_flags a b) \<noteq> frrConf (list_flags a b)"
  "bang_free (markerPrefix (list_flags a b))" "bang_free (routeMap (list_flags a b))"
  "cacheFile (list_flags ''v4.txt'' ''v6.txt'') \<notin> {''v4.txt'', ''v6.txt''} - {[]}"
  "cacheFile (list_flags ''v4.txt'' []) \<notin> {''v4.txt'', []} - {[]}"
  by (simp_all add: list_facts)

lemma run_succeeds_witness:
  "fst (run run_env sample_codec (sshd []) (list_flags ''v4.txt'' ''v6.txt'') (list_world, None)) = Inr ()"
  using run_succeeds [of run_env "list_flags ''v4.txt'' ''v6.txt''" sample_body sample_codec sample_resp list_world "[net_c]" "[net_6]" main_text]
  by (simp only: list_facts(1-7,17,18) list_facts(2) [symmetric] sample_facts list_answer list_extras) (simp only: list_facts list_names, simp)

lemma run_feed_prefixes_witness:
  "\<exists>v4 v6 w' m'. run_feed run_env sample_codec (list_flags ''v4.txt'' ''v6.txt'') (list_world, None) = (Inr (v4, v6), (w', m'))
     \<and> covered v4 = covered [net_10] \<union> covered [net_c] \<and> covered v6 = covered [net_6]"
proof -
  let ?f = "list_flags ''v4.txt'' ''v6.txt''"
  obtain w1 m1 c where r: "run_feed run_env sample_codec ?f (list_world, None) =
      (Inr (aggregate (parse_prefixes (IPv4 sample_resp) @ [net_c]), aggregate (parse_prefixes (IPv6 sample_resp) @ [net_6])), (w1, m1))"
      "fs w1 = (fs list_world)(cacheFile ?f := c)"
    by (rule run_feed_calm [OF sample_facts(1) list_answer(1-3) sample_facts(2), of "''v4.txt''" "''v6.txt''" list_world "[net_c]" "[net_6]",
          unfolded list_facts(3,4), OF list_answer(7) list_extras(1,2) [OF sample_facts(2)]])
  from run_feed_prefixes [OF r(1)] obtain raw src w2 w3 ex4 ex6 where p:
    "fetch_with_cache run_env sample_codec (feedURL ?f, httpTimeout ?f) (cacheFile ?f) (cacheMaxAge ?f) (retryAttempts ?f) (retryBaseDelay ?f) list_world = ((Inr raw, src), w2)"
    "load_extras (file_view run_env w2) ''v4.txt'' 4 = Inr ex4" "load_extras (file_view run_env w3) ''v6.txt'' 6 = Inr ex6"
    "fs w2 = fs w1" "fs w3 = fs w1"
    "covered (aggregate (parse_prefixes (IPv4 sample_resp) @ [net_c])) = covered (parse_prefixes (IPv4 raw)) \<union> covered ex4"
    "covered (aggregate (parse_prefixes (IPv6 sample_resp) @ [net_6])) = covered (parse_prefixes (IPv6 raw)) \<union> covered ex6"
    unfolding list_facts(3,4) by (elim exE conjE) (rule that; assumption)
  obtain x where "fetch_with_cache run_env sample_codec (feedURL ?f, httpTimeout ?f) (cacheFile ?f) (cacheMaxAge ?f)
      (retryAttempts ?f) (retryBaseDelay ?f) list_world = ((Inr sample_resp, SourceFresh), x)"
    by (rule fetch_with_cache_calm [OF sample_facts(1) list_answer(1-3) sample_facts(2)])
  then have "raw = sample_resp" using p(1) by simp
  moreover have "file_view run_env x q = file_view run_env list_world q" if "fs x = fs w1" "q \<in> {''v4.txt'', ''v6.txt''}" for x q
    using that r(2) sample_facts(2) by (intro file_view_same) (auto simp: list_facts)
  then have "load_extras (file_view run_env w2) ''v4.txt'' 4 = Inr [net_c]" "load_extras (file_view run_env w3) ''v6.txt'' 6 = Inr [net_6]"
    using p(4,5) list_extras(1,2) [OF sample_facts(2)] load_extras_cong [of "file_view run_env w2" "''v4.txt''" "file_view run_env list_world"]
      load_extras_cong [of "file_view run_env w3" "''v6.txt''" "file_view run_env list_world"] by simp_all
  then have "ex4 = [net_c]" "ex6 = [net_6]" using p(2,3) by simp_all
  ultimately show ?thesis using r(1) p(6,7) sample_parsed by (auto simp: covered_def simp del: parse_prefixes.simps(2))
qed

lemma main_oneshot: "\<not> 0 < refreshInterval (apply_defaults (main_flags a))"
  by (simp add: main_facts(1))

lemma sample_logger: "\<exists>l. new_logger ''text'' ''info'' = Inr l"
  by (simp add: new_logger_def parse_log_level_def Let_def) code_simp

lemma main_conf_safe_witness:
  "\<exists>code w' hs hs'. main_exits run_env sample_codec (sshd []) boot_calm False (main_flags []) main_world code w' hs'
     \<and> history w' = history main_world @ hs
     \<and> list_all (\<lambda>s. \<exists>c. map_option bytes (s ''/etc/frr/frr.conf'') = Some c \<and> generated default_flags main_text c
          \<and> frr_layout default_flags c) hs"
proof -
  obtain code w' hs' where e: "main_exits run_env sample_codec (sshd []) boot_calm False (main_flags []) main_world code w' hs'"
    using oneshot_exits [OF main_oneshot] by blast
  have "contents main_world (frrConf default_flags) = Some main_text"
    "frrConf default_flags \<notin> {cacheFile default_flags, lastSuccessFile default_flags, lockFile default_flags}"
    unfolding main_facts(3) by (fact main_facts)+
  from main_conf_safe [OF e this(1) refl main_facts(2) this(2) main_facts(10,7,8)] e
  show ?thesis unfolding main_facts(3) by blast
qed

lemma main_locked_witness:
  "\<exists>code w' hs'. main_exits locked_env sample_codec (sshd []) boot_calm False (main_flags []) main_world code w' hs'
     \<and> code = 1 \<and> effects w' = effects main_world"
proof -
  obtain code w' hs' where e: "main_exits locked_env sample_codec (sshd []) boot_calm False (main_flags []) main_world code w' hs'"
    using oneshot_exits [OF main_oneshot] by blast
  have "\<exists>e. fst (acquire_lock locked_env q main_world) = Inl e" for q
    by (simp add: acquire_lock_def os_open_create_def os_flock_def os_call_def locked_env_def main_world_def)
  then show ?thesis using main_locked [OF e] e by blast
qed

lemma boot_ok:
  obtains w1 hs where "a = [] \<longleftrightarrow> hs = None" "boot run_env boot_calm False (main_flags a) w = (Inr (apply_defaults (main_flags a), hs,
      if a = [] then None else Some (new_metrics (str_lower (country (apply_defaults (main_flags a)))))), w1)"
proof -
  obtain l where l: "new_logger ''text'' ''info'' = Inr l" using sample_logger by blast
  obtain w1 where w1: "acquire_lock run_env (lockFile (apply_defaults (main_flags a))) w = (Inr (), w1)"
    by (simp add: acquire_lock_def os_open_create_def os_flock_def os_call_def sample_facts)
  obtain h where h: "new_health_server plain_lib a (lastSuccessFile (apply_defaults (main_flags a)))
      (str_lower (country (apply_defaults (main_flags a)))) (readyMaxAge (apply_defaults (main_flags a)))
    = Some (Inr (h, new_metrics (str_lower (country (apply_defaults (main_flags a))))))" "\<not> hs_ln h"
    by (rule plain_server)
  show thesis
    using that [of "if a = [] then None else Some (h\<lparr>hs_ln := True\<rparr>)" w1] l w1 h main_facts(4-6) [of a]
    by (cases "a = []") (simp_all add: boot_def Let_def pre_bind_def boot_calm_def)
qed

lemma main_exit_status_witness:
  "\<exists>code w' hs'. main_exits run_env sample_codec (sshd []) boot_calm False (main_flags '':9090'') main_world code w' hs'
    \<and> code \<in> {0, 1} \<and> (\<exists>h. hs' = Some h \<and> server_stopped h)"
proof -
  let ?f = "main_flags '':9090''"
  obtain code w' hs' where e: "main_exits run_env sample_codec (sshd []) boot_calm False ?f main_world code w' hs'"
    using oneshot_exits [OF main_oneshot] by blast
  obtain hs k w1 where b: "boot run_env boot_calm False ?f main_world = (Inr (apply_defaults ?f, Some hs, Some k), w1)"
    by (rule boot_ok [of "'':9090''" main_world]) auto
  show ?thesis using main_exit_status [OF e b] e by (auto split: if_splits)
qed

lemma main_runs_counted_witness:
  "\<exists>hs k w1 k'. boot run_env boot_calm False (main_flags '':9090'') main_world
      = (Inr (apply_defaults (main_flags '':9090''), hs, Some k), w1)
    \<and> scraped ((loop_start (False, w1, Some k))\<lparr>goroutines := [Finished], completed := 1,
        loop_data := run_cycle run_env sample_codec (sshd []) (apply_defaults (main_flags '':9090'')) (False, w1, Some k)\<rparr>) = Some k'
    \<and> runsTotal k' [str_lower (country (apply_defaults (main_flags '':9090''))), ''success'']
      + runsTotal k' [str_lower (country (apply_defaults (main_flags '':9090''))), ''error''] = 1"
proof -
  let ?f = "main_flags '':9090''"
  obtain hs k w1 where b: "boot run_env boot_calm False ?f main_world = (Inr (apply_defaults ?f, hs, Some k), w1)"
    by (rule boot_ok [of "'':9090''" main_world]) simp
  let ?s = "(loop_start (False, w1, Some k))\<lparr>goroutines := [Finished], completed := 1,
        loop_data := run_cycle run_env sample_codec (sshd []) (apply_defaults ?f) (False, w1, Some k)\<rparr>"
  have "completed ?s = 1" by (simp only: loop_start_def loop_state.simps)
  with main_runs_counted [OF b first_cycle, of sample_codec "sshd []"]
  obtain k' where "scraped ?s = Some k'"
    "runsTotal k' [str_lower (country (apply_defaults ?f)), ''success'']
      + runsTotal k' [str_lower (country (apply_defaults ?f)), ''error''] = 1" by (elim exE conjE) simp
  then show ?thesis using b by (intro exI conjI)
qed

lemma main_labels_witness:
  "\<exists>hs k w1. boot run_env boot_calm False (main_flags '':9090'') main_world
      = (Inr (apply_defaults (main_flags '':9090''), hs, Some k), w1)
    \<and> metrics_country k = str_lower (country (apply_defaults (main_flags '':9090'')))"
proof -
  let ?f = "main_flags '':9090''"
  obtain hs k w1 where b: "boot run_env boot_calm False ?f main_world = (Inr (apply_defaults ?f, hs, Some k), w1)"
    by (rule boot_ok [of "'':9090''" main_world]) simp
  have "scraped (loop_start (False, w1, Some k)) = Some k" by (simp add: scraped_def loop_start_def)
  from main_labels [OF b rtranclp.rtrancl_refl this] show ?thesis using b by blast
qed

text \<open>\<open>--reload false --dry-run\<close> is neither: it reloads and it writes.\<close>

lemma program_ignores_rest_witness:
  "\<forall>w code w' hs'. program_exits run_env sample_codec (sshd []) boot_calm [''-reload'', ''false'', ''-dry-run''] w code w' hs'
    = main_exits run_env sample_codec (sshd []) boot_calm False flag_defaults w code w' hs'"
proof (intro allI)
  fix w code w' hs'
  have "\<not> flag_like ''false''" by (simp add: flag_like_def)
  from program_ignores_rest [OF reload_alone this, of run_env sample_codec "sshd []" boot_calm "[''-dry-run'']" w code w' hs']
  show "program_exits run_env sample_codec (sshd []) boot_calm [''-reload'', ''false'', ''-dry-run''] w code w' hs'
    = main_exits run_env sample_codec (sshd []) boot_calm False flag_defaults w code w' hs'"
    by (simp add: program_exits_iff [of _ _ _ _ "[''-reload'']"] reload_alone registered_defaults)
qed

end
