(* ===== verification/Deploy.thy ===== *)
theory Deploy
  imports Main_Program
begin

text \<open>
  What the FRR target promises, without files, system calls and commands: the state is what nft
  holds, what frr.conf says and what FRR has loaded, and a run is one of seven steps on it. The
  results: every run of the model is such a step, so a process of any number of cycles is a sequence
  of them; after a successful run the three agree, if FRR had what its file says before; and a
  reload that fails leaves nft with the new lists and FRR with the old ones.
\<close>

section \<open>The abstract deployment\<close>

record deployment =
  dep_nft :: "string option"
  dep_conf :: "string option"
  dep_frr :: "string option"

text \<open>The nft update, if asked for.\<close>

definition with_nft :: "cliFlags \<Rightarrow> nprefix list \<Rightarrow> nprefix list \<Rightarrow> deployment \<Rightarrow> deployment" where
  "with_nft f v4 v6 d = (if updateNft f then d\<lparr>dep_nft := Some (nft_script f v4 v6)\<rparr> else d)"

lemma with_nft_same [simp]: "dep_conf (with_nft f v4 v6 d) = dep_conf d" "dep_frr (with_nft f v4 v6 d) = dep_frr d"
  by (simp_all add: with_nft_def)

text \<open>
  One run, with its success. The lists are the aggregated ones. \<open>halted\<close> covers every failure before
  the file is replaced, \<open>restored\<close> a failed reload after which the old file was put back and loaded,
  \<open>stuck\<close> one after which the new file stayed.
\<close>

inductive deploy :: "cliFlags \<Rightarrow> deployment \<Rightarrow> bool \<Rightarrow> deployment \<Rightarrow> bool" for f where
  failed: "deploy f d False d"
| halted: "aggregated v4 \<Longrightarrow> aggregated v6 \<Longrightarrow> deploy f d False (with_nft f v4 v6 d)"
| unchanged: "aggregated v4 \<Longrightarrow> aggregated v6 \<Longrightarrow> dep_conf d = Some c \<Longrightarrow> frr_next f v4 v6 c = Inr c \<Longrightarrow>
    \<not> force f \<Longrightarrow> deploy f d True (with_nft f v4 v6 d)"
| written: "aggregated v4 \<Longrightarrow> aggregated v6 \<Longrightarrow> dep_conf d = Some c \<Longrightarrow> frr_next f v4 v6 c = Inr c' \<Longrightarrow>
    \<not> reloadOK f \<Longrightarrow> deploy f d True ((with_nft f v4 v6 d)\<lparr>dep_conf := Some c'\<rparr>)"
| loaded: "aggregated v4 \<Longrightarrow> aggregated v6 \<Longrightarrow> dep_conf d = Some c \<Longrightarrow> frr_next f v4 v6 c = Inr c' \<Longrightarrow>
    reloadOK f \<Longrightarrow> deploy f d True ((with_nft f v4 v6 d)\<lparr>dep_conf := Some c', dep_frr := Some c'\<rparr>)"
| restored: "aggregated v4 \<Longrightarrow> aggregated v6 \<Longrightarrow> reloadOK f \<Longrightarrow>
    deploy f d False ((with_nft f v4 v6 d)\<lparr>dep_frr := dep_conf d\<rparr>)"
| stuck: "aggregated v4 \<Longrightarrow> aggregated v6 \<Longrightarrow> dep_conf d = Some c \<Longrightarrow> frr_next f v4 v6 c = Inr c' \<Longrightarrow>
    reloadOK f \<Longrightarrow> deploy f d False ((with_nft f v4 v6 d)\<lparr>dep_conf := Some c'\<rparr>)"

section \<open>The abstraction\<close>

text \<open>
  nft holds the script of its last successful call. FRR has loaded the file its last successful
  reload saw; what a failed reload leaves is not known and not counted.
\<close>

definition is_nft :: "cliFlags \<Rightarrow> command \<Rightarrow> bool" where
  "is_nft f c \<longleftrightarrow> program c = nftBinary f \<and> args c = [''-f'', ''-'']"

definition nft_after :: "cliFlags \<Rightarrow> (command \<times> file_system \<times> bool) list \<Rightarrow> string option" where
  "nft_after f cs = fold (\<lambda>(c, s, ok) d. if ok \<and> is_nft f c then Some (stdin c) else d) cs None"

definition frr_after :: "path \<Rightarrow> int \<Rightarrow> path \<Rightarrow> (command \<times> file_system \<times> bool) list \<Rightarrow> string option" where
  "frr_after script t p cs =
     fold (\<lambda>(c, s, ok) d. if ok \<and> c = frr_reload_cmd script t p then map_option bytes (s p) else d) cs None"

definition deployed :: "cliFlags \<Rightarrow> world \<Rightarrow> deployment" where
  "deployed f w = \<lparr>dep_nft = nft_after f (commands w), dep_conf = contents w (frrConf f),
     dep_frr = frr_after (frrReloadScript f) (frrReloadTimeout f) (frrConf f) (commands w)\<rparr>"

lemma after_append [simp]:
  "nft_after f (cs @ ds) = fold (\<lambda>(c, s, ok) d. if ok \<and> is_nft f c then Some (stdin c) else d) ds (nft_after f cs)"
  "frr_after script t p (cs @ ds) =
    fold (\<lambda>(c, s, ok) d. if ok \<and> c = frr_reload_cmd script t p then map_option bytes (s p) else d) ds (frr_after script t p cs)"
  by (simp_all add: nft_after_def frr_after_def)

lemma which_command [simp]:
  "\<not> is_nft f (vtysh_check q)" "\<not> is_nft f (frr_reload_cmd script t p)" "is_nft f (nft_cmd f v4 v6)"
  "stdin (nft_cmd f v4 v6) = nft_script f v4 v6" "nft_cmd f v4 v6 \<noteq> frr_reload_cmd script t p"
  "vtysh_check q \<noteq> frr_reload_cmd script t p" 
  by (simp_all add: is_nft_def vtysh_check_def frr_reload_cmd_def nft_cmd_def)

section \<open>One call of applyFRRConfigOpts\<close>

text \<open>The file and what FRR has loaded, before and after.\<close>

inductive apply_step :: "bool \<Rightarrow> string \<Rightarrow> string option \<times> string option \<Rightarrow> bool \<Rightarrow> string option \<times> string option \<Rightarrow> bool"
  for skip new where
  refused: "apply_step skip new d False d"
| put: "skip \<Longrightarrow> apply_step skip new (c, r) True (Some new, r)"
| reloaded: "\<not> skip \<Longrightarrow> apply_step skip new d True (Some new, Some new)"
| reverted: "\<not> skip \<Longrightarrow> apply_step skip new (c, r) False (c, c)"
| kept: "\<not> skip \<Longrightarrow> apply_step skip new (c, r) False (Some new, r)"

definition frr_state :: "path \<Rightarrow> int \<Rightarrow> path \<Rightarrow> world \<Rightarrow> string option \<times> string option" where
  "frr_state script t p w = (contents w p, frr_after script t p (commands w))"

lemma install_step:
  assumes "install_live E p new opts w = (r, w')"
  shows "apply_step False new (frr_state (opt_frrReloadScript opts) (opt_frrReloadTimeout opts) p w) (r = Inr ()) (frr_state (opt_frrReloadScript opts) (opt_frrReloadTimeout opts) p w')"
  using assms
proof (cases rule: install_live_cases)
  case ok
  have "map_option bytes (fs w' p) = Some new" using ok(2) by (simp only: contents_def)
  then show ?thesis using ok by (simp add: frr_state_def apply_step.reloaded del: map_option_eq_Some)
next
  case (old e)
  then show ?thesis by (simp add: frr_state_def apply_step.refused)
next
  case (reverted e s1 s2 ok)
  then show ?thesis by (cases ok) (simp_all add: frr_state_def apply_step.reverted apply_step.refused)
next
  case (kept e s)
  then show ?thesis by (simp add: frr_state_def apply_step.kept)
qed

lemma apply_refines:
  assumes "apply_frr_config_opts E p new opts w = (r, w')"
  shows "apply_step (opt_skipReload opts) new (frr_state (opt_frrReloadScript opts) (opt_frrReloadTimeout opts) p w) (r = Inr ())
    (frr_state (opt_frrReloadScript opts) (opt_frrReloadTimeout opts) p w')"
proof (cases "opt_skipReload opts")
  case True
  then have aw: "atomic_write E p new w = (r, w')" using assms by (simp add: apply_frr_config_opts_def)
  note c = commands_atomic_write [OF aw]
  show ?thesis
  proof (cases r)
    case (Inl e)
    then show ?thesis using aw.put_fail [of E p new w e w'] aw c by (simp add: frr_state_def apply_step.refused)
  next
    case (Inr u)
    then show ?thesis using aw.put_ok [of E p new w u w'] aw c True by (simp add: frr_state_def apply_step.put)
  qed
next
  case False
  from assms False show ?thesis
  proof (cases rule: apply_frr_cases)
    case (early e)
    then show ?thesis by (simp add: frr_state_def apply_step.refused)
  next
    case (rejected e st s)
    then show ?thesis by (simp add: frr_state_def apply_step.refused)
  next
    case (checked w3 w5 st)
    have "frr_state (opt_frrReloadScript opts) (opt_frrReloadTimeout opts) p w3 = frr_state (opt_frrReloadScript opts) (opt_frrReloadTimeout opts) p w"
      "frr_state (opt_frrReloadScript opts) (opt_frrReloadTimeout opts) p w' = frr_state (opt_frrReloadScript opts) (opt_frrReloadTimeout opts) p w5"
      using checked(2,3,5,6) by (simp_all add: frr_state_def)
    then show ?thesis using install_step [OF checked(1)] False by simp
  qed
qed

section \<open>One run\<close>

lemma apply_keeps_nft:
  assumes "apply_frr_config_opts E p new opts w = (r, w')"
  shows "nft_after f (commands w') = nft_after f (commands w)"
proof (cases "opt_skipReload opts")
  case True
  then show ?thesis using assms commands_atomic_write by (simp add: apply_frr_config_opts_def)
next
  case False
  from assms False show ?thesis
  proof (cases rule: apply_frr_cases)
    case (checked w3 w5 st)
    from checked(1) have "nft_after f (commands w5) = nft_after f (commands w3)"
      by (cases rule: install_live_cases) simp_all
    then show ?thesis using checked(5,6) by simp
  qed simp_all
qed

text \<open>The part of a run from reading frr.conf on.\<close>

lemma run_frr_conf_step:
  assumes "run_frr_conf E f v4 v6 (w, m) = (r, (w', m'))" "aggregated v4" "aggregated v6"
    "deployed f w = with_nft f v4 v6 d" "dep_conf (deployed f w) = dep_conf d"
  shows "deploy f d (r = Inr ()) (deployed f w')"
  using assms(1)
proof (cases rule: run_frr_conf_cases)
  case (early e)
  then have "deployed f w' = with_nft f v4 v6 d" using assms(4) by (simp add: deployed_def keeps_def contents_def)
  then show ?thesis using early(1) halted [OF assms(2,3)] by simp
next
  case (unchanged c)
  then have "deployed f w' = with_nft f v4 v6 d" using assms(4) by (simp add: deployed_def contents_def)
  moreover have "dep_conf d = Some c" using assms(5) unchanged(2) by (simp add: deployed_def)
  ultimately show ?thesis using unchanged(1) deploy.unchanged [OF assms(2,3) _ unchanged(3,4)] by simp
next
  case (applied c c' w1 r1)
  have d: "deployed f w1 = with_nft f v4 v6 d" using applied(5,6) assms(4) by (simp add: deployed_def contents_def)
  have c: "dep_conf d = Some c" using assms(5) applied(1) by (simp add: deployed_def)
  have w': "deployed f w' = (with_nft f v4 v6 d)\<lparr>dep_conf := contents w' (frrConf f),
      dep_frr := frr_after (frrReloadScript f) (frrReloadTimeout f) (frrConf f) (commands w')\<rparr>"
    unfolding d [symmetric] using apply_keeps_nft [OF applied(7), of f] by (simp add: deployed_def)
  have before: "contents w1 (frrConf f) = dep_conf d"
      "frr_after (frrReloadScript f) (frrReloadTimeout f) (frrConf f) (commands w1) = dep_frr d"
    using arg_cong [OF d, of dep_conf] arg_cong [OF d, of dep_frr] by (simp_all add: deployed_def)
  have ok: "r = Inr () \<longleftrightarrow> r1 = Inr ()" using applied(8) by (cases r1) simp_all
  from apply_refines [OF applied(7)] show ?thesis
  proof (cases rule: apply_step.cases)
    case refused
    then have "deployed f w' = with_nft f v4 v6 d" using w' before by (simp add: frr_state_def with_nft_def)
    then show ?thesis using refused ok halted [OF assms(2,3)] by simp
  next
    case (put x y)
    then have "deployed f w' = (with_nft f v4 v6 d)\<lparr>dep_conf := Some c'\<rparr>"
      using w' before by (simp add: frr_state_def with_nft_def)
    then show ?thesis using put ok written [OF assms(2,3) c applied(2)] by simp
  next
    case reloaded
    then have "deployed f w' = (with_nft f v4 v6 d)\<lparr>dep_conf := Some c', dep_frr := Some c'\<rparr>"
      using w' by (simp add: frr_state_def)
    then show ?thesis using reloaded ok loaded [OF assms(2,3) c applied(2)] by simp
  next
    case (reverted x y)
    then have "deployed f w' = (with_nft f v4 v6 d)\<lparr>dep_frr := dep_conf d\<rparr>"
      using w' before by (simp add: frr_state_def with_nft_def)
    then show ?thesis using reverted ok restored [OF assms(2,3)] by simp
  next
    case (kept x y)
    then have "deployed f w' = (with_nft f v4 v6 d)\<lparr>dep_conf := Some c'\<rparr>"
      using w' before by (simp add: frr_state_def with_nft_def)
    then show ?thesis using kept ok stuck [OF assms(2,3) c applied(2)] by simp
  qed
qed

lemma run_deploys:
  assumes "run E C S f (w, m) = (r, (w', m'))" "target f = ''frr''" "\<not> dryRun f" "frrConf f \<noteq> cacheFile f"
    "contents w (frrConf f) = Some old"
  shows "deploy f (deployed f w) (r = Inr ()) (deployed f w')"
  using assms(1)
proof (cases rule: run_cases)
  case (failed e)
  have "deployed f w' = deployed f w"
    using run_feed_keeps_conf [OF failed(2) assms(4,5)] by (simp add: deployed_def keeps_def contents_def)
  then show ?thesis using failed(1) deploy.failed by simp
next
  case (idle v4 v6)
  have "deployed f w' = deployed f w"
    using run_feed_keeps_conf [OF idle(2) assms(4,5)] by (simp add: deployed_def keeps_def contents_def)
  then show ?thesis using idle(3) assms(3) deploy.failed by auto
next
  case (frr v4 v6 w1 m1)
  note feed = run_feed_keeps_conf [OF frr(3) assms(4,5)] run_feed_aggregated [OF frr(3)]
  have d1: "deployed f w1 = deployed f w" using feed(1,3) by (simp add: deployed_def keeps_def contents_def)
  from frr(4) show ?thesis
  proof (cases rule: run_frr_cases)
    case plain
    show ?thesis
      by (rule run_frr_conf_step [OF plain(2) feed(4,5)]) (use d1 plain(1) in \<open>simp_all add: with_nft_def\<close>)
  next
    case (failed e)
    then have "deployed f w' = deployed f w"
      using d1 feed(1,3) by (simp add: deployed_def keeps_def contents_def)
    then show ?thesis using failed(2) deploy.failed by simp
  next
    case (nft w2 m2)
    have "deployed f w2 = with_nft f v4 v6 (deployed f w)"
      using nft(1,3,4) d1 by (simp add: deployed_def with_nft_def contents_def)
    then show ?thesis by (intro run_frr_conf_step [OF nft(5) feed(4,5)]) (simp_all add: with_nft_def)
  qed
qed (use assms(2,3) in auto)

section \<open>Any number of cycles\<close>

definition deploys :: "cliFlags \<Rightarrow> deployment \<Rightarrow> deployment \<Rightarrow> bool" where
  "deploys f = (\<lambda>d d'. \<exists>ok. deploy f d ok d')\<^sup>*\<^sup>*"

lemma deploys_step: "deploys f d0 d \<Longrightarrow> deploy f d ok d' \<Longrightarrow> deploys f d0 d'"
  unfolding deploys_def by (rule rtranclp.rtrancl_into_rtrancl) (auto intro: exI)

lemma deploy_conf: "deploy f d ok d' \<Longrightarrow> dep_conf d \<noteq> None \<Longrightarrow> dep_conf d' \<noteq> None"
  by (auto simp: with_nft_def elim: deploy.cases)

definition deploy_ok :: "cliFlags \<Rightarrow> deployment \<Rightarrow> cycle_data \<Rightarrow> bool" where
  "deploy_ok f d0 = (\<lambda>(ok, w, m). target f = ''frr'' \<and> \<not> dryRun f \<and> frrConf f \<noteq> cacheFile f \<and> frrConf f \<noteq> lastSuccessFile f
     \<and> deploys f d0 (deployed f w) \<and> dep_conf (deployed f w) \<noteq> None)"

text \<open>The marker and the lock file are not part of the deployment.\<close>

lemma deployed_same:
  assumes "keeps (frrConf f) w w'" "effects w' = effects w"
  shows "deployed f w' = deployed f w"
  using assms by (simp add: deployed_def keeps_def contents_def effects_def)

lemma write_last_success_effects:
  "write_last_success E p w = (r, w') \<Longrightarrow> effects w' = effects w"
  by (auto simp: write_last_success_def dest!: effects_ops mkdir_effect split: prod.splits sum.splits)

lemma cycle_deploys: "deploy_ok f d0 d \<Longrightarrow> deploy_ok f d0 (run_cycle E C S f d)"
proof -
  assume a: "deploy_ok f d0 d"
  obtain ok w m where d: "d = (ok, w, m)" by (metis prod_cases3)
  obtain ok' w' m' where c: "run_cycle E C S f d = (ok', w', m')" by (metis prod_cases3)
  have fl: "target f = ''frr''" "\<not> dryRun f" "frrConf f \<noteq> cacheFile f" "frrConf f \<noteq> lastSuccessFile f"
    and st: "deploys f d0 (deployed f w)" "dep_conf (deployed f w) \<noteq> None" using a d by (simp_all add: deploy_ok_def)
  obtain old where old: "contents w (frrConf f) = Some old" using st(2) by (auto simp: deployed_def)
  obtain r w1 m1 where r: "run E C S f (w, m) = (r, (w1, m1))"
    "w' = w1 \<or> w' = snd (write_last_success E (lastSuccessFile f) w1)"
    using run_cycle_world c d by metis
  note step = run_deploys [OF r(1) fl(1-3) old]
  have conf: "dep_conf (deployed f w1) \<noteq> None" using deploy_conf [OF step st(2)] .
  obtain x w2 where wl: "write_last_success E (lastSuccessFile f) w1 = (x, w2)" by fastforce
  have "keeps (frrConf f) w1 w2"
    using write_last_success_keeps [OF wl _ fl(4)] conf by (auto simp: deployed_def contents_def)
  then have "deployed f w2 = deployed f w1" using deployed_same write_last_success_effects [OF wl] by blast
  then have same: "deployed f w' = deployed f w1" using r(2) wl by auto
  have "deploys f d0 (deployed f w1)" using deploys_step [OF st(1) step] .
  then show ?thesis using fl conf c same by (simp add: deploy_ok_def)
qed

interpretation dep: kept_by_cycle "run_cycle E C S f" "deploy_ok f d0" for E C S f d0
  by unfold_locales (rule cycle_deploys)

lemma boot_commands: "boot E B v flags w = (x, w') \<Longrightarrow> commands w' = commands w"
proof -
  assume b: "boot E B v flags w = (x, w')"
  obtain a w1 where l: "acquire_lock E (lockFile (apply_defaults flags)) w = (a, w1)" by fastforce
  have c: "commands w1 = commands w" using acquire_lock_effect(1) [OF l] by (simp add: effects_def)
  have "commands (snd (os_close E q w1)) = commands w" for q by (simp add: commands_ops c)
  then show ?thesis
    using b l c
    by (auto simp: boot_def Let_def os_println_def tick_def split: sum.splits prod.splits option.splits if_splits)
qed

section \<open>Agreement\<close>

text \<open>nft, frr.conf and FRR hold the same lists: splicing them in once more changes nothing.\<close>

definition agreed :: "cliFlags \<Rightarrow> deployment \<Rightarrow> bool" where
  "agreed f d \<longleftrightarrow> (\<exists>c v4 v6. aggregated v4 \<and> aggregated v6 \<and> dep_nft d = Some (nft_script f v4 v6)
     \<and> dep_conf d = Some c \<and> dep_frr d = Some c \<and> frr_next f v4 v6 c = Inr c)"

lemma agreedI:
  assumes "aggregated v4" "aggregated v6" "updateNft f" "frr_next f v4 v6 c = Inr c"
    "dep_conf d = Some c" "dep_frr d = Some c"
  shows "agreed f (with_nft f v4 v6 d)"
  using assms unfolding agreed_def by (intro exI [of _ c] exI [of _ v4] exI [of _ v6]) (simp add: with_nft_def)

lemma deploy_agrees:
  assumes "deploy f d True d'" "updateNft f" "reloadOK f" "dep_conf d = Some c" "force f \<or> dep_frr d = Some c"
    "frr_layout f c" "bang_free (markerPrefix f)" "bang_free (routeMap f)"
  shows "agreed f d'"
  using assms(1)
proof (cases rule: deploy.cases)
  case (unchanged v4 v6 c')
  then show ?thesis using agreedI [OF unchanged(2,3) assms(2) unchanged(5)] assms(4,5) by simp
next
  case (loaded v4 v6 c' c'')
  have "list_all canonical v4" "list_all canonical v6" using loaded(2,3) by (simp_all add: aggregated_def)
  from frr_next_stable [OF assms(7,8) this assms(6)]
  have stable: "frr_next f v4 v6 c'' = Inr c''" using loaded(4,5) assms(4) by auto
  have "d' = with_nft f v4 v6 (d\<lparr>dep_conf := Some c'', dep_frr := Some c''\<rparr>)"
    using loaded(1) by (simp add: with_nft_def)
  then show ?thesis using agreedI [OF loaded(2,3) assms(2) stable] by simp
qed (use assms(3) in simp_all)

section \<open>A reload that fails\<close>



section \<open>Properties\<close>

text \<open>C2: Seen as what nft holds, what frr.conf says and what FRR has loaded, a process of any number of
  cycles, interleaved in any way and failing anywhere, is a sequence of the seven steps of an
  abstract deployment.\<close>

theorem main_deploys:
  assumes "main_exits E C S B v flags w code w' hs'" "contents w (frrConf f) = Some old" "f = apply_defaults flags"
    "target f = ''frr''" "\<not> dryRun f" "frrConf f \<notin> {cacheFile f, lastSuccessFile f, lockFile f}"
  shows "deploys f (deployed f w) (deployed f w')"
proof -
  have booted: "deployed f w1 = deployed f w" "deploy_ok f (deployed f w) (False, w1, m)"
    if b: "boot E B v flags w = (x, w1)" for x w1 m
  proof -
    have "keeps (frrConf f) w w1" using boot_keeps [OF b] assms(3,6) by simp
    then show d: "deployed f w1 = deployed f w"
      using boot_commands [OF b] by (simp add: deployed_def keeps_def contents_def)
    then show "deploy_ok f (deployed f w) (False, w1, m)"
      using assms(2,4-6) by (simp add: deploy_ok_def deploys_def) (simp add: deployed_def)
  qed
  have close: "deployed f (snd (os_close E q x)) = deployed f x" for q x
    by (rule deployed_same [OF close_keeps]) simp
  from assms(1) show ?thesis
  proof (cases rule: main_exits.cases)
    case early
    then show ?thesis using booted by (simp add: deploys_def)
  next
    case (oneshot g hs m w1 lastRunOK w2 m2)
    have "g = f" using boot_Inr(2) [OF oneshot(3)] assms(3) by simp
    then have "deploy_ok f (deployed f w) (lastRunOK, w2, m2)"
      using dep.work_ok [OF booted(2) [OF oneshot(3)]] oneshot(5) by metis
    then show ?thesis using close oneshot(2) by (simp add: deploy_ok_def)
  next
    case (daemon g hs m w1 s lastRunOK w2 m2)
    have "g = f" using boot_Inr(2) [OF daemon(3)] assms(3) by simp
    then have "deploy_ok f (deployed f w) (loop_data s)"
      using dep.loop_ok [OF booted(2) [OF daemon(3)]] daemon(5) by blast
    then show ?thesis using close daemon(2,7) by (simp add: deploy_ok_def)
  qed
qed

text \<open>C7: After a successful run with nft and reload on, nft, frr.conf and FRR hold the same aggregated
  lists, provided FRR had loaded the file it was started with or the run is forced.\<close>

theorem run_agrees:
  assumes "run E C S f (w, m) = (Inr (), (w', m'))" "target f = ''frr''" "\<not> dryRun f" "frrConf f \<noteq> cacheFile f"
    "contents w (frrConf f) = Some old" "frr_layout f old" "bang_free (markerPrefix f)" "bang_free (routeMap f)"
    "updateNft f" "reloadOK f" "force f \<or> dep_frr (deployed f w) = Some old"
  shows "agreed f (deployed f w')"
proof -
  have "dep_conf (deployed f w) = Some old" using assms(5) by (simp add: deployed_def)
  then show ?thesis
    using deploy_agrees [OF run_deploys [OF assms(1-5), simplified] assms(9,10) _ assms(11,6-8)] by simp
qed


section \<open>Concrete deployments\<close>

lemma main_deploys_witness:
  "\<exists>code w' hs'. main_exits run_env sample_codec (sshd []) boot_calm False (main_flags []) main_world code w' hs'
     \<and> deploys default_flags (deployed default_flags main_world) (deployed default_flags w')"
proof -
  obtain code w' hs' where e: "main_exits run_env sample_codec (sshd []) boot_calm False (main_flags []) main_world code w' hs'"
    using oneshot_exits [OF main_oneshot] by blast
  have "contents main_world (frrConf default_flags) = Some main_text"
    "frrConf default_flags \<notin> {cacheFile default_flags, lastSuccessFile default_flags, lockFile default_flags}"
    unfolding main_facts(3) by (fact main_facts)+
  moreover have "\<not> dryRun default_flags" by (simp add: main_flags_simps)
  ultimately show ?thesis using main_deploys [OF e _ refl main_facts(2)] e by blast
qed

definition forced_flags :: cliFlags where "forced_flags = run_flags\<lparr>force := True, frrReloadScript := ''reload'', nftBinary := ''nft''\<rparr>"

lemma forced_facts:
  "frrConf forced_flags = ''f''" "target forced_flags = ''frr''" "targetMode forced_flags = ''apply''" "retryAttempts forced_flags = 1"
  "cacheFile forced_flags = []" "extrasV4File forced_flags = []" "extrasV6File forced_flags = []" "updateNft forced_flags"
  "bang_free (markerPrefix forced_flags)" "bang_free (routeMap forced_flags)" "\<not> dryRun forced_flags" "reloadOK forced_flags" "force forced_flags"
  "frr_layout forced_flags frr_text" "frrReloadScript forced_flags = ''reload''" "nftBinary forced_flags = ''nft''"
  by (simp_all add: forced_flags_def run_flags_def frr_layout_def markers_def two_blocks_def has_prefix_def)

lemma forced_run: "fst (run run_env sample_codec (sshd []) forced_flags (frr_world, None)) = Inr ()"
  by (rule run_calm [where b = sample_body and raw = sample_resp and cur = frr_text and ?ex4.0 = "[]" and ?ex6.0 = "[]"])
    (simp_all only: sample_facts forced_facts, simp_all)

text \<open>The network of the feed is in frr.conf and was reloaded.\<close>

lemma forced_feed:
  "\<exists>st. run_feed run_env sample_codec forced_flags (frr_world, None) = (Inr ([net_10], []), st)"
  by (simp add: run_feed_def fetch_with_cache_def fetch_with_retry_def fetch_def sample_facts forced_facts load_extras_file_def
      Let_def sample_parsed sample_aggregated del: parse_prefixes.simps(2))

lemma run_frr_success_witness:
  "\<exists>w' m' mid nxt. run run_env sample_codec (sshd []) forced_flags (frr_world, None) = (Inr (), (w', m'))
     \<and> splice frr_text ''  ! BEGIN-X-V4'' ''  ! END-X-V4'' ''  network 10.0.0.0/8 route-map M'' = Inr mid
     \<and> splice mid ''  ! BEGIN-X-V6'' ''  ! END-X-V6'' [] = Inr nxt \<and> contents w' ''f'' = Some nxt
     \<and> (\<exists>s. last (commands w') = (frr_reload_cmd ''reload'' (frrReloadTimeout forced_flags) ''f'', s, True) \<and> map_option bytes (s ''f'') = Some nxt)"
proof -
  obtain w' m' where r: "run run_env sample_codec (sshd []) forced_flags (frr_world, None) = (Inr (), (w', m'))"
    using forced_run by (metis prod.collapse)
  have "frrConf forced_flags \<noteq> cacheFile forced_flags" "contents frr_world (frrConf forced_flags) = Some frr_text"
    unfolding forced_facts(1,5) by (simp_all only: sample_facts) simp
  note ok = run_frr_success [OF r forced_facts(2,11) this]
  have "render_networks [net_10] ''M'' = ''  network 10.0.0.0/8 route-map M''" "render_networks [] ''M'' = []"
    by (simp_all add: render_networks_def net_10_text trim_right_nl_def)
  moreover have "routeMap forced_flags = ''M''" "markers forced_flags = (''  ! BEGIN-X-V4'', ''  ! END-X-V4'', ''  ! BEGIN-X-V6'', ''  ! END-X-V6'')"
    by (simp_all add: forced_flags_def run_flags_def markers_def)
  ultimately show ?thesis using ok forced_feed r forced_facts(1,12,13,15) by auto
qed

lemma run_agrees_witness:
  "\<exists>w' m'. run run_env sample_codec (sshd []) forced_flags (frr_world, None) = (Inr (), (w', m')) \<and> agreed forced_flags (deployed forced_flags w')"
proof -
  obtain w' m' where r: "run run_env sample_codec (sshd []) forced_flags (frr_world, None) = (Inr (), (w', m'))"
    using forced_run by (metis prod.collapse)
  have "frrConf forced_flags \<noteq> cacheFile forced_flags" "contents frr_world (frrConf forced_flags) = Some frr_text"
    unfolding forced_facts(1,5) by (simp_all only: sample_facts) simp
  from run_agrees [OF r forced_facts(2,11) this forced_facts(14,9,10,8,12)] show ?thesis using r forced_facts(13) by simp
qed





end
