(* ===== verification/Spec2Isabelle.thy ===== *)
theory Spec2Isabelle
  imports Aggregate Ranges Feed Extras Config FrrConfig Files Rollback Cache Iosxe Target Nft Metrics
    Refresh Health Run GoFlag CommandLine Main_Program Deploy
begin

text \<open>
  A model of georoute, the program that fetches the prefixes of a country from RIPE Stat, reduces
  them to a minimal list and installs them: as an nftables set and as marked blocks in frr.conf with
  a reload of FRR, or as a file, or as a configuration pushed to an IOS XE router over SSH. This
  theory collects the others; each has its own introduction. It also states what holds across two of
  them without one using the other: a list written by the file target is an operator's list.

  The parts, in the order of the data, and the theories that model them (sources under src/):

  \<^item> Go_Prelude: what the standard library does to strings, numbers, durations and errors. An error
    is the list of sentinels \<open>errors.Is\<close> finds in it together with its text; \<open>sentinel\<close> lists the
    package-level errors of all files. A fallible function returns \<open>'a res\<close>, \<open>Inl\<close> the error.
  \<^item> Netip, NetipText and NetipText6: net/netip as far as the program uses it, addresses as 128-bit
    words with a family and a zone, prefixes, masking, comparison, the parsers and the printers; every
    valid prefix, IPv4 or IPv6, is read back from its text.
  \<^item> Blocks: sets of aligned blocks, their minimal covers and the contract \<open>cidr_space\<close> between them and a
    prefix type. Aggregate: \<open>aggregate\<close> and \<open>canMerge\<close> of main.go. Ranges: \<open>rangeToCIDR\<close> and
    \<open>lastAddr\<close>. Feed: \<open>parsePrefixes\<close> and \<open>parseRange\<close>. Extras: extras.go.
  \<^item> Config: \<open>cliFlags\<close>, its defaults and the markers. GoFlag: package flag with its integer, boolean
    and duration syntax. CommandLine: the flags \<open>realMain\<close> registers and the parsed command line.
    FrrConfig: \<open>renderNetworks\<close>, \<open>splice\<close>, the two splices of \<open>run\<close> and the text \<open>printSample\<close> logs.
  \<^item> Json: the syntax encoding/json reads and writes, UTF-8, escapes, numbers and nesting, and that a
    printed value is read back. RipeFeed: the response type of main.go with its struct tags, as
    \<open>Decode\<close> fills it and \<open>Encode\<close> writes it.
  \<^item> Files: the operating system as a state \<open>world\<close> and an environment \<open>os_env\<close>, and
    \<open>atomicWrite\<close>. Rollback: rollback.go. Cache: \<open>fetch\<close>, \<open>fetchWithRetry\<close> and cache.go, on the
    texts RipeFeed reads and writes; gzip and the wording of JSON errors are parameters.
  \<^item> Iosxe: the renderers and checks of target.go and iosxe\_ssh.go. Target: \<open>runTarget\<close> and the SSH
    session. Nft: \<open>applyNft\<close>. Metrics: metrics.go (collectors, registration, observations) and
    logging.go. Health: health.go (marker, readiness, registry and routes, life cycle).
  \<^item> Run: \<open>run\<close> of main.go, the composition of all of the above. Refresh: refresh.go, the daemon's
    scheduling. Main_Program: \<open>realMain\<close> from the arguments to the exit code, \<open>acquireLock\<close> and the
    \<open>work\<close> closure.
  \<^item> Deploy: the process as an abstract deployment, which knows only what nft holds, what frr.conf says
    and what FRR has loaded.

  State and time. Every system call is one step: it increases \<open>calls\<close>, appends the file system to
  \<open>history\<close>, and the environment decides by the number of the call whether it fails. A statement about
  every element of \<open>history\<close> is therefore a statement about a process killed at any moment. External
  commands, HTTP requests and SSH shells are recorded with what they were given, commands and requests
  also with the deadline the code sets for them; what they answer is a function of the environment; an
  external command changes no file of the model. The clock too is a function of the number of the
  call, so no relation between two readings is assumed unless a theorem says so. Go's contexts appear
  only as those deadlines and the error they may yield. The daemon's goroutines interleave freely in the step relation
  \<open>loop_step\<close>; a cycle is one function on the data, which the mutex justifies and
  \<open>refresh_sequential\<close> makes precise.

  What the lemmas show. Aggregate and Ranges: the computed lists cover exactly the right addresses
  and no shorter list does. Feed and Extras: what the texts mean, line by line, and that only valid
  masked prefixes come out. FrrConfig: splicing changes the blocks only, is idempotent and keeps both
  blocks. Files, Rollback, Cache: all or nothing at every moment, success, rejection and rollback of
  frr.conf, when the cache answers, and that a response once accepted is read back from the cache as
  it was. GoFlag and CommandLine: every configuration can be written
  as a command line that parses to it, and what is silently ignored. Run: which commands run, in which order and with which deadlines, frr.conf
  after a success, no change on a second run, and success when nothing fails. Refresh and
  Main_Program: cycles never overlap, the loop drains, the lock excludes, exit codes, the server shut
  down once, counters and their labels, and that frr.conf is only ever what complete cycles made of it. Deploy: a process of any number of cycles refines the abstract
  deployment; when nft, frr.conf and FRR agree, and how a failed reload makes them differ.

  Interfaces. \<open>cidr_space\<close> (Blocks) is interpreted on the model's prefixes in Aggregate, \<open>atomic_store\<close>
  (Files) on \<open>atomic_write\<close>, whose clients are the FRR apply and the target output, and
  \<open>kept_by_cycle\<close> (Refresh) three times on \<open>run_cycle\<close>: in Main_Program for the invariant of frr.conf
  and for the labels of the metrics, in Deploy for the simulation of the abstract deployment.

  Bounds. The loops of the program that are bounded by data are functions with a termination proof:
  \<open>merge_loop\<close> (the list gets shorter), \<open>range_loop\<close> (the rest of the range gets shorter),
  \<open>scan_loop\<close> (the rest of the file gets shorter), \<open>json_string\<close> and
  \<open>json_value\<close> (the rest of the text gets shorter), \<open>temp_name\<close> (10000 attempts, the limit of
  \<open>os.CreateTemp\<close>), \<open>retry_loop\<close> (the attempts left). No fuel is used. The refresh loop may run for ever and
  is a relation; after its select it is proved to terminate.

  Assumed of the environment, as hypotheses of the theorems that need it: no system call fails, the
  first random name of a temporary file is free and contains no dot, hooks succeed or fail,
  gunzip undoes gzip, the cache is a file apart from frr.conf and the operator's lists. The names and maps an operator configures are assumed free of newlines or
  exclamation marks where a rendered text is read back. A path names one file, in one spelling.

  Not modelled: help and usage texts, signals, what happens inside the Prometheus, healthcheck, pprof
  and uuid libraries (what they accept and where they serve is a parameter), the lines written to the
  log (with \<open>hashOf\<close> and \<open>newRunID\<close>, which exist for them), directories and their modes, deadlines
  and cancellation beyond those recorded and the error a context yields, gzip itself, the texts of
  JSON errors, what is left of an earlier list when a JSON object names
  the same list twice, the ticker of the daemon, 64-bit overflow other
  than in command-line values and the backoff (sequence numbers, ages), and the quoting of non-ASCII
  text by \<open>%q\<close>.
\<close>

section \<open>From one component to another\<close>

text \<open>The output of the file target can be used as an operator's list.\<close>

lemma file_candidate: "target f = ''file'' \<Longrightarrow> target_candidate f ps = Inr (render_prefix_lines ps)"
  by (simp add: target_candidate_def)

text \<open>C17: When runTarget has written its list for the file target, loadExtras reads exactly that list back
  from the file, for masked prefixes of one family, IPv4 and IPv6 alike, and a file within the
  size limit.\<close>

theorem file_target_loads_back:
  assumes "run_target E S f ps w = (Inr (), w')" "\<not> dryRun f" "target f = ''file''" "targetMode f = ''render''"
    "targetOutput f \<noteq> []" "targetOutput f \<noteq> ''-''"
    "files (targetOutput f) = FileRead reg sz (the (contents w' (targetOutput f))) None" "reg \<longrightarrow> sz \<le> 1048576"
    "list_all (\<lambda>p. canonical p \<and> matches_family p family) ps"
  shows "load_extras files (targetOutput f) family = Inr ps"
proof -
  have "contents w' (targetOutput f) = Some (render_prefix_lines ps @ [nl])"
    using run_target_renders [OF assms(1,2,4-6)] by (simp add: file_candidate [OF assms(3)])
  then have "files (targetOutput f) = FileRead reg sz (render_prefix_lines ps @ [nl]) None"
    using assms(7) by simp
  moreover have "list_all (extras_ok family) ps" using assms(9) by (simp add: extras_ok_def list_all_iff)
  ultimately show ?thesis using load_extras_printed [of "targetOutput f" files reg sz ps family] assms(5,8) by blast
qed

section \<open>A concrete list\<close>

abbreviation file_flags :: cliFlags where
  "file_flags \<equiv> no_flags\<lparr>target := ''file'', targetMode := ''render'', targetOutput := ''o''\<rparr>"

lemma file_target_loads_back_witness:
  "\<exists>w'. run_target calm (sshd []) file_flags [net_6] (start_world Map.empty) = (Inr (), w')
    \<and> load_extras (\<lambda>_. FileRead False 0 (the (contents w' ''o'')) None) ''o'' 6 = Inr [net_6]"
proof -
  have "fst (run_target calm (sshd []) file_flags [net_6] (start_world Map.empty)) = Inr ()"
    by (simp add: run_target_def file_candidate write_target_output_def atomic_write_def create_temp_def temp_name_first
        os_call_def os_write_def os_chmod_def os_close_def os_rename_def append_bytes_def)
  then obtain w' where w: "run_target calm (sshd []) file_flags [net_6] (start_world Map.empty) = (Inr (), w')"
    by (metis prod.collapse)
  show ?thesis
    using w file_target_loads_back [OF w, of "\<lambda>_. FileRead False 0 (the (contents w' ''o'')) None" False 0 6]
      net_6_canonical by simp
qed

end
